theory Spec2Isabelle
  imports
    Main
    "HOL-Library.FSet"
    "HOL-Library.Signed_Division"
    "HOL-Library.Monad_Syntax"
    "HOL-Library.Sublist"
begin

section \<open>Go values, slices and run-time panics\<close>

text \<open>
  A Go \<open>int\<close> is modelled as an Isabelle \<open>int\<close>; the one place of the program where a
  64-bit \<open>int\<close> overflows on small inputs (the factorial that sizes the output of
  \<open>Permute\<close>) has its wrap-around written out. A computation that can panic (index out of
  range, a negative \<open>make\<close> size, division by zero, the explicit \<open>panic\<close> of
  \<open>AddObserver\<close>) returns an \<open>option\<close>, with \<open>None\<close> for the panic. A
  \<open>map[int]interface{}\<close> used as a set is an \<open>int fset\<close>.
\<close>

definition wrap64 :: "int \<Rightarrow> int" where
  "wrap64 x = (x + 2 ^ 63) mod 2 ^ 64 - 2 ^ 63"

definition wrap32 :: "int \<Rightarrow> int" where
  "wrap32 x = (x + 2 ^ 31) mod 2 ^ 32 - 2 ^ 31"

text \<open>\<open>xs[i]\<close>: the element, or the index-out-of-range panic.\<close>

definition at :: "'a list \<Rightarrow> int \<Rightarrow> 'a option" where
  "at xs i = (if 0 \<le> i \<and> i < int (length xs) then Some (xs ! nat i) else None)"

text \<open>\<open>xs[i] = v\<close>: the updated slice, or the index-out-of-range panic.\<close>

definition put :: "'a list \<Rightarrow> int \<Rightarrow> 'a \<Rightarrow> 'a list option" where
  "put xs i v = (if 0 \<le> i \<and> i < int (length xs) then Some (xs[nat i := v]) else None)"

text \<open>A loop over a list of indices or elements, whose body may panic.\<close>

fun for_loop :: "'i list \<Rightarrow> ('i \<Rightarrow> 's \<Rightarrow> 's option) \<Rightarrow> 's \<Rightarrow> 's option" where
  "for_loop [] body s = Some s"
| "for_loop (i # is) body s = (case body i s of None \<Rightarrow> None | Some s' \<Rightarrow> for_loop is body s')"

text \<open>The index list of \<open>for i := 0; i < n; i++\<close>.\<close>

definition upto_excl :: "int \<Rightarrow> int list" where
  "upto_excl n = map int [0 ..< nat n]"

section \<open>Characters\<close>

text \<open>A \<open>rune\<close> is a 32-bit integer; \<open>'0'\<close> is 48, \<open>'1'\<close> is 49, \<open>'9'\<close> is 57, \<open>'a'\<close> is 97,
  \<open>'z'\<close> is 122.\<close>

definition IntToCh :: "int \<Rightarrow> int" where
  "IntToCh n = (if n > 9 then wrap32 (97 + wrap32 (n - 10)) else wrap32 (48 + wrap32 n))"

definition ChToInt :: "int \<Rightarrow> int" where
  "ChToInt ch =
     (if ch \<ge> 49 \<and> ch \<le> 57 then ch - 48
      else if ch \<ge> 97 \<and> ch \<le> 122 then (ch - 97) + 10
      else 0)"

section \<open>Observers and the board\<close>

definition OBS_ROW :: int where "OBS_ROW = 0"
definition OBS_COL :: int where "OBS_COL = 1"
definition OBS_FWD :: int where "OBS_FWD = 0"
definition OBS_BWD :: int where "OBS_BWD = 1"
definition EMPTY :: int where "EMPTY = 0"

record Observer =
  Type :: int
  Index :: int
  Direction :: int
  Count :: int

text \<open>A nil \<open>*[]int\<close> of \<open>RowPerms\<close> and \<open>ColPerms\<close>, and a nil \<open>*Observer\<close> of
  \<open>ObsSorted\<close>, is \<open>None\<close>.\<close>

record Board =
  Grid :: "int list list"
  Allowed :: "int fset list list"
  NumEmpty :: int
  Size :: int
  Observers :: "Observer list"
  ObsSorted :: "Observer option list"
  Perms :: "int list list"
  RowPerms :: "int list option list"
  ColPerms :: "int list option list"

definition Get :: "Board \<Rightarrow> int \<Rightarrow> int \<Rightarrow> int option" where
  "Get b ri ci = do { row \<leftarrow> at (Grid b) ri; at row ci }"

text \<open>\<open>Set\<close> returns the board it leaves and its result. The counter \<open>NumEmpty\<close> is a
  64-bit \<open>int\<close>: \<open>b.NumEmpty++\<close> and \<open>b.NumEmpty--\<close> wrap around at the ends of the
  range.\<close>

definition Set :: "Board \<Rightarrow> int \<Rightarrow> int \<Rightarrow> int \<Rightarrow> (Board \<times> bool) option" where
  "Set b ri ci val = do {
     cur \<leftarrow> Get b ri ci;
     if cur = val then Some (b, False)
     else do {
       let ne = (if cur \<noteq> EMPTY \<and> val = EMPTY then wrap64 (NumEmpty b + 1)
                 else if cur = EMPTY \<and> val \<noteq> EMPTY then wrap64 (NumEmpty b - 1)
                 else NumEmpty b);
       row \<leftarrow> at (Grid b) ri;
       row' \<leftarrow> put row ci val;
       g' \<leftarrow> put (Grid b) ri row';
       Some (b\<lparr>NumEmpty := ne, Grid := g'\<rparr>, True)
     }
   }"

text \<open>A 2-by-2 board with one given, used to run the definitions on.\<close>

definition board_2x2 :: Board where
  "board_2x2 = \<lparr>Grid = [[0, 0], [2, 0]],
     Allowed = [[{|1|}, {|1, 2|}], [{|2|}, {|1|}]],
     NumEmpty = 3, Size = 2, Observers = [], ObsSorted = [None, None, None, None, None, None, None, None],
     Perms = [[1, 2], [2, 1]], RowPerms = [None, None], ColPerms = [None, None]\<rparr>"

section \<open>Slices: basic facts\<close>

lemma at_Some_iff: "at xs i = Some x \<longleftrightarrow> 0 \<le> i \<and> i < int (length xs) \<and> xs ! nat i = x"
  by (auto simp: at_def)

lemma at_None_iff: "at xs i = None \<longleftrightarrow> \<not> (0 \<le> i \<and> i < int (length xs))"
  by (auto simp: at_def)

lemma put_Some_iff:
  "put xs i v = Some ys \<longleftrightarrow> 0 \<le> i \<and> i < int (length xs) \<and> ys = xs[nat i := v]"
  by (auto simp: put_def)

lemma put_length: "put xs i v = Some ys \<Longrightarrow> length ys = length xs"
  by (auto simp: put_def split: if_splits)

lemma at_put_same: "put xs i v = Some ys \<Longrightarrow> at ys i = Some v"
  by (auto simp: put_def at_def split: if_splits)

lemma at_put_other: "put xs i v = Some ys \<Longrightarrow> j \<noteq> i \<Longrightarrow> at ys j = at xs j"
  by (auto simp: put_def at_def nat_eq_iff split: if_splits)

lemma put_total: "at xs i = Some x \<Longrightarrow> \<exists>ys. put xs i v = Some ys"
  by (simp add: at_def put_def split: if_splits)

lemma set_upto_excl: "set (upto_excl n) = {0 ..< n}"
proof -
  have "x \<in> int ` {0 ..< nat n} \<longleftrightarrow> 0 \<le> x \<and> x < n" for x
  proof
    assume "x \<in> int ` {0 ..< nat n}"
    then show "0 \<le> x \<and> x < n" by auto
  next
    assume "0 \<le> x \<and> x < n"
    then have "nat x \<in> {0 ..< nat n}" "x = int (nat x)" by auto
    then show "x \<in> int ` {0 ..< nat n}" by blast
  qed
  then show ?thesis by (auto simp: upto_excl_def)
qed

lemma distinct_upto_excl: "distinct (upto_excl n)"
  by (simp add: upto_excl_def distinct_map inj_on_def)

lemma for_loop_append:
  "for_loop (xs @ ys) body s = (case for_loop xs body s of None \<Rightarrow> None | Some s' \<Rightarrow> for_loop ys body s')"
  by (induction xs arbitrary: s) (auto split: option.splits)

lemma for_loop_rule_aux:
  "for_loop xs body s = Some t \<Longrightarrow> I s \<Longrightarrow>
   (\<forall>x \<in> set xs. \<forall>u v. I u \<longrightarrow> body x u = Some v \<longrightarrow> I v) \<Longrightarrow> I t"
proof (induction xs arbitrary: s)
  case Nil
  then show ?case by simp
next
  case (Cons x xs)
  from Cons.prems(1) obtain u where u: "body x s = Some u" and r: "for_loop xs body u = Some t"
    by (auto split: option.splits)
  have iu: "I u"
    using Cons.prems(3)[rule_format, of x s u] Cons.prems(2) u by simp
  have "\<forall>y \<in> set xs. \<forall>u v. I u \<longrightarrow> body y u = Some v \<longrightarrow> I v"
  proof (intro ballI allI impI)
    fix y v w
    assume "y \<in> set xs" "I v" "body y v = Some w"
    then show "I w" using Cons.prems(3)[rule_format, of y v w] by simp
  qed
  from Cons.IH[OF r iu this] show ?case .
qed

lemma for_loop_rule:
  assumes "for_loop xs body s = Some t"
    and "I s"
    and "\<And>x u v. x \<in> set xs \<Longrightarrow> I u \<Longrightarrow> body x u = Some v \<Longrightarrow> I v"
  shows "I t"
proof (rule for_loop_rule_aux[OF assms(1), of I])
  show "I s" by (rule assms(2))
  show "\<forall>x \<in> set xs. \<forall>u v. I u \<longrightarrow> body x u = Some v \<longrightarrow> I v"
    using assms(3) by (intro ballI allI impI)
qed

lemma for_loop_total_aux:
  "I s \<Longrightarrow> (\<forall>x \<in> set xs. \<forall>u. I u \<longrightarrow> (\<exists>v. body x u = Some v \<and> I v)) \<Longrightarrow>
   \<exists>t. for_loop xs body s = Some t \<and> I t"
proof (induction xs arbitrary: s)
  case Nil
  then show ?case by simp
next
  case (Cons x xs)
  have "\<exists>v. body x s = Some v \<and> I v"
    using Cons.prems(2)[rule_format, of x s] Cons.prems(1) by simp
  then obtain u where u: "body x s = Some u" "I u" by (elim exE conjE)
  have "\<forall>y \<in> set xs. \<forall>u. I u \<longrightarrow> (\<exists>v. body y u = Some v \<and> I v)"
  proof (intro ballI allI impI)
    fix y v
    assume "y \<in> set xs" "I v"
    then show "\<exists>w. body y v = Some w \<and> I w" using Cons.prems(2)[rule_format, of y v] by simp
  qed
  from Cons.IH[OF u(2) this] obtain t where "for_loop xs body u = Some t" "I t"
    by (elim exE conjE)
  with u show ?case by simp
qed

lemma for_loop_total:
  assumes "I s"
    and "\<And>x u. x \<in> set xs \<Longrightarrow> I u \<Longrightarrow> \<exists>v. body x u = Some v \<and> I v"
  shows "\<exists>t. for_loop xs body s = Some t \<and> I t"
proof (rule for_loop_total_aux[of I s xs body])
  show "I s" by (rule assms(1))
  show "\<forall>x \<in> set xs. \<forall>u. I u \<longrightarrow> (\<exists>v. body x u = Some v \<and> I v)"
    using assms(2) by (intro ballI allI impI)
qed

lemma wrap64_id: "- (2 ^ 63) \<le> x \<Longrightarrow> x < 2 ^ 63 \<Longrightarrow> wrap64 x = x"
  by (simp add: wrap64_def)

section \<open>The character encoding\<close>

lemma wrap32_id: "- (2 ^ 31) \<le> x \<Longrightarrow> x < 2 ^ 31 \<Longrightarrow> wrap32 x = x"
  by (simp add: wrap32_def)

text \<open>
  Claim C10. For every integer \<open>n\<close> with \<open>0 \<le> n \<le> 35\<close>, \<open>ChToInt (IntToCh n) = n\<close>: the
  rendering of clue counts and cell values as \<open>'0'\<close> to \<open>'9'\<close>, then \<open>'a'\<close> to \<open>'z'\<close>, is
  inverted by the parser's mapping from characters to integers.
\<close>

theorem ChToInt_IntToCh:
  assumes "0 \<le> n" and "n \<le> 35"
  shows "ChToInt (IntToCh n) = n"
proof (cases "n > 9")
  case True
  with assms have "IntToCh n = 97 + (n - 10)"
    by (simp add: IntToCh_def wrap32_id)
  with True assms show ?thesis by (simp add: ChToInt_def)
next
  case False
  with assms have "IntToCh n = 48 + n"
    by (simp add: IntToCh_def wrap32_id)
  with False assms show ?thesis by (auto simp: ChToInt_def)
qed

theorem ChToInt_IntToCh_witness:
  "(0::int) \<le> 17 \<and> (17::int) \<le> 35 \<and> ChToInt (IntToCh 17) = 17 \<and> IntToCh 17 = 104"
  using ChToInt_IntToCh [of 17] by (simp add: IntToCh_def wrap32_def)

section \<open>The grid setter\<close>

lemma Set_cases:
  assumes "Set b ri ci val = Some (b', ch)"
  obtains (same) "Get b ri ci = Some val" "b' = b" "\<not> ch"
  | (written) cur row where "Get b ri ci = Some cur" "cur \<noteq> val" "ch"
      "at (Grid b) ri = Some row" "0 \<le> ci" "ci < int (length row)"
      "b' = b\<lparr>NumEmpty := (if cur \<noteq> EMPTY \<and> val = EMPTY then wrap64 (NumEmpty b + 1)
                 else if cur = EMPTY \<and> val \<noteq> EMPTY then wrap64 (NumEmpty b - 1)
                 else NumEmpty b),
              Grid := (Grid b)[nat ri := row[nat ci := val]]\<rparr>"
  using assms
  by (auto simp: Set_def bind_eq_Some_conv Let_def put_Some_iff at_Some_iff split: if_splits)

text \<open>
  Claim C7. For every cell \<open>(r, c)\<close> of the grid and every value \<open>v\<close>: \<open>Set\<close> returns false
  and leaves the board unchanged when the cell already holds \<open>v\<close>; otherwise it writes \<open>v\<close>
  into that cell (and no other), moves the counter \<open>NumEmpty\<close> up by one when a filled cell
  is emptied, down by one when an empty cell is filled (both in 64-bit arithmetic, so from
  the largest value to the smallest and back), and not at all when one non-empty value
  replaces another, and returns true. In every case the candidate sets are untouched.
\<close>

theorem Set_spec:
  assumes "Get b ri ci = Some cur"
  shows "\<exists>b' ch. Set b ri ci val = Some (b', ch) \<and>
           Allowed b' = Allowed b \<and>
           (cur = val \<longrightarrow> \<not> ch \<and> b' = b) \<and>
           (cur \<noteq> val \<longrightarrow> ch \<and> Get b' ri ci = Some val \<and>
              (\<forall>r c. (r, c) \<noteq> (ri, ci) \<longrightarrow> Get b' r c = Get b r c) \<and>
              NumEmpty b' = (if cur \<noteq> 0 \<and> val = 0 then wrap64 (NumEmpty b + 1)
                             else if cur = 0 \<and> val \<noteq> 0 then wrap64 (NumEmpty b - 1)
                             else NumEmpty b) \<and>
              (- (2 ^ 63) < NumEmpty b \<and> NumEmpty b < 2 ^ 63 - 1 \<longrightarrow>
                 NumEmpty b' = NumEmpty b + (if cur \<noteq> 0 \<and> val = 0 then 1 else 0)
                                          - (if cur = 0 \<and> val \<noteq> 0 then 1 else 0)) \<and>
              b' = b\<lparr>NumEmpty := NumEmpty b', Grid := Grid b'\<rparr>)"
proof (cases "cur = val")
  case True
  with assms show ?thesis by (auto simp: Set_def)
next
  case False
  from assms obtain row where row: "at (Grid b) ri = Some row" "at row ci = Some cur"
    by (auto simp: Get_def bind_eq_Some_conv)
  from put_total[OF row(2)] obtain row' where row': "put row ci val = Some row'" by blast
  from put_total[OF row(1)] obtain g' where g': "put (Grid b) ri row' = Some g'" by blast
  define ne where "ne = (if cur \<noteq> EMPTY \<and> val = EMPTY then wrap64 (NumEmpty b + 1)
                 else if cur = EMPTY \<and> val \<noteq> EMPTY then wrap64 (NumEmpty b - 1)
                 else NumEmpty b)"
  define b' where "b' = b\<lparr>NumEmpty := ne, Grid := g'\<rparr>"
  have S: "Set b ri ci val = Some (b', True)"
    using assms False row row' g'
    by (simp add: Set_def Let_def b'_def ne_def)
  have G: "Get b' ri ci = Some val"
    using at_put_same[OF g'] at_put_same[OF row'] by (simp add: Get_def b'_def)
  have O: "Get b' r c = Get b r c" if "(r, c) \<noteq> (ri, ci)" for r c
  proof (cases "r = ri")
    case True
    with that have "c \<noteq> ci" by simp
    with True row(1) at_put_same[OF g'] at_put_other[OF row', of c] show ?thesis
      by (simp add: Get_def b'_def)
  next
    case False
    with at_put_other[OF g', of r] show ?thesis
      by (simp add: Get_def b'_def)
  qed
  have N: "NumEmpty b' = (if cur \<noteq> 0 \<and> val = 0 then wrap64 (NumEmpty b + 1)
                             else if cur = 0 \<and> val \<noteq> 0 then wrap64 (NumEmpty b - 1)
                             else NumEmpty b)"
    by (simp add: b'_def ne_def EMPTY_def)
  have M: "NumEmpty b' = NumEmpty b + (if cur \<noteq> 0 \<and> val = 0 then 1 else 0)
                                          - (if cur = 0 \<and> val \<noteq> 0 then 1 else 0)"
    if "- (2 ^ 63) < NumEmpty b \<and> NumEmpty b < 2 ^ 63 - 1"
  proof -
    from that have "wrap64 (NumEmpty b + 1) = NumEmpty b + 1" "wrap64 (NumEmpty b - 1) = NumEmpty b - 1"
      by (simp_all add: wrap64_id)
    with N False show ?thesis by auto
  qed
  have E: "b' = b\<lparr>NumEmpty := NumEmpty b', Grid := Grid b'\<rparr>"
    by (simp add: b'_def)
  have A: "Allowed b' = Allowed b" by (simp add: b'_def)
  from S G O N M E A False show ?thesis by blast
qed

text \<open>A board whose counter holds the largest 64-bit value, with one filled cell.\<close>

definition board_full_counter :: Board where
  "board_full_counter = board_2x2\<lparr>NumEmpty := 9223372036854775807\<rparr>"

theorem Set_spec_witness:
  "Get board_2x2 1 0 = Some 2 \<and>
   (\<exists>b' ch. Set board_2x2 1 0 0 = Some (b', ch) \<and> ch \<and> Get b' 1 0 = Some 0 \<and>
      Get b' 0 1 = Get board_2x2 0 1 \<and> NumEmpty b' = 4 \<and> Allowed b' = Allowed board_2x2) \<and>
   Get board_full_counter 1 0 = Some 2 \<and>
   (\<exists>b' ch. Set board_full_counter 1 0 0 = Some (b', ch) \<and> ch \<and>
      NumEmpty b' = - 9223372036854775808)"
proof -
  have g: "Get board_2x2 1 0 = Some 2"
    by (simp add: Get_def board_2x2_def at_def)
  have n: "NumEmpty board_2x2 = 3"
    by (simp add: board_2x2_def)
  have g2: "Get board_full_counter 1 0 = Some 2"
    by (simp add: Get_def board_2x2_def board_full_counter_def at_def)
  have nf: "NumEmpty board_full_counter = 9223372036854775807"
    by (simp add: board_full_counter_def)
  have n2: "wrap64 (9223372036854775807 + 1) = - 9223372036854775808"
    by (simp add: wrap64_def)
  from Set_spec[OF g, of 0] obtain b' ch where
    "Set board_2x2 1 0 0 = Some (b', ch)" "Allowed b' = Allowed board_2x2"
    "ch" "Get b' 1 0 = Some 0" "Get b' 0 1 = Get board_2x2 0 1"
    "NumEmpty b' = NumEmpty board_2x2 + 1"
    by (auto simp: n)
  with g n have 1: "\<exists>b' ch. Set board_2x2 1 0 0 = Some (b', ch) \<and> ch \<and> Get b' 1 0 = Some 0 \<and>
      Get b' 0 1 = Get board_2x2 0 1 \<and> NumEmpty b' = 4 \<and> Allowed b' = Allowed board_2x2"
    by auto
  from Set_spec[OF g2, of 0] obtain b2 ch2 where
    "Set board_full_counter 1 0 0 = Some (b2, ch2)" "ch2"
    "NumEmpty b2 = wrap64 (9223372036854775807 + 1)"
    by (auto simp: nf)
  with n2 have 2: "\<exists>b' ch. Set board_full_counter 1 0 0 = Some (b', ch) \<and> ch \<and>
      NumEmpty b' = - 9223372036854775808"
    by auto
  from g g2 1 2 show ?thesis by blast
qed

section \<open>Visibility\<close>

text \<open>One direction of \<open>PermFitsObs\<close>: the loop over the elements in scan order.
  \<open>Inl False\<close> is the early \<open>return false\<close>; \<open>Inr vis\<close> is the count at the end of the loop.\<close>

fun fits_scan :: "int list \<Rightarrow> int \<Rightarrow> int \<Rightarrow> int \<Rightarrow> bool + int" where
  "fits_scan [] cnt vis highest = Inr vis"
| "fits_scan (x # xs) cnt vis highest =
     (if x > highest then
        (if vis + 1 > cnt then Inl False else fits_scan xs cnt (vis + 1) x)
      else fits_scan xs cnt vis highest)"

definition fits_side :: "int list \<Rightarrow> Observer option \<Rightarrow> bool" where
  "fits_side xs obs =
     (case obs of
        None \<Rightarrow> True
      | Some ob \<Rightarrow> (case fits_scan xs (Count ob) 0 0 of
                     Inl r \<Rightarrow> r
                   | Inr vis \<Rightarrow> \<not> (vis \<noteq> Count ob)))"

definition PermFitsObs :: "int list \<Rightarrow> Observer option \<Rightarrow> Observer option \<Rightarrow> bool" where
  "PermFitsObs p fwd bwd =
     (if \<not> fits_side p fwd then False
      else if \<not> fits_side (rev p) bwd then False
      else True)"

definition obs_start :: "Board \<Rightarrow> Observer \<Rightarrow> int \<times> int \<times> int \<times> int" where
  "obs_start b ob =
     (if Type ob = OBS_ROW then
        (if Direction ob = OBS_BWD then (Index ob, Size b - 1, 0, - 1) else (Index ob, 0, 0, 1))
      else if Type ob = OBS_COL then
        (if Direction ob = OBS_BWD then (Size b - 1, Index ob, - 1, 0) else (0, Index ob, 1, 0))
      else (0, 0, 0, 0))"

text \<open>The body of the scanning loop of \<open>ObserverSatisfied\<close>, on the loop variables
  \<open>ri\<close>, \<open>ci\<close>, \<open>vis\<close> and \<open>highest\<close>.\<close>

definition obs_body ::
  "Board \<Rightarrow> int \<Rightarrow> int \<Rightarrow> int \<Rightarrow> int \<times> int \<times> int \<times> int \<Rightarrow> (int \<times> int \<times> int \<times> int) option" where
  "obs_body b dr dc = (\<lambda>i (ri, ci, vis, highest). do {
               val \<leftarrow> Get b ri ci;
               Some (ri + dr, ci + dc,
                     if val > highest then vis + 1 else vis,
                     if val > highest then val else highest)
             })"

definition ObserverSatisfied :: "Board \<Rightarrow> Observer \<Rightarrow> bool option" where
  "ObserverSatisfied b ob =
     (case obs_start b ob of (rstart, cstart, dr, dc) \<Rightarrow> do {
        (ri, ci, vis, highest) \<leftarrow>
          for_loop (upto_excl (Size b)) (obs_body b dr dc) (rstart, cstart, 0, 0);
        Some (vis = Count ob)
      })"

datatype verdict = Solved_ok | Incomplete int | Unsatisfied Observer

fun first_unsatisfied :: "Board \<Rightarrow> Observer list \<Rightarrow> verdict option" where
  "first_unsatisfied b [] = Some Solved_ok"
| "first_unsatisfied b (ob # obs) = do {
     ok \<leftarrow> ObserverSatisfied b ob;
     if \<not> ok then Some (Unsatisfied ob) else first_unsatisfied b obs
   }"

definition Solved :: "Board \<Rightarrow> verdict option" where
  "Solved b = (if NumEmpty b \<noteq> 0 then Some (Incomplete (NumEmpty b))
               else first_unsatisfied b (Observers b))"

definition board_repeated :: Board where
  "board_repeated = \<lparr>Grid = [[1, 1], [2, 2]],
     Allowed = [[{|1|}, {|1|}], [{|2|}, {|2|}]],
     NumEmpty = 0, Size = 2,
     Observers = [\<lparr>Type = 0, Index = 0, Direction = 0, Count = 1\<rparr>,
                  \<lparr>Type = 1, Index = 1, Direction = 1, Count = 1\<rparr>],
     ObsSorted = [Some \<lparr>Type = 0, Index = 0, Direction = 0, Count = 1\<rparr>, None, None, None,
                  None, None, None, Some \<lparr>Type = 1, Index = 1, Direction = 1, Count = 1\<rparr>],
     Perms = [[1, 2], [2, 1]], RowPerms = [Some [], None], ColPerms = [None, Some []]\<rparr>"


definition board_3x3 :: Board where
  "board_3x3 = \<lparr>Grid = [[2, 1, 3], [1, 3, 2], [3, 2, 1]],
     Allowed = [[{|2|}, {|1|}, {|3|}], [{|1|}, {|3|}, {|2|}], [{|3|}, {|2|}, {|1|}]],
     NumEmpty = 0, Size = 3,
     Observers = [\<lparr>Type = 0, Index = 0, Direction = 1, Count = 1\<rparr>,
                  \<lparr>Type = 1, Index = 0, Direction = 0, Count = 2\<rparr>],
     ObsSorted = [None, Some \<lparr>Type = 0, Index = 0, Direction = 1, Count = 1\<rparr>, None, None,
                  None, None, Some \<lparr>Type = 1, Index = 0, Direction = 0, Count = 2\<rparr>, None,
                  None, None, None, None],
     Perms = [[1, 2, 3], [1, 3, 2], [2, 1, 3], [2, 3, 1], [3, 1, 2], [3, 2, 1]],
     RowPerms = [Some [2], None, None], ColPerms = [Some [2], None, None]\<rparr>"

text \<open>The number of new maxima met when scanning a sequence, above a starting height.\<close>

fun vis_count :: "int list \<Rightarrow> int \<Rightarrow> int" where
  "vis_count [] h = 0"
| "vis_count (x # xs) h = (if x > h then 1 + vis_count xs x else vis_count xs h)"

lemma vis_count_nonneg: "0 \<le> vis_count xs h"
  by (induction xs arbitrary: h) auto

lemma fits_scan_count:
  "(case fits_scan xs cnt vis h of Inl r \<Rightarrow> r | Inr v \<Rightarrow> \<not> (v \<noteq> cnt)) \<longleftrightarrow>
   vis + vis_count xs h = cnt"
proof (induction xs arbitrary: vis h)
  case Nil
  then show ?case by simp
next
  case (Cons x xs)
  show ?case
  proof (cases "x > h")
    case False
    then show ?thesis using Cons.IH[of vis h] by simp
  next
    case True
    show ?thesis
    proof (cases "vis + 1 > cnt")
      case True
      with vis_count_nonneg[of xs x] \<open>x > h\<close> show ?thesis by simp
    next
      case False
      with \<open>x > h\<close> Cons.IH[of "vis + 1" x] show ?thesis by (simp add: algebra_simps)
    qed
  qed
qed

lemma fits_side_count:
  "fits_side xs (Some ob) \<longleftrightarrow> vis_count xs 0 = Count ob"
  using fits_scan_count[where xs = xs and cnt = "Count ob" and vis = 0 and h = 0]
  by (simp add: fits_side_def)


lemma obs_loop:
  assumes "\<forall>i < n. Get b (rstart + int i * dr) (cstart + int i * dc) = Some (q ! i)"
    and "length q = n" and "k \<le> n"
  shows "\<exists>ri ci hi. for_loop (map int [k ..< n]) (obs_body b dr dc)
            (rstart + int k * dr, cstart + int k * dc, vis, h) =
          Some (ri, ci, vis + vis_count (drop k q) h, hi)"
proof -
  define st where "st j v hh = (rstart + int j * dr, cstart + int j * dc, v, hh)" for j :: nat and v hh :: int
  have "\<exists>ri ci hi. for_loop (map int [k ..< n]) (obs_body b dr dc) (st k vis h) =
          Some (ri, ci, vis + vis_count (drop k q) h, hi)"
    using assms(3)
  proof (induction "n - k" arbitrary: k vis h)
    case 0
    then show ?case using assms(2) by (simp add: st_def)
  next
    case (Suc m)
    then have kn: "k < n" by simp
    then have g: "Get b (rstart + int k * dr) (cstart + int k * dc) = Some (q ! k)"
      using assms(1) by simp
    define vis' where "vis' = (if q ! k > h then vis + 1 else vis)"
    define h' where "h' = (if q ! k > h then q ! k else h)"
    have d: "vis + vis_count (drop k q) h = vis' + vis_count (drop (Suc k) q) h'"
      using kn assms(2) by (simp add: Cons_nth_drop_Suc[symmetric] vis'_def h'_def)
    have u: "[k ..< n] = k # [Suc k ..< n]"
      using kn by (simp add: upt_conv_Cons)
    have m: "m = n - Suc k" using Suc.hyps(2) by simp
    have step: "obs_body b dr dc (int k) (st k vis h) = Some (st (Suc k) vis' h')"
      using g by (simp add: obs_body_def st_def vis'_def h'_def algebra_simps)
    from Suc.hyps(1)[OF m, of vis' h'] kn
    obtain ri ci hi where
      "for_loop (map int [Suc k ..< n]) (obs_body b dr dc) (st (Suc k) vis' h') =
       Some (ri, ci, vis' + vis_count (drop (Suc k) q) h', hi)"
      by auto
    then show ?case
      unfolding u d by (simp add: step)
  qed
  then show ?thesis by (simp add: st_def)
qed

lemma ObserverSatisfied_line:
  assumes "obs_start b ob = (rstart, cstart, dr, dc)"
    and "Size b = int (length q)"
    and "\<forall>i < length q. Get b (rstart + int i * dr) (cstart + int i * dc) = Some (q ! i)"
  shows "ObserverSatisfied b ob = Some (vis_count q 0 = Count ob)"
proof -
  from obs_loop[OF assms(3) refl, of 0 0 0]
  obtain ri ci hi where
    "for_loop (map int [0 ..< length q]) (obs_body b dr dc) (rstart, cstart, 0, 0) =
       Some (ri, ci, vis_count q 0, hi)"
    by auto
  then show ?thesis
    using assms(1,2) by (simp add: ObserverSatisfied_def upto_excl_def obs_body_def)
qed

text \<open>
  Claim C8. For every observer on a row or column whose cells hold the sequence \<open>p\<close> (the
  whole line, of the board's size), \<open>ObserverSatisfied\<close> on the grid returns true if and
  only if \<open>PermFitsObs\<close> returns true on \<open>p\<close> with the observer supplied on its own
  side (backward when its direction is \<open>OBS_BWD\<close>, forward otherwise) and nil on the other:
  both scans count the same visible cells. The line need not even be free of zeros.
\<close>

theorem visibility_agree:
  assumes "Size b = int (length p)"
    and "Type ob = OBS_ROW \<and> (\<forall>i < length p. Get b (Index ob) (int i) = Some (p ! i)) \<or>
         Type ob = OBS_COL \<and> (\<forall>i < length p. Get b (int i) (Index ob) = Some (p ! i))"
  shows "ObserverSatisfied b ob =
           Some (PermFitsObs p (if Direction ob = OBS_BWD then None else Some ob)
                               (if Direction ob = OBS_BWD then Some ob else None))"
proof (cases "Direction ob = OBS_BWD")
  case False
  have P: "PermFitsObs p (Some ob) None = (vis_count p 0 = Count ob)"
    by (simp add: PermFitsObs_def fits_side_count) (simp add: fits_side_def)
  from assms(2) have "ObserverSatisfied b ob = Some (vis_count p 0 = Count ob)"
  proof
    assume a: "Type ob = OBS_ROW \<and> (\<forall>i < length p. Get b (Index ob) (int i) = Some (p ! i))"
    show ?thesis
      by (rule ObserverSatisfied_line[where rstart = "Index ob" and cstart = 0 and dr = 0 and dc = 1])
         (use a False assms(1) in \<open>simp_all add: obs_start_def\<close>)
  next
    assume a: "Type ob = OBS_COL \<and> (\<forall>i < length p. Get b (int i) (Index ob) = Some (p ! i))"
    show ?thesis
      by (rule ObserverSatisfied_line[where rstart = 0 and cstart = "Index ob" and dr = 1 and dc = 0])
         (use a False assms(1) in \<open>simp_all add: obs_start_def OBS_ROW_def OBS_COL_def\<close>)
  qed
  with P False show ?thesis by simp
next
  case True
  have P: "PermFitsObs p None (Some ob) = (vis_count (rev p) 0 = Count ob)"
    by (simp add: PermFitsObs_def fits_side_count) (simp add: fits_side_def)
  have r: "rev p ! i = p ! (length p - 1 - i)" if "i < length p" for i
    using that by (simp add: rev_nth)
  have ix: "int (length p) - 1 + int i * - 1 = int (length p - 1 - i)" if "i < length p" for i
    using that by (simp add: of_nat_diff)
  from assms(2) have "ObserverSatisfied b ob = Some (vis_count (rev p) 0 = Count ob)"
  proof
    assume a: "Type ob = OBS_ROW \<and> (\<forall>i < length p. Get b (Index ob) (int i) = Some (p ! i))"
    show ?thesis
    proof (rule ObserverSatisfied_line[where rstart = "Index ob" and cstart = "Size b - 1" and dr = 0 and dc = "- 1"])
      show "obs_start b ob = (Index ob, Size b - 1, 0, - 1)"
        using a True by (simp add: obs_start_def)
      show "Size b = int (length (rev p))" using assms(1) by simp
      show "\<forall>i < length (rev p). Get b (Index ob + int i * 0) (Size b - 1 + int i * - 1) = Some (rev p ! i)"
      proof (intro allI impI)
        fix i assume i: "i < length (rev p)"
        then have "length p - 1 - i < length p" by simp
        with a have g: "Get b (Index ob) (int (length p - 1 - i)) = Some (p ! (length p - 1 - i))"
          by blast
        have eq: "Size b - 1 + int i * - 1 = int (length p - 1 - i)" "Index ob + int i * 0 = Index ob"
          using ix[of i] i assms(1) by simp_all
        show "Get b (Index ob + int i * 0) (Size b - 1 + int i * - 1) = Some (rev p ! i)"
          unfolding eq using g r[of i] i by simp
      qed
    qed
  next
    assume a: "Type ob = OBS_COL \<and> (\<forall>i < length p. Get b (int i) (Index ob) = Some (p ! i))"
    show ?thesis
    proof (rule ObserverSatisfied_line[where rstart = "Size b - 1" and cstart = "Index ob" and dr = "- 1" and dc = 0])
      show "obs_start b ob = (Size b - 1, Index ob, - 1, 0)"
        using a True by (simp add: obs_start_def OBS_ROW_def OBS_COL_def)
      show "Size b = int (length (rev p))" using assms(1) by simp
      show "\<forall>i < length (rev p). Get b (Size b - 1 + int i * - 1) (Index ob + int i * 0) = Some (rev p ! i)"
      proof (intro allI impI)
        fix i assume i: "i < length (rev p)"
        then have "length p - 1 - i < length p" by simp
        with a have g: "Get b (int (length p - 1 - i)) (Index ob) = Some (p ! (length p - 1 - i))"
          by blast
        have eq: "Size b - 1 + int i * - 1 = int (length p - 1 - i)" "Index ob + int i * 0 = Index ob"
          using ix[of i] i assms(1) by simp_all
        show "Get b (Size b - 1 + int i * - 1) (Index ob + int i * 0) = Some (rev p ! i)"
          unfolding eq using g r[of i] i by simp
      qed
    qed
  qed
  with P True show ?thesis by simp
qed


theorem visibility_agree_witness:
  "Size board_3x3 = int (length [2, 1, 3 :: int]) \<and>
   Get board_3x3 0 0 = Some 2 \<and> Get board_3x3 0 1 = Some 1 \<and> Get board_3x3 0 2 = Some 3 \<and>
   ObserverSatisfied board_3x3 \<lparr>Type = 0, Index = 0, Direction = 1, Count = 1\<rparr> = Some True \<and>
   PermFitsObs [2, 1, 3] None (Some \<lparr>Type = 0, Index = 0, Direction = 1, Count = 1\<rparr>)"
proof -
  define ob where "ob = \<lparr>Type = 0, Index = 0, Direction = 1, Count = 1\<rparr>"
  have g: "Get board_3x3 0 0 = Some 2" "Get board_3x3 0 1 = Some 1" "Get board_3x3 0 2 = Some 3"
    by (simp_all add: Get_def board_3x3_def at_def)
  have s: "Size board_3x3 = int (length [2, 1, 3 :: int])"
    by (simp add: board_3x3_def)
  have h: "\<forall>i < length [2, 1, 3 :: int]. Get board_3x3 (Index ob) (int i) = Some ([2, 1, 3] ! i)"
    using g by (simp add: ob_def numeral_3_eq_3 less_Suc_eq)
  have t: "Type ob = OBS_ROW" "Direction ob = OBS_BWD"
    by (simp_all add: ob_def OBS_ROW_def OBS_BWD_def)
  have f: "PermFitsObs [2, 1, 3] None (Some ob)"
    by (simp add: PermFitsObs_def fits_side_def ob_def)
  from visibility_agree[OF s, of ob] h t f
  have "ObserverSatisfied board_3x3 ob = Some True" by simp
  with g s f show ?thesis by (simp add: ob_def)
qed

text \<open>For the statement of what \<open>Solved\<close> reports (a notion of the specification, not
  a translation of code): the line that an observer looks along, read off the grid, that
  is the values of its row or of its column, the nearest cell first. It is undefined when a
  cell of the line lies outside the grid, and for an observer that is neither on a row nor
  on a column. The visible count of the observer is \<open>vis_count\<close> of this line.\<close>

definition line_positions :: "Board \<Rightarrow> Observer \<Rightarrow> int list" where
  "line_positions b ob =
     (if Direction ob = OBS_BWD then rev (upto_excl (Size b)) else upto_excl (Size b))"

definition observer_line :: "Board \<Rightarrow> Observer \<Rightarrow> int list option" where
  "observer_line b ob =
     (if Type ob = OBS_ROW then those (map (\<lambda>i. Get b (Index ob) i) (line_positions b ob))
      else if Type ob = OBS_COL then those (map (\<lambda>i. Get b i (Index ob)) (line_positions b ob))
      else None)"

lemma those_Some:
  "those xs = Some ys \<Longrightarrow> length ys = length xs \<and> (\<forall>i < length xs. xs ! i = Some (ys ! i))"
proof (induction xs arbitrary: ys)
  case Nil
  then show ?case by simp
next
  case (Cons x xs)
  from Cons.prems obtain y zs where x: "x = Some y" and zs: "those xs = Some zs" and ys: "ys = y # zs"
    by (auto split: option.splits)
  from Cons.IH[OF zs] x ys show ?case by (auto simp: nth_Cons split: nat.splits)
qed

lemma line_positions_nth:
  assumes "i < nat (Size b)"
  shows "line_positions b ob ! i =
           (if Direction ob = OBS_BWD then Size b - 1 - int i else int i)"
  using assms by (auto simp: line_positions_def upto_excl_def rev_nth)

lemma length_line_positions: "length (line_positions b ob) = nat (Size b)"
  by (simp add: line_positions_def upto_excl_def)

lemma ObserverSatisfied_seen:
  assumes "observer_line b ob = Some q"
  shows "ObserverSatisfied b ob = Some (vis_count q 0 = Count ob)"
proof -
  from assms have ty: "Type ob = OBS_ROW \<or> Type ob = OBS_COL"
    by (auto simp: observer_line_def split: if_splits)
  define cell where "cell = (\<lambda>i. if Type ob = OBS_ROW then Get b (Index ob) i else Get b i (Index ob))"
  from assms ty have "those (map cell (line_positions b ob)) = Some q"
    by (auto simp: observer_line_def cell_def OBS_ROW_def OBS_COL_def cong: map_cong split: if_splits)
  from those_Some[OF this] have len: "length q = nat (Size b)"
    and cells: "\<forall>i < nat (Size b). cell (line_positions b ob ! i) = Some (q ! i)"
    by (simp_all add: length_line_positions)
  show ?thesis
  proof (cases "0 \<le> Size b")
    case False
    with len have "q = []" "upto_excl (Size b) = []" by (simp_all add: upto_excl_def)
    then show ?thesis
      by (simp add: ObserverSatisfied_def split: prod.splits)
  next
    case True
    with len have sz: "Size b = int (length q)" by simp
    obtain rstart cstart dr dc where st: "obs_start b ob = (rstart, cstart, dr, dc)"
      by (cases "obs_start b ob") auto
    have "\<forall>i < length q. Get b (rstart + int i * dr) (cstart + int i * dc) = Some (q ! i)"
    proof (intro allI impI)
      fix i assume i: "i < length q"
      with len have i': "i < nat (Size b)" by simp
      from cells i' have c: "cell (line_positions b ob ! i) = Some (q ! i)" by simp
      have "Get b (rstart + int i * dr) (cstart + int i * dc) = cell (line_positions b ob ! i)"
        using st ty line_positions_nth[OF i', of ob]
        by (auto simp: obs_start_def cell_def OBS_ROW_def OBS_COL_def split: if_splits)
      with c show "Get b (rstart + int i * dr) (cstart + int i * dc) = Some (q ! i)" by simp
    qed
    from ObserverSatisfied_line[OF st sz this] show ?thesis .
  qed
qed

lemma first_unsatisfied_append:
  assumes "\<forall>p \<in> set pre. ObserverSatisfied b p = Some True"
  shows "first_unsatisfied b (pre @ rest) = first_unsatisfied b rest"
  using assms by (induction pre) simp_all

text \<open>
  Claim C6. \<open>Solved\<close> fails with the error reporting the number of empty cells whenever
  \<open>NumEmpty\<close> is not zero; otherwise it fails with the error naming the first registered
  observer whose visible count on the grid (the number of new maxima along its line, nearest
  cell first) differs from its required count, all observers before it matching; otherwise,
  every observer matching, it succeeds. It never checks that the values of a line are
  distinct: there is a fully filled board with a repeated value in a row, with every observer
  satisfied, on which it succeeds.
\<close>

theorem Solved_spec:
  "(NumEmpty b \<noteq> 0 \<longrightarrow> Solved b = Some (Incomplete (NumEmpty b))) \<and>
   (NumEmpty b = 0 \<and> Observers b = pre @ ob # post \<and>
      (\<forall>p \<in> set pre. \<exists>q. observer_line b p = Some q \<and> vis_count q 0 = Count p) \<and>
      (\<exists>q. observer_line b ob = Some q \<and> vis_count q 0 \<noteq> Count ob)
      \<longrightarrow> Solved b = Some (Unsatisfied ob)) \<and>
   (NumEmpty b = 0 \<and>
      (\<forall>p \<in> set (Observers b). \<exists>q. observer_line b p = Some q \<and> vis_count q 0 = Count p)
      \<longrightarrow> Solved b = Some Solved_ok) \<and>
   (\<exists>b'. (\<forall>row \<in> set (Grid b'). 0 \<notin> set row) \<and> (\<exists>row \<in> set (Grid b'). \<not> distinct row) \<and>
      NumEmpty b' = 0 \<and> Observers b' \<noteq> [] \<and> Solved b' = Some Solved_ok)"
proof (intro conjI impI)
  assume "NumEmpty b \<noteq> 0"
  then show "Solved b = Some (Incomplete (NumEmpty b))" by (simp add: Solved_def)
next
  assume a: "NumEmpty b = 0 \<and> Observers b = pre @ ob # post \<and>
      (\<forall>p \<in> set pre. \<exists>q. observer_line b p = Some q \<and> vis_count q 0 = Count p) \<and>
      (\<exists>q. observer_line b ob = Some q \<and> vis_count q 0 \<noteq> Count ob)"
  then have pre: "\<forall>p \<in> set pre. ObserverSatisfied b p = Some True"
    using ObserverSatisfied_seen[of b] by auto
  from a have ob: "ObserverSatisfied b ob = Some False"
    using ObserverSatisfied_seen[of b ob] by auto
  from pre have "first_unsatisfied b (pre @ ob # post) = first_unsatisfied b (ob # post)"
    by (rule first_unsatisfied_append)
  with a ob show "Solved b = Some (Unsatisfied ob)" by (simp add: Solved_def)
next
  assume a: "NumEmpty b = 0 \<and>
      (\<forall>p \<in> set (Observers b). \<exists>q. observer_line b p = Some q \<and> vis_count q 0 = Count p)"
  then have "\<forall>p \<in> set (Observers b). ObserverSatisfied b p = Some True"
    using ObserverSatisfied_seen[of b] by auto
  then have "first_unsatisfied b (Observers b @ []) = first_unsatisfied b []"
    by (rule first_unsatisfied_append)
  with a show "Solved b = Some Solved_ok" by (simp add: Solved_def)
next
  have "Solved board_repeated = Some Solved_ok"
    by (simp add: Solved_def board_repeated_def ObserverSatisfied_def obs_start_def upto_excl_def
        obs_body_def Get_def at_def OBS_ROW_def OBS_COL_def OBS_BWD_def eval_nat_numeral)
  moreover have "\<forall>row \<in> set (Grid board_repeated). 0 \<notin> set row"
    "\<exists>row \<in> set (Grid board_repeated). \<not> distinct row"
    "NumEmpty board_repeated = 0" "Observers board_repeated \<noteq> []"
    by (simp_all add: board_repeated_def)
  ultimately show "\<exists>b'. (\<forall>row \<in> set (Grid b'). 0 \<notin> set row) \<and> (\<exists>row \<in> set (Grid b'). \<not> distinct row) \<and>
      NumEmpty b' = 0 \<and> Observers b' \<noteq> [] \<and> Solved b' = Some Solved_ok"
    by blast
qed

theorem Solved_spec_witness:
  "Solved board_2x2 = Some (Incomplete 3) \<and>
   observer_line board_3x3 \<lparr>Type = 0, Index = 0, Direction = 1, Count = 1\<rparr> = Some [3, 1, 2] \<and>
   vis_count [3, 1, 2] 0 = 1 \<and>
   observer_line board_3x3 \<lparr>Type = 1, Index = 0, Direction = 0, Count = 3\<rparr> = Some [2, 1, 3] \<and>
   vis_count [2, 1, 3] 0 = 2 \<and>
   Solved (board_3x3\<lparr>Observers := [\<lparr>Type = 0, Index = 0, Direction = 1, Count = 1\<rparr>,
                                      \<lparr>Type = 1, Index = 0, Direction = 0, Count = 3\<rparr>]\<rparr>) =
     Some (Unsatisfied \<lparr>Type = 1, Index = 0, Direction = 0, Count = 3\<rparr>) \<and>
   Solved (board_3x3\<lparr>Observers := [\<lparr>Type = 0, Index = 0, Direction = 1, Count = 1\<rparr>]\<rparr>) =
     Some Solved_ok"
proof -
  define o1 where "o1 = \<lparr>Type = 0, Index = 0, Direction = 1, Count = 1\<rparr>"
  define o2 where "o2 = \<lparr>Type = 1, Index = 0, Direction = 0, Count = 3\<rparr>"
  have l1: "observer_line (board_3x3\<lparr>Observers := obs\<rparr>) o1 = Some [3, 1, 2]" for obs
    by (simp add: o1_def board_3x3_def observer_line_def line_positions_def upto_excl_def
        Get_def at_def OBS_ROW_def OBS_COL_def OBS_BWD_def eval_nat_numeral)
  have l2: "observer_line (board_3x3\<lparr>Observers := obs\<rparr>) o2 = Some [2, 1, 3]" for obs
    by (simp add: o2_def board_3x3_def observer_line_def line_positions_def upto_excl_def
        Get_def at_def OBS_ROW_def OBS_COL_def OBS_BWD_def eval_nat_numeral)
  have v: "vis_count [3, 1, 2] 0 = 1" "vis_count [2, 1, 3] 0 = 2" by simp_all
  have c: "Count o1 = 1" "Count o2 = 3" by (simp_all add: o1_def o2_def)
  have n: "NumEmpty (board_3x3\<lparr>Observers := obs\<rparr>) = 0" for obs
    by (simp add: board_3x3_def)
  have e: "board_3x3\<lparr>Observers := Observers board_3x3\<rparr> = board_3x3" by simp
  have a: "Solved board_2x2 = Some (Incomplete 3)"
    using Solved_spec[of board_2x2 "[]" o1 "[]"] by (simp add: board_2x2_def)
  have b: "Solved (board_3x3\<lparr>Observers := [o1, o2]\<rparr>) = Some (Unsatisfied o2)"
    using Solved_spec[of "board_3x3\<lparr>Observers := [o1, o2]\<rparr>" "[o1]" o2 "[]"] l1 l2 v c n by simp
  have d: "Solved (board_3x3\<lparr>Observers := [o1]\<rparr>) = Some Solved_ok"
    using Solved_spec[of "board_3x3\<lparr>Observers := [o1]\<rparr>" "[]" o1 "[]"] l1 v c n by simp
  from l1[of "Observers board_3x3"] l2[of "Observers board_3x3"] e
  have "observer_line board_3x3 o1 = Some [3, 1, 2]" "observer_line board_3x3 o2 = Some [2, 1, 3]"
    by simp_all
  with a b d v show ?thesis by (simp add: o1_def o2_def)
qed

section \<open>The permutation generator\<close>

text \<open>\<open>fact\<close> of the source, on 64-bit integers: the product wraps around.\<close>

function fact64 :: "int \<Rightarrow> int" where
  "fact64 n = (if n \<le> 1 then 1 else if n = 2 then 2 else wrap64 (n * fact64 (n - 1)))"
  by pat_completeness auto
termination
  by (relation "measure nat") auto

declare fact64.simps [simp del]

record permuter =
  pN :: int
  pR :: int
  pLowest :: int
  pSeq :: "int list"
  pUsed :: "bool list"

text \<open>
  \<open>permute\<close> threads the permuter (whose \<open>Seq\<close> and \<open>Used\<close> it writes and restores) and
  the output slice. The recursion of the source descends while \<open>depth\<close> differs from
  \<open>R\<close>; the first argument bounds the number of nested calls, and the result is \<open>None\<close>
  when the bound is exhausted or when an index is out of range.
\<close>

fun permute :: "nat \<Rightarrow> permuter \<Rightarrow> int \<Rightarrow> int list list \<Rightarrow> (permuter \<times> int list list) option" where
  "permute fuel p depth out =
     (if depth = pR p then Some (p, out @ [pSeq p])
      else case fuel of
        0 \<Rightarrow> None
      | Suc fuel' \<Rightarrow>
          for_loop (upto_excl (pN p))
            (\<lambda>i (p, out). do {
               used \<leftarrow> at (pUsed p) i;
               if used then Some (p, out)
               else do {
                 seq1 \<leftarrow> put (pSeq p) depth (i + pLowest p);
                 used1 \<leftarrow> put (pUsed p) i True;
                 (p2, out2) \<leftarrow> permute fuel' (p\<lparr>pSeq := seq1, pUsed := used1\<rparr>) (depth + 1) out;
                 seq3 \<leftarrow> put (pSeq p2) depth 0;
                 used3 \<leftarrow> put (pUsed p2) i False;
                 Some (p2\<lparr>pSeq := seq3, pUsed := used3\<rparr>, out2)
               }
             })
            (p, out))"

declare permute.simps [simp del]

text \<open>
  \<open>make\<close> panics when the length or capacity is negative, and when the bytes of the slice
  would exceed the allocator's limit, \<open>maxAlloc\<close>, which is \<open>2^48\<close> on the 64-bit
  platforms. An element of \<open>[][]int\<close> is a slice header of 24 bytes, an \<open>int\<close> has 8 bytes
  and a \<open>bool\<close> has one. (Running out of memory below that limit, while the output
  grows, is a fatal error of the run-time system and stays outside this model.)
\<close>

definition maxAlloc :: int where
  "maxAlloc = 2 ^ 48"

definition make_ok :: "int \<Rightarrow> int \<Rightarrow> bool" where
  "make_ok elem_size n \<longleftrightarrow> 0 \<le> n \<and> n * elem_size \<le> maxAlloc"

text \<open>
  \<open>Permute\<close>. The capacity handed to \<open>make\<close> is \<open>fact(popSize)/fact(popSize-r)\<close>, a
  truncating division of 64-bit integers: it panics when the divisor is zero.
\<close>

definition Permute :: "int \<Rightarrow> int \<Rightarrow> int \<Rightarrow> int list list option" where
  "Permute low high r =
     (let popSize = (high - low) + 1 in
      if fact64 (popSize - r) = 0 then None
      else if \<not> make_ok 24 (wrap64 (fact64 popSize sdiv fact64 (popSize - r))) then None
      else if \<not> (make_ok 8 r \<and> make_ok 1 popSize) then None
      else do {
        (p, out) \<leftarrow> permute (nat r)
           \<lparr>pN = popSize, pR = r, pLowest = low,
            pSeq = replicate (nat r) 0, pUsed = replicate (nat popSize) False\<rparr> 0 [];
        Some out
      })"

definition NPermuteR :: "int \<Rightarrow> int \<Rightarrow> int list list option" where
  "NPermuteR n r = Permute 1 n r"

definition PermuteN :: "int \<Rightarrow> int list list option" where
  "PermuteN n = Permute 1 n n"

text \<open>The ordered selections of \<open>k\<close> distinct elements of a list, lowest position first.\<close>

fun selections :: "int list \<Rightarrow> nat \<Rightarrow> int list list" where
  "selections av 0 = [[]]"
| "selections av (Suc k) = concat (map (\<lambda>x. map ((#) x) (selections (removeAll x av) k)) av)"

text \<open>The values that \<open>Used\<close> leaves available, in the order the loop tries them.\<close>

definition avail :: "permuter \<Rightarrow> int list" where
  "avail p = map (\<lambda>j. int j + pLowest p) (filter (\<lambda>j. \<not> pUsed p ! j) [0 ..< nat (pN p)])"

lemma selections_props:
  "distinct av \<Longrightarrow> xs \<in> set (selections av k) \<Longrightarrow> length xs = k \<and> distinct xs \<and> set xs \<subseteq> set av"
proof (induction k arbitrary: av xs)
  case 0
  then show ?case by simp
next
  case (Suc k)
  from Suc.prems(2) obtain x ys where x: "x \<in> set av" "xs = x # ys"
    "ys \<in> set (selections (removeAll x av) k)"
    by auto
  from Suc.IH[OF _ x(3)] Suc.prems(1)
  have "length ys = k \<and> distinct ys \<and> set ys \<subseteq> set (removeAll x av)"
    by (simp add: distinct_removeAll)
  with x show ?case by auto
qed

lemma distinct_concat_heads:
  "distinct av \<Longrightarrow> (\<And>x. x \<in> set av \<Longrightarrow> distinct (g x)) \<Longrightarrow>
   distinct (concat (map (\<lambda>x. map ((#) x) (g x)) av))"
proof (induction av)
  case Nil
  then show ?case by simp
next
  case (Cons a av)
  have 1: "distinct (map ((#) a) (g a))"
    using Cons.prems(2)[of a] by (simp add: distinct_map inj_on_def)
  have 2: "distinct (concat (map (\<lambda>x. map ((#) x) (g x)) av))"
    using Cons.IH Cons.prems by simp
  have 3: "set (map ((#) a) (g a)) \<inter> set (concat (map (\<lambda>x. map ((#) x) (g x)) av)) = {}"
    using Cons.prems(1) by auto
  from 1 2 3 show ?case by simp
qed

lemma selections_distinct: "distinct av \<Longrightarrow> distinct (selections av k)"
proof (induction k arbitrary: av)
  case 0
  then show ?case by simp
next
  case (Suc k)
  show ?case
    unfolding selections.simps
    by (rule distinct_concat_heads[OF Suc.prems]) (simp add: Suc.IH Suc.prems distinct_removeAll)
qed

lemma sum_list_const_mult:
  "(\<forall>x \<in> set xs. g x * c = (F :: nat)) \<Longrightarrow> sum_list (map g xs) * c = length xs * F"
  by (induction xs) (simp_all add: distrib_right)

lemma length_selections:
  "distinct av \<Longrightarrow> k \<le> length av \<Longrightarrow>
   length (selections av k) * fact (length av - k) = (fact (length av) :: nat)"
proof (induction k arbitrary: av)
  case 0
  then show ?case by simp
next
  case (Suc k)
  define n where "n = length av"
  have n: "0 < n" "k \<le> n - 1" using Suc.prems(2) by (auto simp: n_def)
  have each: "\<forall>x \<in> set av. length (selections (removeAll x av) k) * fact (n - 1 - k) = fact (n - 1)"
  proof
    fix x assume x: "x \<in> set av"
    have l: "length (removeAll x av) = n - 1"
      using Suc.prems(1) x by (simp add: n_def distinct_remove1_removeAll[symmetric] length_remove1)
    have "distinct (removeAll x av)" using Suc.prems(1) by (simp add: distinct_removeAll)
    from Suc.IH[OF this] l n show "length (selections (removeAll x av) k) * fact (n - 1 - k) = fact (n - 1)"
      by simp
  qed
  have "length (selections av (Suc k)) = sum_list (map (\<lambda>x. length (selections (removeAll x av) k)) av)"
    by (simp add: length_concat comp_def)
  then have "length (selections av (Suc k)) * fact (n - 1 - k) = n * fact (n - 1)"
    using sum_list_const_mult[OF each] by (simp add: n_def)
  moreover have "n * fact (n - 1) = (fact n :: nat)"
    using n(1) by (cases n) simp_all
  ultimately show ?case by (simp add: n_def)
qed

lemma selections_too_long: "length av < k \<Longrightarrow> selections av k = []"
proof (induction k arbitrary: av)
  case 0
  then show ?case by simp
next
  case (Suc k)
  have "selections (removeAll x av) k = []" if "x \<in> set av" for x
  proof (rule Suc.IH)
    have "length (removeAll x av) < length av"
      using that by (simp add: length_removeAll_less)
    with Suc.prems show "length (removeAll x av) < k" by simp
  qed
  then show ?case by simp
qed


lemma avail_mark:
  assumes "j < nat (pN p)" and "length (pUsed p) = nat (pN p)"
  shows "avail (p\<lparr>pSeq := s, pUsed := (pUsed p)[j := True]\<rparr>) =
         removeAll (int j + pLowest p) (avail p)"
proof -
  have a: "filter (\<lambda>i. \<not> (pUsed p)[j := True] ! i) [0 ..< nat (pN p)] =
           filter (\<lambda>i. int j + pLowest p \<noteq> int i + pLowest p) (filter (\<lambda>i. \<not> pUsed p ! i) [0 ..< nat (pN p)])"
    using assms by (auto simp: nth_list_update intro!: filter_cong)
  show ?thesis
    by (simp add: avail_def a removeAll_filter_not_eq filter_map comp_def)
qed

lemma concat_map_if_filter:
  "concat (map (\<lambda>j. if P j then [] else G j) js) = concat (map G (filter (\<lambda>j. \<not> P j) js))"
  by (induction js) simp_all

lemma permute_spec:
  "d \<le> Rn \<Longrightarrow> pR p = int Rn \<Longrightarrow> length (pSeq p) = Rn \<Longrightarrow>
   length (pUsed p) = nat (pN p) \<Longrightarrow> drop d (pSeq p) = replicate (Rn - d) 0 \<Longrightarrow>
   Rn - d \<le> fuel \<Longrightarrow>
   permute fuel p (int d) out =
     Some (p, out @ map ((@) (take d (pSeq p))) (selections (avail p) (Rn - d)))"
proof (induction fuel arbitrary: p d out)
  case 0
  then have "d = Rn" by simp
  with 0 show ?case by (subst permute.simps) simp
next
  case (Suc fuel)
  show ?case
  proof (cases "d = Rn")
    case True
    with Suc.prems show ?thesis by (subst permute.simps) simp
  next
    case False
    with Suc.prems have dlt: "d < Rn" by simp
    define k where "k = Rn - Suc d"
    have k: "Rn - d = Suc k" using dlt by (simp add: k_def)
    define low where "low = pLowest p"
    define pre where "pre = take d (pSeq p)"
    define body where "body = (\<lambda>i (p, out). do {
               used \<leftarrow> at (pUsed p) i;
               if used then Some (p, out)
               else do {
                 seq1 \<leftarrow> put (pSeq p) (int d) (i + pLowest p);
                 used1 \<leftarrow> put (pUsed p) i True;
                 (p2, out2) \<leftarrow> permute fuel (p\<lparr>pSeq := seq1, pUsed := used1\<rparr>) (int d + 1) out;
                 seq3 \<leftarrow> put (pSeq p2) (int d) 0;
                 used3 \<leftarrow> put (pUsed p2) i False;
                 Some (p2\<lparr>pSeq := seq3, pUsed := used3\<rparr>, out2)
               }
             })"
    have unf: "permute (Suc fuel) p (int d) out = for_loop (upto_excl (pN p)) body (p, out)"
      using dlt Suc.prems(2) by (subst permute.simps) (simp add: body_def)
    define F where "F = (\<lambda>j. if pUsed p ! j then []
       else map (\<lambda>ys. pre @ (int j + low) # ys) (selections (removeAll (int j + low) (avail p)) k))"
    have app: "(@) (a @ [v]) = (\<lambda>ys. a @ v # ys)" for a :: "int list" and v
      by (rule ext) simp
    have zero: "pSeq p ! d = 0"
    proof -
      have "pSeq p ! d = drop d (pSeq p) ! 0" using dlt Suc.prems(3) by simp
      also have "\<dots> = 0" using Suc.prems(5) k by simp
      finally show ?thesis .
    qed
    have step: "body (int j) (p, acc) = Some (p, acc @ F j)" if j: "j < nat (pN p)" for j acc
    proof (cases "pUsed p ! j")
      case True
      have "j < length (pUsed p)" using j Suc.prems(4) by simp
      with True show ?thesis by (simp add: body_def F_def at_def)
    next
      case False
      have jl: "j < length (pUsed p)" using j Suc.prems(4) by simp
      define p1 where "p1 = p\<lparr>pSeq := (pSeq p)[d := int j + low], pUsed := (pUsed p)[j := True]\<rparr>"
      have a1: "at (pUsed p) (int j) = Some False"
        using False jl by (simp add: at_def)
      have a2: "put (pSeq p) (int d) (int j + pLowest p) = Some ((pSeq p)[d := int j + low])"
        using dlt Suc.prems(3) by (simp add: put_def low_def)
      have a3: "put (pUsed p) (int j) True = Some ((pUsed p)[j := True])"
        using jl by (simp add: put_def)
      have dr: "drop (Suc d) (pSeq p1) = replicate (Rn - Suc d) 0"
      proof -
        have "drop (Suc d) (pSeq p1) = drop (Suc d) (pSeq p)" by (simp add: p1_def)
        also have "\<dots> = tl (drop d (pSeq p))" by (simp add: drop_Suc tl_drop)
        also have "\<dots> = replicate (Rn - Suc d) 0" using Suc.prems(5) k by (simp add: k_def)
        finally show ?thesis .
      qed
      have rec: "permute fuel p1 (int (Suc d)) acc =
          Some (p1, acc @ map ((@) (take (Suc d) (pSeq p1))) (selections (avail p1) (Rn - Suc d)))"
      proof (rule Suc.IH)
        show "Suc d \<le> Rn" using dlt by simp
        show "pR p1 = int Rn" using Suc.prems(2) by (simp add: p1_def)
        show "length (pSeq p1) = Rn" using Suc.prems(3) by (simp add: p1_def)
        show "length (pUsed p1) = nat (pN p1)" using Suc.prems(4) by (simp add: p1_def)
        show "drop (Suc d) (pSeq p1) = replicate (Rn - Suc d) 0" by (rule dr)
        show "Rn - Suc d \<le> fuel" using Suc.prems(6) by simp
      qed
      have tk: "take (Suc d) (pSeq p1) = pre @ [int j + low]"
        using dlt Suc.prems(3) by (simp add: p1_def pre_def take_Suc_conv_app_nth)
      have av: "avail p1 = removeAll (int j + low) (avail p)"
        unfolding p1_def low_def by (rule avail_mark[OF j Suc.prems(4)])
      have a4: "put (pSeq p1) (int d) 0 = Some (pSeq p)"
        using dlt Suc.prems(3) zero by (simp add: put_def p1_def list_update_same_conv)
      have a5: "put (pUsed p1) (int j) False = Some (pUsed p)"
        using jl False by (simp add: put_def p1_def list_update_same_conv)
      have restored: "p1\<lparr>pSeq := pSeq p, pUsed := pUsed p\<rparr> = p" by (simp add: p1_def)
      have i1: "int d + 1 = int (Suc d)" by simp
      have "body (int j) (p, acc) =
          Some (p, acc @ map (\<lambda>ys. pre @ (int j + low) # ys) (selections (removeAll (int j + low) (avail p)) k))"
        unfolding body_def i1
        using a1 a2 a3 rec a4 a5 restored
        by (simp add: p1_def[symmetric] tk av k_def app)
      with False show ?thesis by (simp add: F_def)
    qed
    have loop: "for_loop (map int js) body (p, acc) = Some (p, acc @ concat (map F js))"
      if "set js \<subseteq> {..< nat (pN p)}" for js acc
      using that
    proof (induction js arbitrary: acc)
      case Nil
      then show ?case by simp
    next
      case (Cons j js)
      then have "j < nat (pN p)" by simp
      from step[OF this, of acc] Cons.IH[of "acc @ F j"] Cons.prems show ?case by simp
    qed
    have "concat (map F [0 ..< nat (pN p)]) =
          map ((@) pre) (selections (avail p) (Suc k))"
      by (simp add: F_def concat_map_if_filter avail_def low_def map_concat comp_def)
    moreover have "set [0 ..< nat (pN p)] \<subseteq> {..< nat (pN p)}" by auto
    ultimately show ?thesis
      using loop[of "[0 ..< nat (pN p)]" out] by (simp add: unf upto_excl_def k pre_def)
  qed
qed


lemma fact_20_bound: "k \<le> 20 \<Longrightarrow> (fact k :: nat) \<le> 2432902008176640000"
proof -
  assume "k \<le> 20"
  then have "(fact k :: nat) \<le> fact 20" by (rule fact_mono)
  also have "(fact 20 :: nat) = 2432902008176640000" by (simp add: fact_numeral)
  finally show ?thesis .
qed

lemma fact64_exact: "k \<le> 20 \<Longrightarrow> fact64 (int k) = int (fact k)"
proof (induction k)
  case 0
  show ?case by (subst fact64.simps) simp
next
  case (Suc k)
  show ?case
  proof (cases "k = 0 \<or> k = 1")
    case True
    then show ?thesis by (subst fact64.simps) auto
  next
    case False
    from Suc have ih: "fact64 (int k) = int (fact k)" by simp
    have "(fact (Suc k) :: nat) \<le> 2432902008176640000" using Suc.prems by (rule fact_20_bound)
    then have "int (fact (Suc k)) \<le> 2432902008176640000" by linarith
    moreover define t where "t = int (fact (Suc k))"
    ultimately have t: "t \<le> 2432902008176640000" "0 \<le> t" by simp_all
    have eq: "int (Suc k) * int (fact k) = t"
      by (simp add: algebra_simps t_def)
    have "t < 2 ^ 63" "- (2 ^ 63) \<le> t" using t by simp_all
    then have b: "int (Suc k) * int (fact k) < 2 ^ 63" "- (2 ^ 63) \<le> int (Suc k) * int (fact k)"
      by (simp_all only: eq)
    have "fact64 (int (Suc k)) = wrap64 (int (Suc k) * fact64 (int (Suc k) - 1))"
      using False by (subst fact64.simps) auto
    also have "\<dots> = int (Suc k) * int (fact k)"
      using b by (simp add: ih wrap64_id)
    finally show ?thesis by (simp add: algebra_simps)
  qed
qed

lemma fact64_pos: "n \<le> 20 \<Longrightarrow> 0 < fact64 n"
proof (cases "n \<le> 1")
  case True
  then show ?thesis by (subst fact64.simps) simp
next
  case False
  assume "n \<le> 20"
  with False fact64_exact[of "nat n"] show ?thesis by simp
qed

lemma Permute_eq:
  "Permute low high r =
     (if fact64 (high - low + 1 - r) = 0
         \<or> \<not> make_ok 24 (wrap64 (fact64 (high - low + 1) sdiv fact64 (high - low + 1 - r)))
         \<or> \<not> make_ok 8 r \<or> \<not> make_ok 1 (high - low + 1) then None
      else Some (selections (map (\<lambda>j. int j + low) [0 ..< nat (high - low + 1)]) (nat r)))"
proof -
  define n where "n = high - low + 1"
  define p where "p = \<lparr>pN = n, pR = r, pLowest = low,
            pSeq = replicate (nat r) 0, pUsed = replicate (nat n) False\<rparr>"
  have "permute (nat r) p (int 0) [] =
      Some (p, [] @ map ((@) (take 0 (pSeq p))) (selections (avail p) (nat r - 0)))"
    if "0 \<le> r"
    by (rule permute_spec) (use that in \<open>simp_all add: p_def\<close>)
  moreover have "avail p = map (\<lambda>j. int j + low) [0 ..< nat n]"
    by (simp add: avail_def p_def cong: filter_cong)
  moreover have "map ((@) []) xss = xss" for xss :: "int list list"
    by (induction xss) simp_all
  ultimately have "permute (nat r) p 0 [] =
      Some (p, selections (map (\<lambda>j. int j + low) [0 ..< nat n]) (nat r))" if "0 \<le> r"
    using that by simp
  moreover  moreover have "0 \<le> r" if "make_ok 8 r"
    using that by (simp add: make_ok_def)
  ultimately show ?thesis
    by (auto simp: Permute_def Let_def n_def[symmetric] p_def[symmetric])
qed

lemma fact64_exact_int: "m \<le> 20 \<Longrightarrow> fact64 m = int (fact (nat m))"
proof (cases "0 \<le> m")
  case True
  assume "m \<le> 20"
  with True fact64_exact[of "nat m"] show ?thesis by simp
next
  case False
  then show ?thesis by (subst fact64.simps) simp
qed

text \<open>The number of sequences, which is also the capacity that the code asks for.\<close>

definition arrangements :: "int \<Rightarrow> int \<Rightarrow> nat" where
  "arrangements n r = fact (nat n) div fact (nat (n - r))"

lemma Permute_small:
  assumes "0 \<le> r" and "r * 8 \<le> maxAlloc" and "0 \<le> high - low + 1" and "high - low + 1 \<le> 20"
    and "int (arrangements (high - low + 1) r) * 24 \<le> maxAlloc"
  shows "Permute low high r =
           Some (selections (map (\<lambda>j. int j + low) [0 ..< nat (high - low + 1)]) (nat r))"
proof -
  define n where "n = high - low + 1"
  have a: "0 < fact64 n" "0 < fact64 (n - r)"
    using assms by (auto simp: n_def intro!: fact64_pos)
  have e: "fact64 n = int (fact (nat n))" "fact64 (n - r) = int (fact (nat (n - r)))"
    using assms by (simp_all add: n_def fact64_exact_int)
  have "fact64 n sdiv fact64 (n - r) = fact64 n div fact64 (n - r)"
    using a by (simp add: signed_divide_int_def)
  also have "\<dots> = int (arrangements n r)"
    unfolding e arrangements_def by (simp add: zdiv_int)
  finally have q: "fact64 n sdiv fact64 (n - r) = int (arrangements n r)" .
  have "int (arrangements n r) * 24 \<le> 2 ^ 48"
    using assms(5) by (simp add: n_def maxAlloc_def)
  then have "int (arrangements n r) < 2 ^ 63" by simp
  then have w: "wrap64 (int (arrangements n r)) = int (arrangements n r)"
    by (intro wrap64_id) simp_all
  have "make_ok 24 (wrap64 (fact64 n sdiv fact64 (n - r)))"
    unfolding q w make_ok_def using assms(5) by (simp add: n_def)
  moreover have "make_ok 8 r" "make_ok 1 n"
    using assms by (simp_all add: make_ok_def n_def maxAlloc_def)
  ultimately show ?thesis
    using a by (simp add: Permute_eq n_def[symmetric])
qed

lemma Permute_correct_small:
  assumes "low \<le> high" and "1 \<le> r" and "r \<le> high - low + 1" and "high - low + 1 \<le> 20"
    and "int (arrangements (high - low + 1) r) * 24 \<le> maxAlloc"
  shows "\<exists>out. Permute low high r = Some out \<and>
           length out = fact (nat (high - low + 1)) div fact (nat (high - low + 1 - r)) \<and>
           distinct out \<and>
           (\<forall>xs \<in> set out. int (length xs) = r \<and> distinct xs \<and> set xs \<subseteq> {low .. high})"
proof -
  define n where "n = nat (high - low + 1)"
  define av where "av = map (\<lambda>j. int j + low) [0 ..< n]"
  define out where "out = selections av (nat r)"
  have "r * 8 \<le> maxAlloc" using assms(3,4) by (simp add: maxAlloc_def)
  then have P: "Permute low high r = Some out"
    using Permute_small[of r high low] assms by (simp add: out_def av_def n_def)
  have dav: "distinct av" by (simp add: av_def distinct_map inj_on_def)
  have lav: "length av = n" by (simp add: av_def)
  have sav: "set av \<subseteq> {low .. high}"
    using assms by (auto simp: av_def n_def)
  have rn: "nat r \<le> length av" using assms by (simp add: lav n_def)
  from length_selections[OF dav rn]
  have "length out * fact (n - nat r) = (fact n :: nat)" by (simp add: out_def lav)
  then have L: "length out = fact n div fact (n - nat r)"
    by (metis fact_nonzero nonzero_mult_div_cancel_right)
  have nr: "n - nat r = nat (high - low + 1 - r)" using assms by (simp add: n_def)
  have D: "distinct out" by (simp add: out_def selections_distinct dav)
  have E: "\<forall>xs \<in> set out. int (length xs) = r \<and> distinct xs \<and> set xs \<subseteq> {low .. high}"
  proof
    fix xs assume "xs \<in> set out"
    from selections_props[OF dav this[unfolded out_def]] sav assms(2)
    show "int (length xs) = r \<and> distinct xs \<and> set xs \<subseteq> {low .. high}" by auto
  qed
  from P L D E show ?thesis by (simp add: n_def nr[unfolded n_def])
qed


text \<open>
  Claim C2. For every \<open>low \<le> high\<close> and every \<open>r\<close> with \<open>1 \<le> r \<le> high - low + 1\<close>,
  \<open>Permute low high r\<close> returns exactly \<open>(high-low+1)!/(high-low+1-r)!\<close> sequences,
  pairwise distinct, each of length \<open>r\<close>, with elements in \<open>[low, high]\<close> and no element
  repeated. The code does so while the population has at most 20 elements and the slice
  headers of that many sequences fit under the limit of \<open>make\<close>
  (\<open>Permute_correct_small\<close>). With 21 elements the factorial that sizes the output slice
  overflows 64 bits: \<open>fact 21\<close> is negative, the capacity \<open>fact 21 / fact 20\<close> is \<open>-1\<close>,
  and \<open>make\<close> panics, where the claim promises 21 sequences of length one.
\<close>

theorem Permute_21_panics:
  "Permute 1 21 1 = None \<and> fact64 21 = - 4249290049419214848 \<and>
   fact64 20 = 2432902008176640000 \<and>
   wrap64 (fact64 21 sdiv fact64 20) = - 1"
  by code_simp

section \<open>Candidate sets\<close>

text \<open>A loop that a \<open>return\<close> in its body can leave: the body's flag says whether it returned.\<close>

fun for_until :: "'i list \<Rightarrow> ('i \<Rightarrow> 's \<Rightarrow> ('s \<times> bool) option) \<Rightarrow> 's \<Rightarrow> ('s \<times> bool) option" where
  "for_until [] body s = Some (s, False)"
| "for_until (i # is) body s =
     (case body i s of
        None \<Rightarrow> None
      | Some (s', True) \<Rightarrow> Some (s', True)
      | Some (s', False) \<Rightarrow> for_until is body s')"

definition allowed_at :: "Board \<Rightarrow> int \<Rightarrow> int \<Rightarrow> int fset option" where
  "allowed_at b ri ci = do { row \<leftarrow> at (Allowed b) ri; at row ci }"

definition IsAllowed :: "Board \<Rightarrow> int \<Rightarrow> int \<Rightarrow> int \<Rightarrow> bool option" where
  "IsAllowed b ri ci n = do { cell \<leftarrow> allowed_at b ri ci; Some (n |\<in>| cell) }"

text \<open>\<open>delete(b.Allowed[ri][ci], val)\<close>.\<close>

definition delete_allowed :: "Board \<Rightarrow> int \<Rightarrow> int \<Rightarrow> int \<Rightarrow> Board option" where
  "delete_allowed b ri ci val = do {
     row \<leftarrow> at (Allowed b) ri;
     cell \<leftarrow> at row ci;
     row' \<leftarrow> put row ci (cell |-| {|val|});
     a' \<leftarrow> put (Allowed b) ri row';
     Some (b\<lparr>Allowed := a'\<rparr>)
   }"

text \<open>\<open>Mark\<close> returns the board, whether the cell changed, and whether a neighbour lost
  the value.\<close>

definition mark_neighbours :: "int \<Rightarrow> int \<Rightarrow> int \<Rightarrow> int \<Rightarrow> Board \<times> bool \<Rightarrow> (Board \<times> bool) option" where
  "mark_neighbours ri ci val i = (\<lambda>(b, neighborUpdated). do {
     a \<leftarrow> (if i \<noteq> ri then IsAllowed b i ci val else Some False);
     (b, neighborUpdated) \<leftarrow>
        (if a then do { b' \<leftarrow> delete_allowed b i ci val; Some (b', True) }
         else Some (b, neighborUpdated));
     a \<leftarrow> (if i \<noteq> ci then IsAllowed b ri i val else Some False);
     (if a then do { b' \<leftarrow> delete_allowed b ri i val; Some (b', True) }
      else Some (b, neighborUpdated))
   })"

definition Mark :: "Board \<Rightarrow> int \<Rightarrow> int \<Rightarrow> int \<Rightarrow> (Board \<times> bool \<times> bool) option" where
  "Mark b ri ci val = do {
     (b1, ch) \<leftarrow> Set b ri ci val;
     if \<not> ch then Some (b1, False, False)
     else do {
       (b2, neighborUpdated) \<leftarrow>
         for_loop (upto_excl (Size b1)) (\<lambda>i. mark_neighbours ri ci val i) (b1, False);
       b3 \<leftarrow> for_loop [1 .. Size b2]
               (\<lambda>i b. if i \<noteq> val then delete_allowed b ri ci i else Some b) b2;
       Some (b3, True, neighborUpdated)
     }
   }"

definition Unset :: "Board \<Rightarrow> int \<Rightarrow> int \<Rightarrow> (Board \<times> bool) option" where
  "Unset b ri ci = Set b ri ci EMPTY"

section \<open>The propagation rules\<close>

text \<open>The cell at position \<open>i\<close> of a line: of row \<open>line\<close>, or of column \<open>line\<close>. The
  source writes each rule once for the rows and once for the columns; the two copies
  differ in this only.\<close>

definition line_cell :: "bool \<Rightarrow> int \<Rightarrow> int \<Rightarrow> int \<times> int" where
  "line_cell by_row line i = (if by_row then (line, i) else (i, line))"

text \<open>The loop of \<open>TrimPermsFromAllowed\<close> over the positions of one permutation, left
  at the first position whose value the cell does not allow.\<close>

fun perm_ok :: "Board \<Rightarrow> bool \<Rightarrow> int \<Rightarrow> int \<Rightarrow> int list \<Rightarrow> bool option" where
  "perm_ok b by_row line pi [] = Some True"
| "perm_ok b by_row line pi (i # is) = do {
     perm \<leftarrow> at (Perms b) pi;
     v \<leftarrow> at perm i;
     a \<leftarrow> (case line_cell by_row line i of (r, c) \<Rightarrow> IsAllowed b r c v);
     if \<not> a then Some False else perm_ok b by_row line pi is
   }"

fun new_perms :: "Board \<Rightarrow> bool \<Rightarrow> int \<Rightarrow> int list \<Rightarrow> int list option" where
  "new_perms b by_row line [] = Some []"
| "new_perms b by_row line (pi # pis) = do {
     isPermOk \<leftarrow> perm_ok b by_row line pi (upto_excl (Size b));
     rest \<leftarrow> new_perms b by_row line pis;
     Some (if isPermOk then pi # rest else rest)
   }"

definition trim_row_perms :: "int \<Rightarrow> Board \<times> bool \<Rightarrow> (Board \<times> bool) option" where
  "trim_row_perms ri = (\<lambda>(b, changed). do {
     rp \<leftarrow> at (RowPerms b) ri;
     case rp of
       None \<Rightarrow> Some (b, changed)
     | Some perms \<Rightarrow> do {
         newPerms \<leftarrow> new_perms b True ri perms;
         if length perms \<noteq> length newPerms then do {
           rps \<leftarrow> put (RowPerms b) ri (Some newPerms);
           Some (b\<lparr>RowPerms := rps\<rparr>, True)
         } else Some (b, changed)
       }
   })"

definition trim_col_perms :: "int \<Rightarrow> Board \<times> bool \<Rightarrow> (Board \<times> bool) option" where
  "trim_col_perms ci = (\<lambda>(b, changed). do {
     cp \<leftarrow> at (ColPerms b) ci;
     case cp of
       None \<Rightarrow> Some (b, changed)
     | Some perms \<Rightarrow> do {
         newPerms \<leftarrow> new_perms b False ci perms;
         if length perms \<noteq> length newPerms then do {
           cps \<leftarrow> put (ColPerms b) ci (Some newPerms);
           Some (b\<lparr>ColPerms := cps\<rparr>, True)
         } else Some (b, changed)
       }
   })"

definition TrimPermsFromAllowed :: "Board \<Rightarrow> (Board \<times> bool) option" where
  "TrimPermsFromAllowed b = do {
     s \<leftarrow> for_loop (upto_excl (int (length (RowPerms b)))) trim_row_perms (b, False);
     for_loop (upto_excl (int (length (ColPerms b)))) trim_col_perms s
   }"

text \<open>One cell of \<open>MarkMandatory\<close>. The only key of a one-element map is its least.\<close>

definition mark_cell :: "int \<Rightarrow> int \<Rightarrow> Board \<times> bool \<times> bool \<Rightarrow> (Board \<times> bool \<times> bool) option" where
  "mark_cell ri ci = (\<lambda>(b, changed, redo). do {
     allowed \<leftarrow> allowed_at b ri ci;
     if fcard allowed \<noteq> 1 then Some (b, changed, redo)
     else do {
       g \<leftarrow> Get b ri ci;
       if g \<noteq> EMPTY then Some (b, changed, redo)
       else do {
         let k = (case sorted_list_of_fset allowed of [] \<Rightarrow> 0 | key # _ \<Rightarrow> key);
         (b', ch, nch) \<leftarrow> Mark b ri ci k;
         Some (b', changed \<or> ch, redo \<or> nch)
       }
     }
   })"

definition mark_row :: "int \<Rightarrow> Board \<times> bool \<times> bool \<Rightarrow> (Board \<times> bool \<times> bool) option" where
  "mark_row ri = (\<lambda>s. do {
     row \<leftarrow> at (Allowed (fst s)) ri;
     for_loop (upto_excl (int (length row))) (mark_cell ri) s
   })"

definition mark_pass :: "Board \<Rightarrow> (Board \<times> bool \<times> bool) option" where
  "mark_pass b = for_loop (upto_excl (int (length (Allowed b)))) mark_row (b, False, False)"

text \<open>The search of \<open>TrimAllowedFromPerms\<close> through a list of permutation indices for one
  that places \<open>n\<close> at position \<open>pos\<close>.\<close>

fun supports :: "Board \<Rightarrow> int list \<Rightarrow> int \<Rightarrow> int \<Rightarrow> bool option" where
  "supports b [] pos n = Some False"
| "supports b (permI # rest) pos n = do {
     perm \<leftarrow> at (Perms b) permI;
     v \<leftarrow> at perm pos;
     if v = n then Some True else supports b rest pos n
   }"

definition trim_value :: "int \<Rightarrow> int \<Rightarrow> int \<Rightarrow> Board \<times> bool \<Rightarrow> (Board \<times> bool) option" where
  "trim_value ri ci n = (\<lambda>(b, changed). do {
     rp \<leftarrow> at (RowPerms b) ri;
     found \<leftarrow> (case rp of None \<Rightarrow> Some True | Some perms \<Rightarrow> supports b perms ci n);
     if \<not> found then do { b' \<leftarrow> delete_allowed b ri ci n; Some (b', True) }
     else do {
       cp \<leftarrow> at (ColPerms b) ci;
       found \<leftarrow> (case cp of None \<Rightarrow> Some True | Some perms \<Rightarrow> supports b perms ri n);
       if \<not> found then do { b' \<leftarrow> delete_allowed b ri ci n; Some (b', True) }
       else Some (b, changed)
     }
   })"

definition trim_cell :: "int \<Rightarrow> int \<Rightarrow> Board \<times> bool \<Rightarrow> (Board \<times> bool) option" where
  "trim_cell ri ci = (\<lambda>s. do {
     cell \<leftarrow> allowed_at (fst s) ri ci;
     for_loop (sorted_list_of_fset cell) (trim_value ri ci) s
   })"

definition TrimAllowedFromPerms :: "Board \<Rightarrow> (Board \<times> bool) option" where
  "TrimAllowedFromPerms b =
     for_loop (upto_excl (Size b))
       (\<lambda>ri. for_loop (upto_excl (Size b)) (trim_cell ri)) (b, False)"


section \<open>The pattern heuristics\<close>

definition NumSetsEqual :: "int fset \<Rightarrow> int fset \<Rightarrow> bool" where
  "NumSetsEqual a b =
     (if fcard a \<noteq> fcard b then False else list_all (\<lambda>k. k |\<in>| b) (sorted_list_of_fset a))"

fun SliceContains :: "int list \<Rightarrow> int \<Rightarrow> bool" where
  "SliceContains [] needle = False"
| "SliceContains (x # haystack) needle = (if x = needle then True else SliceContains haystack needle)"

text \<open>The loop of \<open>CheckRowNakedSet\<close> and \<open>CheckColumnNakedSet\<close> over \<open>indices[1:]\<close>.\<close>

fun naked_rest :: "Board \<Rightarrow> bool \<Rightarrow> int \<Rightarrow> int \<Rightarrow> int list \<Rightarrow> bool option" where
  "naked_rest b by_row line first [] = Some True"
| "naked_rest b by_row line first (idx # rest) = do {
     g \<leftarrow> (case line_cell by_row line idx of (r, c) \<Rightarrow> Get b r c);
     if g \<noteq> EMPTY then Some False
     else do {
       a \<leftarrow> (case line_cell by_row line idx of (r, c) \<Rightarrow> allowed_at b r c);
       a0 \<leftarrow> (case line_cell by_row line first of (r, c) \<Rightarrow> allowed_at b r c);
       if \<not> NumSetsEqual a a0 then Some False else naked_rest b by_row line first rest
     }
   }"

definition check_naked_set :: "Board \<Rightarrow> bool \<Rightarrow> int list \<Rightarrow> int \<Rightarrow> bool option" where
  "check_naked_set b by_row indices line =
     (case indices of
        [] \<Rightarrow> Some False
      | first # rest \<Rightarrow> do {
          a0 \<leftarrow> (case line_cell by_row line first of (r, c) \<Rightarrow> allowed_at b r c);
          if length indices \<noteq> fcard a0 then Some False
          else naked_rest b by_row line first rest
        })"

definition CheckRowNakedSet :: "Board \<Rightarrow> int list \<Rightarrow> int \<Rightarrow> bool option" where
  "CheckRowNakedSet b indices rowIndex = check_naked_set b True indices rowIndex"

definition CheckColumnNakedSet :: "Board \<Rightarrow> int list \<Rightarrow> int \<Rightarrow> bool option" where
  "CheckColumnNakedSet b indices colIndex = check_naked_set b False indices colIndex"

definition disallow_step :: "int \<Rightarrow> int \<Rightarrow> int \<Rightarrow> Board \<times> bool \<Rightarrow> (Board \<times> bool) option" where
  "disallow_step ri ci k = (\<lambda>(b, changed). do {
     ok \<leftarrow> IsAllowed b ri ci k;
     if ok then do { b' \<leftarrow> delete_allowed b ri ci k; Some (b', True) }
     else Some (b, changed)
   })"

definition DisallowAll :: "Board \<Rightarrow> int \<Rightarrow> int \<Rightarrow> int fset \<Rightarrow> (Board \<times> bool) option" where
  "DisallowAll b ri ci toRemove =
     for_loop (sorted_list_of_fset toRemove) (disallow_step ri ci) (b, False)"

definition DisallowOthers :: "Board \<Rightarrow> int \<Rightarrow> int \<Rightarrow> int list \<Rightarrow> (Board \<times> bool) option" where
  "DisallowOthers b ri ci toKeep = do {
     cell \<leftarrow> allowed_at b ri ci;
     for_loop (sorted_list_of_fset cell)
       (\<lambda>k s. if SliceContains toKeep k then Some s else disallow_step ri ci k s) (b, False)
   }"

text \<open>The innermost loop of \<open>TrimNakedSets\<close>, over the cells of the line outside the
  naked set; it returns at the first cell that \<open>DisallowAll\<close> changes.\<close>

definition naked_line :: "bool \<Rightarrow> int \<Rightarrow> int list \<Rightarrow> Board \<Rightarrow> (Board \<times> bool) option" where
  "naked_line by_row line idxs b = do {
     found \<leftarrow> check_naked_set b by_row idxs line;
     if found then
       for_until (upto_excl (Size b))
         (\<lambda>i b.
            if SliceContains idxs i then Some (b, False)
            else do {
              first \<leftarrow> at idxs 0;
              toRemove \<leftarrow> (case line_cell by_row line first of (r, c) \<Rightarrow> allowed_at b r c);
              case line_cell by_row line i of (r, c) \<Rightarrow> DisallowAll b r c toRemove
            }) b
     else Some (b, False)
   }"

definition TrimNakedSets :: "Board \<Rightarrow> int \<Rightarrow> (Board \<times> bool) option" where
  "TrimNakedSets b n = do {
     indices \<leftarrow> Permute 0 (Size b - 1) n;
     (b1, ret) \<leftarrow> for_until (upto_excl (Size b))
                    (\<lambda>ri. for_until indices (naked_line True ri)) b;
     if ret then Some (b1, True)
     else for_until (upto_excl (Size b1))
            (\<lambda>ci. for_until indices (naked_line False ci)) b1
   }"

text \<open>The sets \<open>numberCells\<close> of \<open>CheckRowFoundGroup\<close> and \<open>CheckColFoundGroup\<close>: for each
  number, the positions of the line that allow it.\<close>

definition number_cells :: "Board \<Rightarrow> bool \<Rightarrow> int list \<Rightarrow> int \<Rightarrow> int fset list option" where
  "number_cells b by_row numbers line =
     for_loop (upto_excl (Size b))
       (\<lambda>i. for_loop (upto_excl (int (length numbers)))
          (\<lambda>nidx cells. do {
             num \<leftarrow> at numbers nidx;
             a \<leftarrow> (case line_cell by_row line i of (r, c) \<Rightarrow> IsAllowed b r c num);
             if a then do { cur \<leftarrow> at cells nidx; put cells nidx (finsert i cur) }
             else Some cells
           }))
       (replicate (length numbers) {||})"

definition check_found_group :: "Board \<Rightarrow> bool \<Rightarrow> int list \<Rightarrow> int \<Rightarrow> bool option" where
  "check_found_group b by_row numbers line = do {
     numberCells \<leftarrow> number_cells b by_row numbers line;
     first \<leftarrow> at numberCells 0;
     if fcard first \<noteq> length numbers then Some False
     else Some (list_all (\<lambda>cells. NumSetsEqual cells first) (tl numberCells))
   }"

definition CheckRowFoundGroup :: "Board \<Rightarrow> int list \<Rightarrow> int \<Rightarrow> bool option" where
  "CheckRowFoundGroup b numbers rowIndex = check_found_group b True numbers rowIndex"

definition CheckColFoundGroup :: "Board \<Rightarrow> int list \<Rightarrow> int \<Rightarrow> bool option" where
  "CheckColFoundGroup b numbers colIndex = check_found_group b False numbers colIndex"

definition found_line :: "bool \<Rightarrow> int list \<Rightarrow> int \<Rightarrow> Board \<times> bool \<Rightarrow> (Board \<times> bool) option" where
  "found_line by_row nums line = (\<lambda>(b, changed). do {
     found \<leftarrow> check_found_group b by_row nums line;
     if \<not> found then Some (b, changed)
     else for_loop (upto_excl (Size b))
            (\<lambda>i (b, changed). do {
               first \<leftarrow> at nums 0;
               a \<leftarrow> (case line_cell by_row line i of (r, c) \<Rightarrow> IsAllowed b r c first);
               if a then do {
                 (b', ch) \<leftarrow> (case line_cell by_row line i of (r, c) \<Rightarrow> DisallowOthers b r c nums);
                 Some (b', changed \<or> ch)
               } else Some (b, changed)
             }) (b, changed)
   })"

definition TrimFoundGroups :: "Board \<Rightarrow> int \<Rightarrow> (Board \<times> bool) option" where
  "TrimFoundGroups b n = do {
     numbers \<leftarrow> Permute 1 (Size b) n;
     for_loop numbers
       (\<lambda>nums s. do {
          s1 \<leftarrow> for_loop (upto_excl (Size b)) (found_line True nums) s;
          for_loop (upto_excl (Size b)) (found_line False nums) s1
        }) (b, False)
   }"

section \<open>Boards that only shrink\<close>

text \<open>\<open>shrinks b' b\<close>: every candidate set of \<open>b'\<close> is a subset of the one of \<open>b\<close>, and every
  candidate-permutation list of \<open>b'\<close> is a subsequence of the one of \<open>b\<close> (nil where it was
  nil), line by line and cell by cell.\<close>

definition shrinks :: "Board \<Rightarrow> Board \<Rightarrow> bool" where
  "shrinks b' b \<longleftrightarrow>
     list_all2 (list_all2 (|\<subseteq>|)) (Allowed b') (Allowed b) \<and>
     list_all2 (rel_option subseq) (RowPerms b') (RowPerms b) \<and>
     list_all2 (rel_option subseq) (ColPerms b') (ColPerms b)"

text \<open>What no solving operation touches: the size, the permutation universe, the
  observers, and the shape of the grid.\<close>

definition same_frame :: "Board \<Rightarrow> Board \<Rightarrow> bool" where
  "same_frame b' b \<longleftrightarrow>
     Size b' = Size b \<and> Perms b' = Perms b \<and> Observers b' = Observers b \<and>
     ObsSorted b' = ObsSorted b \<and> map length (Grid b') = map length (Grid b)"

text \<open>\<open>allowed_only b' b\<close>: \<open>b'\<close> is \<open>b\<close> with some candidate sets shrunk, and nothing
  else changed.\<close>

definition allowed_only :: "Board \<Rightarrow> Board \<Rightarrow> bool" where
  "allowed_only b' b \<longleftrightarrow>
     b' = b\<lparr>Allowed := Allowed b'\<rparr> \<and> list_all2 (list_all2 (|\<subseteq>|)) (Allowed b') (Allowed b)"

text \<open>The candidate set of one cell replaced.\<close>

definition set_cell :: "Board \<Rightarrow> int \<Rightarrow> int \<Rightarrow> int fset \<Rightarrow> Board" where
  "set_cell b ri ci S =
     b\<lparr>Allowed := (Allowed b)[nat ri := (Allowed b ! nat ri)[nat ci := S]]\<rparr>"

definition total_allowed :: "Board \<Rightarrow> nat" where
  "total_allowed b = sum_list (map (\<lambda>row. sum_list (map fcard row)) (Allowed b))"

definition perms_len :: "int list option \<Rightarrow> nat" where
  "perms_len l = (case l of None \<Rightarrow> 0 | Some ps \<Rightarrow> length ps)"

definition total_perms :: "Board \<Rightarrow> nat" where
  "total_perms b = sum_list (map perms_len (RowPerms b)) + sum_list (map perms_len (ColPerms b))"

definition empties :: "Board \<Rightarrow> nat" where
  "empties b = sum_list (map (\<lambda>row. length (filter (\<lambda>v. v = 0) row)) (Grid b))"

lemma shrinks_refl: "shrinks b b"
  by (simp add: shrinks_def list_all2_refl option.rel_refl)

lemma subseq_rel_trans:
  "rel_option subseq x y \<Longrightarrow> rel_option subseq y z \<Longrightarrow> rel_option subseq x z"
  by (cases x; cases y; cases z) (auto intro: subseq_order.trans)

lemma list_all2_transI:
  assumes tr: "\<And>x y z. R x y \<Longrightarrow> R y z \<Longrightarrow> R x z"
    and xy: "list_all2 R xs ys" and yz: "list_all2 R ys zs"
  shows "list_all2 R xs zs"
  unfolding list_all2_conv_all_nth
proof (intro conjI allI impI)
  show "length xs = length zs"
    using xy yz by (simp add: list_all2_lengthD)
  fix i assume "i < length xs"
  then have "R (xs ! i) (ys ! i)" "R (ys ! i) (zs ! i)"
    using xy yz by (simp_all add: list_all2_conv_all_nth)
  then show "R (xs ! i) (zs ! i)" by (rule tr)
qed

lemma fsubset_rows_trans:
  "list_all2 (|\<subseteq>|) x y \<Longrightarrow> list_all2 (|\<subseteq>|) y z \<Longrightarrow> list_all2 (|\<subseteq>|) x (z :: int fset list)"
  by (rule list_all2_transI[of "(|\<subseteq>|)"]) auto

lemma shrinks_trans:
  assumes "shrinks c b" and "shrinks b a"
  shows "shrinks c a"
proof -
  have 1: "list_all2 (list_all2 (|\<subseteq>|)) (Allowed c) (Allowed a)"
    by (rule list_all2_transI[of "list_all2 (|\<subseteq>|)" _ "Allowed b", OF fsubset_rows_trans])
       (use assms in \<open>simp_all add: shrinks_def\<close>)
  have 2: "list_all2 (rel_option subseq) (RowPerms c) (RowPerms a)"
    by (rule list_all2_transI[of "rel_option subseq" _ "RowPerms b", OF subseq_rel_trans])
       (use assms in \<open>simp_all add: shrinks_def\<close>)
  have 3: "list_all2 (rel_option subseq) (ColPerms c) (ColPerms a)"
    by (rule list_all2_transI[of "rel_option subseq" _ "ColPerms b", OF subseq_rel_trans])
       (use assms in \<open>simp_all add: shrinks_def\<close>)
  from 1 2 3 show ?thesis by (simp add: shrinks_def)
qed

lemma same_frame_refl: "same_frame b b"
  by (simp add: same_frame_def)

lemma same_frame_trans: "same_frame c b \<Longrightarrow> same_frame b a \<Longrightarrow> same_frame c a"
  by (simp add: same_frame_def)

lemma list_all2_update_left:
  "list_all2 R xs ys \<Longrightarrow> i < length xs \<Longrightarrow> R x (ys ! i) \<Longrightarrow> list_all2 R (xs[i := x]) ys"
  using list_all2_update_cong[of R xs ys x "ys ! i" i] by simp

lemma sum_list_map_mono:
  "list_all2 (\<lambda>x y. f x \<le> (g y :: nat)) xs ys \<Longrightarrow> sum_list (map f xs) \<le> sum_list (map g ys)"
  by (induction rule: list_all2_induct) auto

lemma sum_list_update_less:
  "i < length xs \<Longrightarrow> f x < (f (xs ! i) :: nat) \<Longrightarrow>
   sum_list (map f (xs[i := x])) < sum_list (map f xs)"
proof (induction xs arbitrary: i)
  case Nil
  then show ?case by simp
next
  case (Cons a xs)
  then show ?case by (cases i) auto
qed

lemma sum_list_update_le:
  "i < length xs \<Longrightarrow> f x \<le> (f (xs ! i) :: nat) \<Longrightarrow>
   sum_list (map f (xs[i := x])) \<le> sum_list (map f xs)"
proof (induction xs arbitrary: i)
  case Nil
  then show ?case by simp
next
  case (Cons a xs)
  then show ?case by (cases i) auto
qed

lemma shrinks_total_allowed: "shrinks b' b \<Longrightarrow> total_allowed b' \<le> total_allowed b"
  unfolding shrinks_def total_allowed_def
  by (auto intro!: sum_list_map_mono elim!: list_all2_mono simp: fcard_mono)

lemma rel_subseq_len: "rel_option subseq x y \<Longrightarrow> perms_len x \<le> perms_len y"
  by (cases x; cases y) (auto simp: perms_len_def dest: list_emb_length)

lemma shrinks_total_perms: "shrinks b' b \<Longrightarrow> total_perms b' \<le> total_perms b"
  unfolding shrinks_def total_perms_def
  by (auto intro!: add_mono sum_list_map_mono elim!: list_all2_mono simp: rel_subseq_len)


subsection \<open>One cell\<close>

lemma int_less_nat: "0 \<le> i \<Longrightarrow> i < int n \<longleftrightarrow> nat i < n"
  by auto

lemma at_nat: "at xs i = (if 0 \<le> i \<and> nat i < length xs then Some (xs ! nat i) else None)"
  by (auto simp: at_def)

lemma put_nat: "put xs i v = (if 0 \<le> i \<and> nat i < length xs then Some (xs[nat i := v]) else None)"
  by (auto simp: put_def)

lemma allowed_at_Some_iff:
  "allowed_at b r c = Some S \<longleftrightarrow>
     0 \<le> r \<and> nat r < length (Allowed b) \<and> 0 \<le> c \<and> nat c < length (Allowed b ! nat r) \<and>
     Allowed b ! nat r ! nat c = S"
proof (cases "0 \<le> r \<and> nat r < length (Allowed b)")
  case True
  then have "at (Allowed b) r = Some (Allowed b ! nat r)" by (simp add: at_nat)
  then show ?thesis using True by (auto simp: allowed_at_def at_nat)
next
  case False
  then have "at (Allowed b) r = None" by (simp add: at_nat)
  then show ?thesis using False by (auto simp: allowed_at_def)
qed

lemma set_cell_fields [simp]:
  "Grid (set_cell b r c S) = Grid b" "NumEmpty (set_cell b r c S) = NumEmpty b"
  "Size (set_cell b r c S) = Size b" "Observers (set_cell b r c S) = Observers b"
  "ObsSorted (set_cell b r c S) = ObsSorted b" "Perms (set_cell b r c S) = Perms b"
  "RowPerms (set_cell b r c S) = RowPerms b" "ColPerms (set_cell b r c S) = ColPerms b"
  by (simp_all add: set_cell_def)

lemma Allowed_set_cell:
  "Allowed (set_cell b r c T) = (Allowed b)[nat r := (Allowed b ! nat r)[nat c := T]]"
  by (simp add: set_cell_def)

lemma allowed_at_set_cell:
  assumes "allowed_at b r c = Some S"
  shows "allowed_at (set_cell b r c T) r' c' =
           (if r' = r \<and> c' = c then Some T else allowed_at b r' c')"
proof -
  from assms have rng: "0 \<le> r" "nat r < length (Allowed b)" "0 \<le> c"
    "nat c < length (Allowed b ! nat r)"
    by (simp_all add: allowed_at_Some_iff)
  show ?thesis
  proof (cases "0 \<le> r' \<and> nat r' < length (Allowed b)")
    case False
    then have "at (Allowed b) r' = None" "at (Allowed (set_cell b r c T)) r' = None" "r' \<noteq> r"
      using rng by (auto simp: at_nat Allowed_set_cell)
    then show ?thesis by (simp add: allowed_at_def)
  next
    case inr: True
    show ?thesis
    proof (cases "r' = r")
      case False
      with inr rng have "nat r' \<noteq> nat r" by auto
      with inr have "at (Allowed (set_cell b r c T)) r' = at (Allowed b) r'"
        by (simp add: at_nat Allowed_set_cell)
      with False show ?thesis by (simp add: allowed_at_def)
    next
      case True
      have row: "at (Allowed (set_cell b r c T)) r = Some ((Allowed b ! nat r)[nat c := T])"
        "at (Allowed b) r = Some (Allowed b ! nat r)"
        using rng by (simp_all add: at_nat Allowed_set_cell)
      show ?thesis
      proof (cases "c' = c")
        case True
        with \<open>r' = r\<close> row rng show ?thesis by (simp add: allowed_at_def at_nat)
      next
        case False
        show ?thesis
        proof (cases "0 \<le> c'")
          case True
          with False rng have "nat c' \<noteq> nat c" by auto
          with \<open>r' = r\<close> False row show ?thesis by (simp add: allowed_at_def at_nat)
        next
          case False
          with \<open>r' = r\<close> \<open>c' \<noteq> c\<close> row show ?thesis by (simp add: allowed_at_def at_nat)
        qed
      qed
    qed
  qed
qed

lemma set_cell_same: "allowed_at b r c = Some S \<Longrightarrow> set_cell b r c S = b"
  by (clarsimp simp: allowed_at_Some_iff set_cell_def)

lemma set_cell_twice:
  "allowed_at b r c = Some S \<Longrightarrow> set_cell (set_cell b r c T) r c U = set_cell b r c U"
  by (clarsimp simp: allowed_at_Some_iff set_cell_def)

lemma set_cell_inj:
  assumes "allowed_at b r c = Some S" and "set_cell b r c T = set_cell b r c U"
  shows "T = U"
proof -
  have "Some T = allowed_at (set_cell b r c T) r c"
    using allowed_at_set_cell[OF assms(1)] by simp
  also have "\<dots> = allowed_at (set_cell b r c U) r c"
    by (simp only: assms(2))
  also have "\<dots> = Some U"
    using allowed_at_set_cell[OF assms(1)] by simp
  finally show ?thesis by simp
qed

lemma IsAllowed_eq: "allowed_at b r c = Some S \<Longrightarrow> IsAllowed b r c v = Some (v |\<in>| S)"
  by (simp add: IsAllowed_def)

lemma IsAllowed_None: "allowed_at b r c = None \<Longrightarrow> IsAllowed b r c v = None"
  by (simp add: IsAllowed_def)

lemma delete_allowed_eq:
  assumes "allowed_at b r c = Some S"
  shows "delete_allowed b r c v = Some (set_cell b r c (S |-| {|v|}))"
proof -
  from assms have rng: "0 \<le> r" "nat r < length (Allowed b)" "0 \<le> c"
    "nat c < length (Allowed b ! nat r)" and S: "S = Allowed b ! nat r ! nat c"
    by (simp_all add: allowed_at_Some_iff)
  have 1: "at (Allowed b) r = Some (Allowed b ! nat r)" using rng by (simp add: at_nat)
  have 2: "at (Allowed b ! nat r) c = Some S" using rng S by (simp add: at_nat)
  have 3: "put (Allowed b ! nat r) c (S |-| {|v|}) = Some ((Allowed b ! nat r)[nat c := S |-| {|v|}])"
    using rng by (simp add: put_nat)
  have 4: "put (Allowed b) r x = Some ((Allowed b)[nat r := x])" for x
    using rng by (simp add: put_nat)
  show ?thesis
    by (simp add: delete_allowed_def 1 2 3 4 set_cell_def)
qed


subsection \<open>Changes to candidate sets only\<close>

lemma allowed_only_refl: "allowed_only b b"
  by (simp add: allowed_only_def list_all2_refl)

lemma allowed_only_trans:
  assumes "allowed_only c b" and "allowed_only b a"
  shows "allowed_only c a"
proof -
  have 1: "list_all2 (list_all2 (|\<subseteq>|)) (Allowed c) (Allowed a)"
    by (rule list_all2_transI[of "list_all2 (|\<subseteq>|)" _ "Allowed b", OF fsubset_rows_trans])
       (use assms in \<open>simp_all add: allowed_only_def\<close>)
  have "c = b\<lparr>Allowed := Allowed c\<rparr>" "b = a\<lparr>Allowed := Allowed b\<rparr>"
    using assms by (simp_all add: allowed_only_def)
  then have "c = (a\<lparr>Allowed := Allowed b\<rparr>)\<lparr>Allowed := Allowed c\<rparr>" by metis
  then have "c = a\<lparr>Allowed := Allowed c\<rparr>" by simp
  with 1 show ?thesis by (simp add: allowed_only_def)
qed

lemma allowed_only_fields:
  assumes "allowed_only b' b"
  shows "Grid b' = Grid b" "NumEmpty b' = NumEmpty b" "Size b' = Size b"
    "Observers b' = Observers b" "ObsSorted b' = ObsSorted b" "Perms b' = Perms b"
    "RowPerms b' = RowPerms b" "ColPerms b' = ColPerms b"
proof -
  from assms have e: "b' = b\<lparr>Allowed := Allowed b'\<rparr>" by (simp add: allowed_only_def)
  show "Grid b' = Grid b" by (subst e) simp
  show "NumEmpty b' = NumEmpty b" by (subst e) simp
  show "Size b' = Size b" by (subst e) simp
  show "Observers b' = Observers b" by (subst e) simp
  show "ObsSorted b' = ObsSorted b" by (subst e) simp
  show "Perms b' = Perms b" by (subst e) simp
  show "RowPerms b' = RowPerms b" by (subst e) simp
  show "ColPerms b' = ColPerms b" by (subst e) simp
qed

lemma allowed_only_shrinks: "allowed_only b' b \<Longrightarrow> shrinks b' b"
  using allowed_only_fields(7,8)[of b' b]
  by (simp add: shrinks_def allowed_only_def list_all2_refl option.rel_refl)

lemma allowed_only_frame: "allowed_only b' b \<Longrightarrow> same_frame b' b"
  using allowed_only_fields[of b' b] by (simp add: same_frame_def)

lemma allowed_only_set_cell:
  assumes "allowed_at b r c = Some S" and "T |\<subseteq>| S"
  shows "allowed_only (set_cell b r c T) b"
proof -
  from assms(1) have rng: "nat r < length (Allowed b)" "nat c < length (Allowed b ! nat r)"
    and S: "Allowed b ! nat r ! nat c = S"
    by (simp_all add: allowed_at_Some_iff)
  have row: "list_all2 (|\<subseteq>|) ((Allowed b ! nat r)[nat c := T]) (Allowed b ! nat r)"
    by (rule list_all2_update_left) (use rng S assms(2) in \<open>simp_all add: list_all2_refl\<close>)
  have "list_all2 (list_all2 (|\<subseteq>|)) ((Allowed b)[nat r := (Allowed b ! nat r)[nat c := T]]) (Allowed b)"
    by (rule list_all2_update_left) (use rng row in \<open>simp_all add: list_all2_refl\<close>)
  then show ?thesis by (simp add: allowed_only_def set_cell_def)
qed

lemma list_all2_eq_or_less:
  assumes "list_all2 R xs ys" and "\<And>x y. R x y \<Longrightarrow> x = y \<or> f x < (f y :: nat)"
  shows "xs = ys \<or> sum_list (map f xs) < sum_list (map f ys)"
  using assms(1)
proof (induction rule: list_all2_induct)
  case Nil
  then show ?case by simp
next
  case (Cons x xs y ys)
  from assms(2)[OF Cons.hyps(1)] have h: "x = y \<or> f x < f y" .
  have le: "sum_list (map f xs) \<le> sum_list (map f ys)"
    using Cons.IH by auto
  from h Cons.IH le show ?case by auto
qed

lemma fsubset_eq_or_less: "x |\<subseteq>| y \<Longrightarrow> x = y \<or> fcard x < fcard y"
  by (metis fcard_seteq not_le_imp_less)

lemma allowed_only_eq_or_less:
  assumes "allowed_only b' b"
  shows "b' = b \<or> total_allowed b' < total_allowed b"
proof -
  have rows: "xs = ys \<or> sum_list (map fcard xs) < sum_list (map fcard ys)"
    if "list_all2 (|\<subseteq>|) xs ys" for xs ys :: "int fset list"
    using that by (rule list_all2_eq_or_less) (rule fsubset_eq_or_less)
  have "Allowed b' = Allowed b \<or> total_allowed b' < total_allowed b"
    unfolding total_allowed_def
    by (rule list_all2_eq_or_less[of "list_all2 (|\<subseteq>|)"])
       (use assms rows in \<open>simp_all add: allowed_only_def\<close>)
  moreover have "b' = b" if "Allowed b' = Allowed b"
  proof -
    from assms have "b' = b\<lparr>Allowed := Allowed b'\<rparr>" by (simp add: allowed_only_def)
    then have "b' = b\<lparr>Allowed := Allowed b\<rparr>" by (simp only: that)
    then show ?thesis by simp
  qed
  ultimately show ?thesis by blast
qed

text \<open>The state of a loop that only removes candidates and raises its flag exactly when it
  has removed one.\<close>

definition tracks :: "Board \<Rightarrow> Board \<times> bool \<Rightarrow> bool" where
  "tracks b0 s \<longleftrightarrow> allowed_only (fst s) b0 \<and> (snd s \<longleftrightarrow> fst s \<noteq> b0)"

lemma tracks_init: "tracks b (b, False)"
  by (simp add: tracks_def allowed_only_refl)

lemma tracks_step:
  assumes "tracks b0 (b1, ch1)" and "allowed_only b2 b1" and "ch2 \<longleftrightarrow> ch1 \<or> b2 \<noteq> b1"
  shows "tracks b0 (b2, ch2)"
proof -
  from assms(1) have a: "allowed_only b1 b0" and f: "ch1 \<longleftrightarrow> b1 \<noteq> b0"
    by (simp_all add: tracks_def)
  have ao: "allowed_only b2 b0" using assms(2) a by (rule allowed_only_trans)
  have "b2 \<noteq> b0" if "b2 \<noteq> b1"
  proof -
    from allowed_only_eq_or_less[OF assms(2)] that
    have "total_allowed b2 < total_allowed b1" by simp
    also have "\<dots> \<le> total_allowed b0"
      using a by (intro shrinks_total_allowed allowed_only_shrinks)
    finally show ?thesis by auto
  qed
  with f assms(3) ao show ?thesis by (auto simp: tracks_def)
qed

lemma tracks_compose:
  assumes "tracks b0 (b1, ch1)" and "tracks b1 (b2, ch)" and "ch2 \<longleftrightarrow> ch1 \<or> ch"
  shows "tracks b0 (b2, ch2)"
  using assms(2,3) by (intro tracks_step[OF assms(1)]) (auto simp: tracks_def)

subsection \<open>Loops over the keys of a candidate set\<close>

lemma distinct_sorted_list_of_fset: "distinct (sorted_list_of_fset S)"
  by (simp add: sorted_list_of_fset.rep_eq)

text \<open>A loop over distinct keys of the cell's own candidate set, whose body deletes the key
  when \<open>D\<close> says so (and panics where \<open>D\<close> is \<open>None\<close>).\<close>

lemma own_keys_loop:
  assumes step: "\<And>T ch1 k. k \<in> set ks \<Longrightarrow> k |\<in>| T \<Longrightarrow>
            step k (set_cell b r c T, ch1) =
              (case D k of None \<Rightarrow> None
               | Some d \<Rightarrow> Some (if d then (set_cell b r c (T |-| {|k|}), True)
                                else (set_cell b r c T, ch1)))"
    and "distinct ks" and "set ks \<subseteq> fset T0"
  shows "for_loop ks step (set_cell b r c T0, ch) =
           (if \<forall>k \<in> set ks. D k \<noteq> None
            then Some (set_cell b r c (T0 |-| ffilter (\<lambda>k. D k = Some True) (fset_of_list ks)),
                       ch \<or> (\<exists>k \<in> set ks. D k = Some True))
            else None)"
  using assms
proof (induction ks arbitrary: T0 ch)
  case Nil
  have "T0 |-| ffilter (\<lambda>k. D k = Some True) (fset_of_list []) = T0" by auto
  then show ?case by simp
next
  case (Cons k ks)
  have kT: "k |\<in>| T0" and kks: "k \<notin> set ks" and sub: "set ks \<subseteq> fset T0"
    using Cons.prems(2,3) by auto
  have st: "step k (set_cell b r c T0, ch) =
              (case D k of None \<Rightarrow> None
               | Some d \<Rightarrow> Some (if d then (set_cell b r c (T0 |-| {|k|}), True)
                                else (set_cell b r c T0, ch)))"
    by (rule Cons.prems(1)) (simp_all add: kT)
  have step': "\<And>T ch1 k'. k' \<in> set ks \<Longrightarrow> k' |\<in>| T \<Longrightarrow>
            step k' (set_cell b r c T, ch1) =
              (case D k' of None \<Rightarrow> None
               | Some d \<Rightarrow> Some (if d then (set_cell b r c (T |-| {|k'|}), True)
                                else (set_cell b r c T, ch1)))"
    by (rule Cons.prems(1)) simp_all
  have dks: "distinct ks" using Cons.prems(2) by simp
  let ?F = "\<lambda>ks. ffilter (\<lambda>k. D k = Some True) (fset_of_list ks)"
  show ?case
  proof (cases "D k")
    case None
    with st show ?thesis by simp
  next
    case (Some d)
    have c1: "(\<forall>k' \<in> set (k # ks). D k' \<noteq> None) \<longleftrightarrow> (\<forall>k' \<in> set ks. D k' \<noteq> None)"
      using Some by simp
    show ?thesis
    proof (cases d)
      case True
      have sub': "set ks \<subseteq> fset (T0 |-| {|k|})" using sub kks by auto
      have e: "T0 |-| {|k|} |-| ?F ks = T0 |-| ?F (k # ks)"
        using Some True by (auto simp: fset_of_list_elem)
      have c2: "(True \<or> (\<exists>k' \<in> set ks. D k' = Some True)) \<longleftrightarrow>
                (ch \<or> (\<exists>k' \<in> set (k # ks). D k' = Some True))"
        using Some True by simp
      have "for_loop (k # ks) step (set_cell b r c T0, ch) =
            for_loop ks step (set_cell b r c (T0 |-| {|k|}), True)"
        using st Some True by simp
      also have "\<dots> = (if \<forall>k' \<in> set ks. D k' \<noteq> None
            then Some (set_cell b r c (T0 |-| {|k|} |-| ?F ks),
                       True \<or> (\<exists>k' \<in> set ks. D k' = Some True))
            else None)"
        by (rule Cons.IH[OF step' dks sub'])
      finally show ?thesis by (simp only: c1 c2 e)
    next
      case False
      have e: "T0 |-| ?F ks = T0 |-| ?F (k # ks)"
        using Some False by (auto simp: fset_of_list_elem)
      have c2: "(ch \<or> (\<exists>k' \<in> set ks. D k' = Some True)) \<longleftrightarrow>
                (ch \<or> (\<exists>k' \<in> set (k # ks). D k' = Some True))"
        using Some False by simp
      have "for_loop (k # ks) step (set_cell b r c T0, ch) =
            for_loop ks step (set_cell b r c T0, ch)"
        using st Some False by simp
      also have "\<dots> = (if \<forall>k' \<in> set ks. D k' \<noteq> None
            then Some (set_cell b r c (T0 |-| ?F ks),
                       ch \<or> (\<exists>k' \<in> set ks. D k' = Some True))
            else None)"
        by (rule Cons.IH[OF step' dks sub])
      finally show ?thesis by (simp only: c1 c2 e)
    qed
  qed
qed

lemma disallow_step_eq:
  assumes "allowed_at b r c = Some S"
  shows "disallow_step r c k (set_cell b r c T, ch) =
           Some (if k |\<in>| T then (set_cell b r c (T |-| {|k|}), True) else (set_cell b r c T, ch))"
proof -
  have a: "allowed_at (set_cell b r c T) r c = Some T"
    using allowed_at_set_cell[OF assms] by simp
  show ?thesis
    by (simp add: disallow_step_def IsAllowed_eq[OF a] delete_allowed_eq[OF a] set_cell_twice[OF assms])
qed

lemma disallow_loop:
  assumes "allowed_at b r c = Some S"
  shows "for_loop ks (disallow_step r c) (set_cell b r c T, ch) =
           Some (set_cell b r c (T |-| fset_of_list ks), ch \<or> (\<exists>k \<in> set ks. k |\<in>| T))"
proof (induction ks arbitrary: T ch)
  case Nil
  then show ?case by simp
next
  case (Cons k ks)
  show ?case
  proof (cases "k |\<in>| T")
    case True
    have e: "T |-| {|k|} |-| fset_of_list ks = T |-| fset_of_list (k # ks)" by auto
    have c: "(True \<or> (\<exists>k' \<in> set ks. k' |\<in>| T |-| {|k|})) \<longleftrightarrow>
             (ch \<or> (\<exists>k' \<in> set (k # ks). k' |\<in>| T))"
      using True by simp
    have "for_loop (k # ks) (disallow_step r c) (set_cell b r c T, ch) =
          for_loop ks (disallow_step r c) (set_cell b r c (T |-| {|k|}), True)"
      using True by (simp add: disallow_step_eq[OF assms])
    also have "\<dots> = Some (set_cell b r c (T |-| {|k|} |-| fset_of_list ks),
                            True \<or> (\<exists>k' \<in> set ks. k' |\<in>| T |-| {|k|}))"
      by (rule Cons.IH)
    finally show ?thesis by (simp only: e c)
  next
    case False
    have e: "T |-| fset_of_list ks = T |-| fset_of_list (k # ks)" using False by auto
    have c: "(ch \<or> (\<exists>k' \<in> set ks. k' |\<in>| T)) \<longleftrightarrow>
             (ch \<or> (\<exists>k' \<in> set (k # ks). k' |\<in>| T))"
      using False by simp
    have "for_loop (k # ks) (disallow_step r c) (set_cell b r c T, ch) =
          for_loop ks (disallow_step r c) (set_cell b r c T, ch)"
      using False by (simp add: disallow_step_eq[OF assms])
    also have "\<dots> = Some (set_cell b r c (T |-| fset_of_list ks),
                            ch \<or> (\<exists>k' \<in> set ks. k' |\<in>| T))"
      by (rule Cons.IH)
    finally show ?thesis by (simp only: e c)
  qed
qed

lemma DisallowAll_eq:
  assumes "allowed_at b r c = Some S"
  shows "DisallowAll b r c toRemove = Some (set_cell b r c (S |-| toRemove), S |\<inter>| toRemove \<noteq> {||})"
proof -
  have "(\<exists>k \<in> set (sorted_list_of_fset toRemove). k |\<in>| S) \<longleftrightarrow> S |\<inter>| toRemove \<noteq> {||}"
    by auto
  with disallow_loop[OF assms, of "sorted_list_of_fset toRemove" S False] show ?thesis
    by (simp add: DisallowAll_def set_cell_same[OF assms])
qed

lemma DisallowOthers_eq:
  assumes "allowed_at b r c = Some S"
  shows "DisallowOthers b r c toKeep =
           Some (set_cell b r c (ffilter (\<lambda>k. k \<in> set toKeep) S), \<exists>k. k |\<in>| S \<and> k \<notin> set toKeep)"
proof -
  have sc: "SliceContains xs k \<longleftrightarrow> k \<in> set xs" for xs k
    by (induction xs) auto
  define D where "D = (\<lambda>k. Some (k \<notin> set toKeep))"
  have "for_loop (sorted_list_of_fset S)
          (\<lambda>k s. if SliceContains toKeep k then Some s else disallow_step r c k s)
          (set_cell b r c S, False) =
        (if \<forall>k \<in> set (sorted_list_of_fset S). D k \<noteq> None
         then Some (set_cell b r c (S |-| ffilter (\<lambda>k. D k = Some True) (fset_of_list (sorted_list_of_fset S))),
                    False \<or> (\<exists>k \<in> set (sorted_list_of_fset S). D k = Some True))
         else None)"
  proof (rule own_keys_loop)
    show "distinct (sorted_list_of_fset S)" by (rule distinct_sorted_list_of_fset)
    show "set (sorted_list_of_fset S) \<subseteq> fset S" by simp
    fix T ch1 k
    assume "k \<in> set (sorted_list_of_fset S)" "k |\<in>| T"
    then show "(if SliceContains toKeep k then Some (set_cell b r c T, ch1)
                else disallow_step r c k (set_cell b r c T, ch1)) =
        (case D k of None \<Rightarrow> None
         | Some d \<Rightarrow> Some (if d then (set_cell b r c (T |-| {|k|}), True) else (set_cell b r c T, ch1)))"
      by (simp add: D_def sc disallow_step_eq[OF assms])
  qed
  moreover have "S |-| ffilter (\<lambda>k. D k = Some True) S = ffilter (\<lambda>k. k \<in> set toKeep) S"
    by (auto simp: D_def)
  moreover have "(\<exists>k \<in> fset S. D k = Some True) \<longleftrightarrow> (\<exists>k. k |\<in>| S \<and> k \<notin> set toKeep)"
    by (auto simp: D_def)
  ultimately show ?thesis
    by (simp add: DisallowOthers_def assms set_cell_same[OF assms] D_def)
qed


subsection \<open>Loops whose steps each settle one index\<close>

lemma for_loop_each_aux:
  assumes settle: "\<And>x u v. x \<in> A \<Longrightarrow> Inv u \<Longrightarrow> body x u = Some v \<Longrightarrow> Inv v \<and> P x v"
    and keep: "\<And>x y u v. x \<in> A \<Longrightarrow> y \<noteq> x \<Longrightarrow> Inv u \<Longrightarrow> P y u \<Longrightarrow> body x u = Some v \<Longrightarrow> P y v"
  shows "for_loop xs body s = Some t \<Longrightarrow> distinct xs \<Longrightarrow> Inv s \<Longrightarrow> set xs \<subseteq> A \<Longrightarrow>
         Inv t \<and> (\<forall>x \<in> set xs. P x t)"
proof (induction xs arbitrary: s)
  case Nil
  then show ?case by simp
next
  case (Cons x xs)
  from Cons.prems(1) obtain u where u: "body x s = Some u" and r: "for_loop xs body u = Some t"
    by (auto split: option.splits)
  have xs: "x \<notin> set xs" "distinct xs" "x \<in> A" "set xs \<subseteq> A"
    using Cons.prems(2,4) by simp_all
  have iu: "Inv u \<and> P x u"
    by (rule settle[of x s u]) (simp_all add: Cons.prems(3) u xs)
  then have "Inv u" "P x u" by simp_all
  have rest: "Inv t \<and> (\<forall>y \<in> set xs. P y t)"
    by (rule Cons.IH[OF r xs(2) \<open>Inv u\<close> xs(4)])
  have "Inv t \<and> P x t"
  proof (rule for_loop_rule[OF r, where I = "\<lambda>w. Inv w \<and> P x w"])
    show "Inv u \<and> P x u" by (rule iu)
  next
    fix y v w
    assume y: "y \<in> set xs" and vw: "Inv v \<and> P x v" "body y v = Some w"
    have yx: "x \<noteq> y" using y xs(1) by auto
    have yA: "y \<in> A" using y xs(4) by auto
    have 1: "Inv w \<and> P y w"
      by (rule settle[of y v w]) (use yA vw in simp_all)
    have 2: "P x w"
      by (rule keep[of y x v w]) (use yA yx vw in simp_all)
    from 1 2 show "Inv w \<and> P x w" by simp
  qed
  with rest show ?case by simp
qed

lemma for_loop_each:
  assumes "for_loop xs body s = Some t" and "distinct xs" and "Inv s"
    and "\<And>x u v. x \<in> set xs \<Longrightarrow> Inv u \<Longrightarrow> body x u = Some v \<Longrightarrow> Inv v \<and> P x v"
    and "\<And>x y u v. x \<in> set xs \<Longrightarrow> y \<noteq> x \<Longrightarrow> Inv u \<Longrightarrow> P y u \<Longrightarrow> body x u = Some v \<Longrightarrow> P y v"
  shows "Inv t \<and> (\<forall>x \<in> set xs. P x t)"
  by (rule for_loop_each_aux[where A = "set xs" and Inv = Inv and P = P and body = body, OF _ _ assms(1,2,3)])
     (use assms(4,5) in blast)+

subsection \<open>Candidates narrowed from the permutation lists\<close>

text \<open>\<open>places b perms pos n\<close>: some permutation of the list has \<open>n\<close> at position \<open>pos\<close>.\<close>

definition places :: "Board \<Rightarrow> int list \<Rightarrow> int \<Rightarrow> int \<Rightarrow> bool" where
  "places b perms pos n \<longleftrightarrow>
     (\<exists>permI \<in> set perms. \<exists>perm. at (Perms b) permI = Some perm \<and> at perm pos = Some n)"

text \<open>A line's list supports a value at a position: it is nil, or it places the value
  there.\<close>

definition line_supports :: "Board \<Rightarrow> int list option \<Rightarrow> int \<Rightarrow> int \<Rightarrow> bool" where
  "line_supports b l pos n = (case l of None \<Rightarrow> True | Some perms \<Rightarrow> places b perms pos n)"

text \<open>What \<open>TrimAllowedFromPerms\<close> decides for one value of one cell: whether it deletes
  the value.\<close>

definition unsupported :: "Board \<Rightarrow> int \<Rightarrow> int \<Rightarrow> int \<Rightarrow> bool option" where
  "unsupported b ri ci n = do {
     rp \<leftarrow> at (RowPerms b) ri;
     found \<leftarrow> (case rp of None \<Rightarrow> Some True | Some perms \<Rightarrow> supports b perms ci n);
     if \<not> found then Some True
     else do {
       cp \<leftarrow> at (ColPerms b) ci;
       found \<leftarrow> (case cp of None \<Rightarrow> Some True | Some perms \<Rightarrow> supports b perms ri n);
       Some (\<not> found)
     }
   }"

lemma supports_Some: "supports b perms pos n = Some x \<Longrightarrow> x = places b perms pos n"
proof (induction perms)
  case Nil
  then show ?case by (simp add: places_def)
next
  case (Cons permI rest)
  from Cons.prems obtain perm v where pv: "at (Perms b) permI = Some perm" "at perm pos = Some v"
    and r: "(if v = n then Some True else supports b rest pos n) = Some x"
    by (auto simp: bind_eq_Some_conv)
  show ?case
  proof (cases "v = n")
    case True
    with pv r show ?thesis by (auto simp: places_def)
  next
    case False
    with r have "supports b rest pos n = Some x" by simp
    from Cons.IH[OF this] pv False show ?thesis by (auto simp: places_def)
  qed
qed

lemma supports_cong: "Perms b' = Perms b \<Longrightarrow> supports b' perms pos n = supports b perms pos n"
  by (induction perms) (simp_all cong: if_cong)

lemma unsupported_cong:
  "Perms b' = Perms b \<Longrightarrow> RowPerms b' = RowPerms b \<Longrightarrow> ColPerms b' = ColPerms b \<Longrightarrow>
   unsupported b' ri ci n = unsupported b ri ci n"
  by (simp add: unsupported_def supports_cong[of b' b] cong: if_cong option.case_cong)

lemma unsupported_Some:
  assumes "unsupported b ri ci n = Some d"
  shows "\<exists>rp. at (RowPerms b) ri = Some rp \<and>
           (if line_supports b rp ci n
            then \<exists>cp. at (ColPerms b) ci = Some cp \<and> d = (\<not> line_supports b cp ri n)
            else d)"
proof -
  from assms obtain rp found where rp: "at (RowPerms b) ri = Some rp"
    and f: "(case rp of None \<Rightarrow> Some True | Some perms \<Rightarrow> supports b perms ci n) = Some found"
    and rest: "(if \<not> found then Some True
     else do {
       cp \<leftarrow> at (ColPerms b) ci;
       found \<leftarrow> (case cp of None \<Rightarrow> Some True | Some perms \<Rightarrow> supports b perms ri n);
       Some (\<not> found)
     }) = Some d"
    unfolding unsupported_def by (auto simp: bind_eq_Some_conv)
  have ls: "found = line_supports b rp ci n"
    using f by (cases rp) (auto simp: line_supports_def dest: supports_Some)
  show ?thesis
  proof (cases found)
    case False
    with rest ls rp show ?thesis by simp
  next
    case True
    with rest obtain cp found2 where cp: "at (ColPerms b) ci = Some cp"
      and f2: "(case cp of None \<Rightarrow> Some True | Some perms \<Rightarrow> supports b perms ri n) = Some found2"
      and d: "d = (\<not> found2)"
      by (auto simp: bind_eq_Some_conv)
    have "found2 = line_supports b cp ri n"
      using f2 by (cases cp) (auto simp: line_supports_def dest: supports_Some)
    with True ls rp cp d show ?thesis by simp
  qed
qed

lemma trim_value_eq:
  assumes "allowed_at b r c = Some S"
  shows "trim_value r c k (set_cell b r c T, ch) =
           (case unsupported b r c k of None \<Rightarrow> None
            | Some d \<Rightarrow> Some (if d then (set_cell b r c (T |-| {|k|}), True)
                             else (set_cell b r c T, ch)))"
proof -
  have a: "allowed_at (set_cell b r c T) r c = Some T"
    using allowed_at_set_cell[OF assms] by simp
  have d: "delete_allowed (set_cell b r c T) r c k = Some (set_cell b r c (T |-| {|k|}))"
    by (simp add: delete_allowed_eq[OF a] set_cell_twice[OF assms])
  have s: "supports (set_cell b r c T) perms pos n = supports b perms pos n" for perms pos n
    by (rule supports_cong) simp
  show ?thesis
    unfolding trim_value_def unsupported_def
    by (auto simp: d s split: Option.bind_split option.splits)
qed


text \<open>The candidates of a cell that \<open>TrimAllowedFromPerms\<close> keeps.\<close>

definition kept :: "Board \<Rightarrow> int \<Rightarrow> int \<Rightarrow> int fset \<Rightarrow> int fset" where
  "kept b r c S = ffilter (\<lambda>k. unsupported b r c k \<noteq> Some True) S"

lemma trim_cell_eq:
  assumes "allowed_at b r c = Some S"
  shows "trim_cell r c (b, ch) =
           (if \<forall>k \<in> fset S. unsupported b r c k \<noteq> None
            then Some (set_cell b r c (kept b r c S), ch \<or> (\<exists>k \<in> fset S. unsupported b r c k = Some True))
            else None)"
proof -
  have "for_loop (sorted_list_of_fset S) (trim_value r c) (set_cell b r c S, ch) =
        (if \<forall>k \<in> set (sorted_list_of_fset S). unsupported b r c k \<noteq> None
         then Some (set_cell b r c (S |-| ffilter (\<lambda>k. unsupported b r c k = Some True)
                                             (fset_of_list (sorted_list_of_fset S))),
                    ch \<or> (\<exists>k \<in> set (sorted_list_of_fset S). unsupported b r c k = Some True))
         else None)"
    by (rule own_keys_loop)
       (simp_all add: trim_value_eq[OF assms] distinct_sorted_list_of_fset)
  moreover have "S |-| ffilter (\<lambda>k. unsupported b r c k = Some True) S = kept b r c S"
    by (auto simp: kept_def)
  ultimately show ?thesis
    by (simp add: trim_cell_def assms set_cell_same[OF assms])
qed

definition trim_inv :: "Board \<Rightarrow> Board \<times> bool \<Rightarrow> bool" where
  "trim_inv b0 s \<longleftrightarrow>
     tracks b0 s \<and>
     (\<forall>r c. rel_option (\<lambda>S S0. kept b0 r c S0 |\<subseteq>| S \<and> S |\<subseteq>| S0)
              (allowed_at (fst s) r c) (allowed_at b0 r c))"

definition settled :: "Board \<Rightarrow> int \<Rightarrow> int \<Rightarrow> Board \<times> bool \<Rightarrow> bool" where
  "settled b0 r c s \<longleftrightarrow>
     allowed_at (fst s) r c = map_option (kept b0 r c) (allowed_at b0 r c) \<and>
     (\<forall>S0. allowed_at b0 r c = Some S0 \<longrightarrow> (\<forall>k \<in> fset S0. unsupported b0 r c k \<noteq> None))"

lemma trim_inv_init: "trim_inv b (b, False)"
  by (auto simp: trim_inv_def tracks_init kept_def option.rel_sel)

lemma kept_sandwich:
  assumes "kept b r c S0 |\<subseteq>| S" and "S |\<subseteq>| S0"
  shows "kept b r c S = kept b r c S0"
  using assms by (auto simp: kept_def)

lemma trim_cell_step:
  assumes t: "trim_cell r c (u, ch) = Some (v, ch')" and inv: "trim_inv b0 (u, ch)"
  shows "trim_inv b0 (v, ch')" and "settled b0 r c (v, ch')"
    and "\<And>r' c'. (r', c') \<noteq> (r, c) \<Longrightarrow> allowed_at v r' c' = allowed_at u r' c'"
proof -
  from t obtain S where S: "allowed_at u r c = Some S"
    by (auto simp: trim_cell_def bind_eq_Some_conv)
  from inv have tr: "tracks b0 (u, ch)"
    and sw: "\<And>r c. rel_option (\<lambda>S S0. kept b0 r c S0 |\<subseteq>| S \<and> S |\<subseteq>| S0)
              (allowed_at u r c) (allowed_at b0 r c)"
    by (simp_all add: trim_inv_def)
  from sw[of r c] S obtain S0 where S0: "allowed_at b0 r c = Some S0"
    "kept b0 r c S0 |\<subseteq>| S" "S |\<subseteq>| S0"
    by (cases "allowed_at b0 r c") auto
  have ao: "allowed_only u b0" using tr by (simp add: tracks_def)
  have un: "unsupported u r c k = unsupported b0 r c k" for k
    by (rule unsupported_cong) (simp_all add: allowed_only_fields[OF ao])
  have ke: "kept u r c S = kept b0 r c S0"
    using kept_sandwich[OF S0(2,3)] by (simp add: kept_def un)
  from t trim_cell_eq[OF S, of ch]
  have v: "v = set_cell u r c (kept b0 r c S0)"
    and f: "ch' \<longleftrightarrow> ch \<or> (\<exists>k \<in> fset S. unsupported b0 r c k = Some True)"
    and nn: "\<forall>k \<in> fset S. unsupported b0 r c k \<noteq> None"
    by (auto simp: ke un split: if_splits)
  have nn0: "\<forall>k \<in> fset S0. unsupported b0 r c k \<noteq> None"
  proof
    fix k assume k: "k \<in> fset S0"
    show "unsupported b0 r c k \<noteq> None"
    proof
      assume n: "unsupported b0 r c k = None"
      with k have "k |\<in>| kept b0 r c S0" by (simp add: kept_def)
      with S0(2) have "k \<in> fset S" by auto
      with nn n show False by auto
    qed
  qed
  have at_v: "allowed_at v r' c' = (if r' = r \<and> c' = c then Some (kept b0 r c S0) else allowed_at u r' c')"
    for r' c'
    unfolding v by (rule allowed_at_set_cell[OF S])
  show "\<And>r' c'. (r', c') \<noteq> (r, c) \<Longrightarrow> allowed_at v r' c' = allowed_at u r' c'"
    using at_v by auto
  show "settled b0 r c (v, ch')"
    using at_v[of r c] S0(1) nn0 by (simp add: settled_def)
  have sub: "kept b0 r c S0 |\<subseteq>| S" by (rule S0(2))
  have aov: "allowed_only v u"
    unfolding v by (rule allowed_only_set_cell[OF S sub])
  have neq: "v \<noteq> u \<longleftrightarrow> (\<exists>k \<in> fset S. unsupported b0 r c k = Some True)"
  proof -
    have "v = u \<longleftrightarrow> kept b0 r c S0 = S"
    proof
      assume "v = u"
      then have "set_cell u r c (kept b0 r c S0) = set_cell u r c S"
        by (simp add: v[symmetric] set_cell_same[OF S])
      then show "kept b0 r c S0 = S" by (rule set_cell_inj[OF S])
    next
      assume "kept b0 r c S0 = S"
      then show "v = u" by (simp add: v set_cell_same[OF S])
    qed
    also have "kept b0 r c S0 = S \<longleftrightarrow> \<not> (\<exists>k \<in> fset S. unsupported b0 r c k = Some True)"
      using ke[symmetric] by (auto simp: kept_def un)
    finally show ?thesis by simp
  qed
  have trv: "tracks b0 (v, ch')"
    by (rule tracks_step[OF tr aov]) (simp add: f neq)
  have "rel_option (\<lambda>S S0. kept b0 r' c' S0 |\<subseteq>| S \<and> S |\<subseteq>| S0)
              (allowed_at v r' c') (allowed_at b0 r' c')" for r' c'
  proof (cases "r' = r \<and> c' = c")
    case True
    with at_v[of r c] S0 show ?thesis by (auto simp: kept_def)
  next
    case False
    with at_v[of r' c'] sw[of r' c'] show ?thesis by auto
  qed
  with trv show "trim_inv b0 (v, ch')" by (simp add: trim_inv_def)
qed


lemma trim_cell_step':
  assumes "trim_cell r c s = Some t" and "trim_inv b0 s"
  shows "trim_inv b0 t \<and> settled b0 r c t"
    and "(r', c') \<noteq> (r, c) \<Longrightarrow> settled b0 r' c' s \<Longrightarrow> settled b0 r' c' t"
proof -
  obtain u ch v ch' where st: "s = (u, ch)" "t = (v, ch')" by (cases s, cases t) auto
  from trim_cell_step[of r c u ch v ch' b0] assms st
  show "trim_inv b0 t \<and> settled b0 r c t" by simp
  assume "(r', c') \<noteq> (r, c)" "settled b0 r' c' s"
  with trim_cell_step(3)[of r c u ch v ch' b0 r' c'] assms st
  show "settled b0 r' c' t" by (simp add: settled_def)
qed

lemma TrimAllowedFromPerms_spec:
  assumes "TrimAllowedFromPerms b = Some (b', ch)"
  shows "tracks b (b', ch)"
    and "\<And>r c. 0 \<le> r \<Longrightarrow> r < Size b \<Longrightarrow> 0 \<le> c \<Longrightarrow> c < Size b \<Longrightarrow>
           allowed_at b' r c = map_option (kept b r c) (allowed_at b r c)"
    and "\<And>r c S k. 0 \<le> r \<Longrightarrow> r < Size b \<Longrightarrow> 0 \<le> c \<Longrightarrow> c < Size b \<Longrightarrow>
           allowed_at b r c = Some S \<Longrightarrow> k |\<in>| S \<Longrightarrow> unsupported b r c k \<noteq> None"
proof -
  define idx where "idx = upto_excl (Size b)"
  have d: "distinct idx" by (simp add: idx_def distinct_upto_excl)
  define P where "P = (\<lambda>ri s. \<forall>ci \<in> set idx. settled b ri ci s)"
  have run: "for_loop idx (\<lambda>ri. for_loop idx (trim_cell ri)) (b, False) = Some (b', ch)"
    using assms by (simp add: TrimAllowedFromPerms_def idx_def)
  have inner: "trim_inv b v \<and> P ri v"
    if "trim_inv b u" "for_loop idx (trim_cell ri) u = Some v" for ri u v
    unfolding P_def
  proof (rule for_loop_each[where Inv = "trim_inv b" and P = "\<lambda>ci. settled b ri ci", OF that(2) d that(1)])
    fix x s t
    assume "x \<in> set idx" "trim_inv b s" "trim_cell ri x s = Some t"
    then show "trim_inv b t \<and> settled b ri x t"
      using trim_cell_step'(1)[of ri x s t b] by simp
  next
    fix x y s t
    assume "x \<in> set idx" "y \<noteq> x" "trim_inv b s" "settled b ri y s" "trim_cell ri x s = Some t"
    then show "settled b ri y t"
      using trim_cell_step'(2)[of ri x s t b ri y] by simp
  qed
  have other: "P y v"
    if "y \<noteq> ri" "trim_inv b u" "P y u" "for_loop idx (trim_cell ri) u = Some v" for ri y u v
  proof -
    have "trim_inv b v \<and> P y v"
    proof (rule for_loop_rule[OF that(4), where I = "\<lambda>w. trim_inv b w \<and> P y w"])
      show "trim_inv b u \<and> P y u" using that by simp
    next
      fix x s t
      assume x: "x \<in> set idx" and s: "trim_inv b s \<and> P y s" and t: "trim_cell ri x s = Some t"
      have 1: "trim_inv b t" using trim_cell_step'(1)[OF t] s by simp
      have 2: "settled b y ci t" if "ci \<in> set idx" for ci
        by (rule trim_cell_step'(2)[OF t]) (use s that \<open>y \<noteq> ri\<close> in \<open>auto simp: P_def\<close>)
      from 1 2 show "trim_inv b t \<and> P y t" by (simp add: P_def)
    qed
    then show ?thesis by simp
  qed
  have fin: "trim_inv b (b', ch) \<and> (\<forall>ri \<in> set idx. P ri (b', ch))"
  proof (rule for_loop_each[where Inv = "trim_inv b" and P = P, OF run d])
    show "trim_inv b (b, False)" by (rule trim_inv_init)
  next
    fix x u v
    assume "x \<in> set idx" "trim_inv b u" "for_loop idx (trim_cell x) u = Some v"
    then show "trim_inv b v \<and> P x v" using inner by blast
  next
    fix x y u v
    assume "x \<in> set idx" "y \<noteq> x" "trim_inv b u" "P y u" "for_loop idx (trim_cell x) u = Some v"
    then show "P y v" using other by blast
  qed
  then show "tracks b (b', ch)" by (simp add: trim_inv_def)
  fix r c
  assume "0 \<le> r" "r < Size b" "0 \<le> c" "c < Size b"
  then have "r \<in> set idx" "c \<in> set idx" by (simp_all add: idx_def set_upto_excl)
  with fin have st: "settled b r c (b', ch)" by (simp add: P_def)
  then show "allowed_at b' r c = map_option (kept b r c) (allowed_at b r c)"
    by (simp add: settled_def)
  fix S k
  assume "allowed_at b r c = Some S" "k |\<in>| S"
  with st show "unsupported b r c k \<noteq> None"
    by (auto simp: settled_def)
qed


text \<open>A 3-by-3 board as the constructor leaves it before its trim pass, with a clue 3 on
  the left of row 0 and a clue 2 on top of column 0.\<close>

definition board_two_clues :: Board where
  "board_two_clues = \<lparr>Grid = [[0, 0, 0], [0, 0, 0], [0, 0, 0]],
     Allowed = [[{|1, 2, 3|}, {|1, 2, 3|}, {|1, 2, 3|}],
                [{|1, 2, 3|}, {|1, 2, 3|}, {|1, 2, 3|}],
                [{|1, 2, 3|}, {|1, 2, 3|}, {|1, 2, 3|}]],
     NumEmpty = 9, Size = 3,
     Observers = [\<lparr>Type = 1, Index = 0, Direction = 0, Count = 2\<rparr>,
                  \<lparr>Type = 0, Index = 0, Direction = 0, Count = 3\<rparr>],
     ObsSorted = [Some \<lparr>Type = 0, Index = 0, Direction = 0, Count = 3\<rparr>, None, None, None,
                  None, None, Some \<lparr>Type = 1, Index = 0, Direction = 0, Count = 2\<rparr>, None,
                  None, None, None, None],
     Perms = [[1, 2, 3], [1, 3, 2], [2, 1, 3], [2, 3, 1], [3, 1, 2], [3, 2, 1]],
     RowPerms = [Some [0], None, None], ColPerms = [Some [1, 2, 3], None, None]\<rparr>"

definition board_two_clues_trimmed :: Board where
  "board_two_clues_trimmed = board_two_clues\<lparr>Allowed :=
      [[{|1|}, {|2|}, {|3|}],
       [{|1, 3|}, {|1, 2, 3|}, {|1, 2, 3|}],
       [{|1, 2, 3|}, {|1, 2, 3|}, {|1, 2, 3|}]]\<rparr>"

lemma TrimAllowedFromPerms_two_clues:
  "TrimAllowedFromPerms board_two_clues = Some (board_two_clues_trimmed, True)"
  by code_simp

lemma places_two_clues:
  "places board_two_clues [1, 2, 3] 0 v \<longleftrightarrow> v = 1 \<or> v = 2"
  "places board_two_clues [0] 0 v \<longleftrightarrow> v = 1"
  by (auto simp: places_def board_two_clues_def at_def)

text \<open>
  Claim C1, as stated: \<open>TrimAllowedFromPerms\<close> removes a candidate \<open>v\<close> of a cell exactly
  when neither the row's list nor the column's list has a permutation placing \<open>v\<close> there, so
  that a value supported by one of the two lists stays. It fails here: on \<open>board_two_clues\<close>
  the list of column 0 places 2 at cell (0, 0), the list of row 0 does not, and the code
  removes 2 from the candidates of (0, 0).
\<close>

theorem TrimAllowedFromPerms_counterexample:
  "TrimAllowedFromPerms board_two_clues = Some (board_two_clues_trimmed, True) \<and>
   allowed_at board_two_clues 0 0 = Some {|1, 2, 3|} \<and>
   at (RowPerms board_two_clues) 0 = Some (Some [0]) \<and>
   at (ColPerms board_two_clues) 0 = Some (Some [1, 2, 3]) \<and>
   line_supports board_two_clues (Some [1, 2, 3]) 0 2 \<and>
   \<not> line_supports board_two_clues (Some [0]) 0 2 \<and>
   allowed_at board_two_clues_trimmed 0 0 = Some {|1|}"
proof -
  have "allowed_at board_two_clues 0 0 = Some {|1, 2, 3|}"
    "at (RowPerms board_two_clues) 0 = Some (Some [0])"
    "at (ColPerms board_two_clues) 0 = Some (Some [1, 2, 3])"
    "allowed_at board_two_clues_trimmed 0 0 = Some {|1|}"
    by (simp_all add: allowed_at_def at_def board_two_clues_def board_two_clues_trimmed_def)
  then show ?thesis
    using TrimAllowedFromPerms_two_clues by (simp add: line_supports_def places_two_clues)
qed

text \<open>
  Claim C1, amended. For every board on which \<open>TrimAllowedFromPerms\<close> returns and every
  cell \<open>(r, c)\<close> of it, a candidate \<open>v\<close> of the cell is kept exactly when the row's list
  supports \<open>v\<close> at position \<open>c\<close> and the column's list supports \<open>v\<close> at position \<open>r\<close>
  (a nil list supports every value): \<open>v\<close> is removed when the row's list is present and has
  no permutation placing it there, or the column's list is present and has none.
\<close>

theorem TrimAllowedFromPerms_cell:
  assumes "TrimAllowedFromPerms b = Some (b', ch)"
    and "0 \<le> r" and "r < Size b" and "0 \<le> c" and "c < Size b"
    and "allowed_at b r c = Some S"
    and "at (RowPerms b) r = Some rp" and "at (ColPerms b) c = Some cp"
  shows "allowed_at b' r c =
           Some (ffilter (\<lambda>v. line_supports b rp c v \<and> line_supports b cp r v) S)"
proof -
  have 1: "allowed_at b' r c = Some (kept b r c S)"
    using TrimAllowedFromPerms_spec(2)[OF assms(1-5)] assms(6) by simp
  have "(unsupported b r c k \<noteq> Some True) \<longleftrightarrow>
        (line_supports b rp c k \<and> line_supports b cp r k)" if "k |\<in>| S" for k
  proof -
    from TrimAllowedFromPerms_spec(3)[OF assms(1-6) that]
    obtain d where d: "unsupported b r c k = Some d" by auto
    from unsupported_Some[OF d] assms(7,8) show ?thesis
      by (auto simp: d split: if_splits)
  qed
  then have "kept b r c S = ffilter (\<lambda>v. line_supports b rp c v \<and> line_supports b cp r v) S"
    by (auto simp: kept_def)
  with 1 show ?thesis by simp
qed

theorem TrimAllowedFromPerms_cell_witness:
  "TrimAllowedFromPerms board_two_clues = Some (board_two_clues_trimmed, True) \<and>
   allowed_at board_two_clues 0 0 = Some {|1, 2, 3|} \<and>
   allowed_at board_two_clues_trimmed 0 0 =
     Some (ffilter (\<lambda>v. line_supports board_two_clues (Some [0]) 0 v \<and>
                         line_supports board_two_clues (Some [1, 2, 3]) 0 v) {|1, 2, 3|}) \<and>
   allowed_at board_two_clues_trimmed 0 0 = Some {|1|}"
proof -
  have a: "allowed_at board_two_clues 0 0 = Some {|1, 2, 3|}"
    "at (RowPerms board_two_clues) 0 = Some (Some [0])"
    "at (ColPerms board_two_clues) 0 = Some (Some [1, 2, 3])"
    "allowed_at board_two_clues_trimmed 0 0 = Some {|1|}"
    by (simp_all add: allowed_at_def at_def board_two_clues_def board_two_clues_trimmed_def)
  have s: "(0 :: int) \<le> 0" "0 < Size board_two_clues"
    by (simp_all add: board_two_clues_def)
  from TrimAllowedFromPerms_cell[OF TrimAllowedFromPerms_two_clues s(1) s(2) s(1) s(2) a(1) a(2) a(3)]
  show ?thesis using a TrimAllowedFromPerms_two_clues by simp
qed

subsection \<open>Loops that a return can leave\<close>

lemma for_until_rule_aux:
  assumes stay: "\<And>x u v. x \<in> A \<Longrightarrow> I u \<Longrightarrow> body x u = Some (v, False) \<Longrightarrow> I v"
    and leave: "\<And>x u v. x \<in> A \<Longrightarrow> I u \<Longrightarrow> body x u = Some (v, True) \<Longrightarrow> Q v"
  shows "for_until xs body s = Some (t, r) \<Longrightarrow> I s \<Longrightarrow> set xs \<subseteq> A \<Longrightarrow> (if r then Q t else I t)"
proof (induction xs arbitrary: s)
  case Nil
  then show ?case by auto
next
  case (Cons x xs)
  from Cons.prems(1) obtain u f where u: "body x s = Some (u, f)"
    by (cases "body x s") auto
  have xA: "x \<in> A" "set xs \<subseteq> A" using Cons.prems(3) by simp_all
  show ?case
  proof (cases f)
    case True
    with u Cons.prems(1) have "t = u" "r" by simp_all
    moreover have "Q u" by (rule leave[of x s u]) (use xA Cons.prems(2) u True in simp_all)
    ultimately show ?thesis by simp
  next
    case False
    with u Cons.prems(1) have r: "for_until xs body u = Some (t, r)" by simp
    have "I u" by (rule stay[of x s u]) (use xA Cons.prems(2) u False in simp_all)
    from Cons.IH[OF r this xA(2)] show ?thesis .
  qed
qed

lemma for_until_rule:
  assumes "for_until xs body s = Some (t, r)" and "I s"
    and "\<And>x u v. x \<in> set xs \<Longrightarrow> I u \<Longrightarrow> body x u = Some (v, False) \<Longrightarrow> I v"
    and "\<And>x u v. x \<in> set xs \<Longrightarrow> I u \<Longrightarrow> body x u = Some (v, True) \<Longrightarrow> Q v"
  shows "if r then Q t else I t"
  by (rule for_until_rule_aux[where A = "set xs" and I = I and Q = Q and body = body, OF _ _ assms(1,2)])
     (use assms(3,4) in blast)+

subsection \<open>Naked sets\<close>

text \<open>\<open>one_cell_removed b' b\<close>: \<open>b'\<close> is \<open>b\<close> with the candidate set of exactly one cell
  replaced by a proper subset of it.\<close>

definition one_cell_removed :: "Board \<Rightarrow> Board \<Rightarrow> bool" where
  "one_cell_removed b' b \<longleftrightarrow>
     (\<exists>r c S T. allowed_at b r c = Some S \<and> T |\<subset>| S \<and> b' = set_cell b r c T)"

lemma DisallowAll_Some:
  assumes "DisallowAll b r c toRemove = Some (b', ch)"
  shows "if ch then one_cell_removed b' b else b' = b"
proof (cases "allowed_at b r c")
  case (Some S)
  from DisallowAll_eq[OF Some, of toRemove] assms
  have b': "b' = set_cell b r c (S |-| toRemove)" and ch: "ch \<longleftrightarrow> S |\<inter>| toRemove \<noteq> {||}"
    by simp_all
  show ?thesis
  proof (cases ch)
    case True
    with ch have "S |-| toRemove |\<subset>| S" by auto
    with Some b' have "one_cell_removed b' b"
      unfolding one_cell_removed_def
      by (intro exI[of _ r] exI[of _ c] exI[of _ S] exI[of _ "S |-| toRemove"]) simp
    with True show ?thesis by simp
  next
    case False
    with ch have "S |-| toRemove = S" by auto
    with b' False show ?thesis by (simp add: set_cell_same[OF Some])
  qed
next
  case None
  have "for_loop ks (disallow_step r c) (b, False) = Some (b', ch) \<Longrightarrow> \<not> ch \<and> b' = b" for ks
    by (cases ks) (auto simp: disallow_step_def IsAllowed_None[OF None])
  with assms show ?thesis by (auto simp: DisallowAll_def)
qed

lemma naked_line_Some:
  assumes "naked_line by_row line idxs b = Some (b', ret)"
  shows "if ret then one_cell_removed b' b else b' = b"
proof -
  from assms obtain found where f: "check_naked_set b by_row idxs line = Some found"
    by (auto simp: naked_line_def bind_eq_Some_conv)
  show ?thesis
  proof (cases found)
    case False
    with assms f show ?thesis by (simp add: naked_line_def)
  next
    case True
    define body where "body = (\<lambda>i b.
            if SliceContains idxs i then Some (b, False)
            else do {
              first \<leftarrow> at idxs 0;
              toRemove \<leftarrow> (case line_cell by_row line first of (r, c) \<Rightarrow> allowed_at b r c);
              case line_cell by_row line i of (r, c) \<Rightarrow> DisallowAll b r c toRemove
            })"
    from assms f True have run: "for_until (upto_excl (Size b)) body b = Some (b', ret)"
      by (simp add: naked_line_def body_def)
    have step: "if g then one_cell_removed v u else v = u" if "body i u = Some (v, g)" for i u v g
    proof (cases "SliceContains idxs i")
      case True
      with that show ?thesis by (simp add: body_def)
    next
      case False
      obtain r c where rc: "line_cell by_row line i = (r, c)"
        by (cases "line_cell by_row line i")
      from that False obtain T where "DisallowAll u r c T = Some (v, g)"
        by (auto simp: body_def bind_eq_Some_conv rc)
      then show ?thesis by (rule DisallowAll_Some)
    qed
    show ?thesis
    proof (rule for_until_rule[OF run, where I = "\<lambda>u. u = b" and Q = "\<lambda>v. one_cell_removed v b"])
      show "b = b" by simp
    next
      fix x u v assume "u = b" "body x u = Some (v, False)"
      with step[of x u v False] show "v = b" by simp
    next
      fix x u v assume "u = b" "body x u = Some (v, True)"
      with step[of x u v True] show "one_cell_removed v b" by simp
    qed
  qed
qed

lemma naked_sweep_Some:
  assumes "for_until lines (\<lambda>line. for_until indices (naked_line by_row line)) b = Some (b', ret)"
  shows "if ret then one_cell_removed b' b else b' = b"
proof (rule for_until_rule[OF assms, where I = "\<lambda>u. u = b" and Q = "\<lambda>v. one_cell_removed v b"])
  show "b = b" by simp
next
  fix line u v
  assume u: "u = b" and r: "for_until indices (naked_line by_row line) u = Some (v, False)"
  have "if False then one_cell_removed v b else v = b"
  proof (rule for_until_rule[OF r, where I = "\<lambda>u. u = b" and Q = "\<lambda>v. one_cell_removed v b"])
    show "u = b" by (rule u)
  next
    fix x w z assume "w = b" "naked_line by_row line x w = Some (z, False)"
    with naked_line_Some[of by_row line x w z False] show "z = b" by simp
  next
    fix x w z assume "w = b" "naked_line by_row line x w = Some (z, True)"
    with naked_line_Some[of by_row line x w z True] show "one_cell_removed z b" by simp
  qed
  then show "v = b" by simp
next
  fix line u v
  assume u: "u = b" and r: "for_until indices (naked_line by_row line) u = Some (v, True)"
  have "if True then one_cell_removed v b else v = b"
  proof (rule for_until_rule[OF r, where I = "\<lambda>u. u = b" and Q = "\<lambda>v. one_cell_removed v b"])
    show "u = b" by (rule u)
  next
    fix x w z assume "w = b" "naked_line by_row line x w = Some (z, False)"
    with naked_line_Some[of by_row line x w z False] show "z = b" by simp
  next
    fix x w z assume "w = b" "naked_line by_row line x w = Some (z, True)"
    with naked_line_Some[of by_row line x w z True] show "one_cell_removed z b" by simp
  qed
  then show "one_cell_removed v b" by simp
qed

lemma TrimNakedSets_Some:
  assumes "TrimNakedSets b n = Some (b', ret)"
  shows "if ret then one_cell_removed b' b else b' = b"
proof -
  from assms obtain indices b1 r1 where
    rows: "for_until (upto_excl (Size b)) (\<lambda>ri. for_until indices (naked_line True ri)) b = Some (b1, r1)"
    and rest: "(if r1 then Some (b1, True)
       else for_until (upto_excl (Size b1)) (\<lambda>ci. for_until indices (naked_line False ci)) b1) = Some (b', ret)"
    by (auto simp: TrimNakedSets_def bind_eq_Some_conv)
  from naked_sweep_Some[OF rows] have 1: "if r1 then one_cell_removed b1 b else b1 = b" .
  show ?thesis
  proof (cases r1)
    case True
    with rest 1 show ?thesis by simp
  next
    case False
    with rest have "for_until (upto_excl (Size b1)) (\<lambda>ci. for_until indices (naked_line False ci)) b1 = Some (b', ret)"
      by simp
    from naked_sweep_Some[OF this] 1 False show ?thesis by (cases ret) simp_all
  qed
qed

lemma one_cell_removed_tracks:
  assumes "one_cell_removed b' b"
  shows "allowed_only b' b" and "b' \<noteq> b"
proof -
  from assms obtain r c S T where x: "allowed_at b r c = Some S" "T |\<subset>| S" "b' = set_cell b r c T"
    by (auto simp: one_cell_removed_def)
  show "allowed_only b' b"
    unfolding x(3) by (rule allowed_only_set_cell[OF x(1)]) (use x(2) in auto)
  show "b' \<noteq> b"
  proof
    assume "b' = b"
    then have "set_cell b r c T = set_cell b r c S" by (simp add: x(3)[symmetric] set_cell_same[OF x(1)])
    from set_cell_inj[OF x(1) this] x(2) show False by auto
  qed
qed

lemma TrimNakedSets_tracks: "TrimNakedSets b n = Some (b', ret) \<Longrightarrow> tracks b (b', ret)"
  using TrimNakedSets_Some[of b n b' ret] one_cell_removed_tracks[of b' b]
  by (cases ret) (auto simp: tracks_def allowed_only_refl)


subsection \<open>Found groups\<close>

lemma set_cell_tracks:
  assumes "allowed_at b r c = Some S" and "T |\<subseteq>| S" and "ch \<longleftrightarrow> T \<noteq> S"
  shows "tracks b (set_cell b r c T, ch)"
proof -
  have "set_cell b r c T = b \<longleftrightarrow> T = S"
  proof
    assume "set_cell b r c T = b"
    then have "set_cell b r c T = set_cell b r c S" by (simp add: set_cell_same[OF assms(1)])
    then show "T = S" by (rule set_cell_inj[OF assms(1)])
  next
    assume "T = S"
    then show "set_cell b r c T = b" by (simp add: set_cell_same[OF assms(1)])
  qed
  with allowed_only_set_cell[OF assms(1,2)] assms(3) show ?thesis
    by (simp add: tracks_def)
qed

lemma DisallowOthers_tracks:
  assumes "DisallowOthers b r c toKeep = Some (b', ch)"
  shows "tracks b (b', ch)"
proof -
  from assms obtain S where S: "allowed_at b r c = Some S"
    by (auto simp: DisallowOthers_def bind_eq_Some_conv)
  from DisallowOthers_eq[OF S, of toKeep] assms
  have b': "b' = set_cell b r c (ffilter (\<lambda>k. k \<in> set toKeep) S)"
    and ch: "ch \<longleftrightarrow> (\<exists>k. k |\<in>| S \<and> k \<notin> set toKeep)"
    by simp_all
  show ?thesis
    unfolding b'
    by (rule set_cell_tracks[OF S]) (use ch in auto)
qed

lemma found_line_tracks:
  assumes "found_line by_row nums line s = Some t" and "tracks b0 s"
  shows "tracks b0 t"
proof -
  obtain b ch where s: "s = (b, ch)" by (cases s)
  from assms(1) obtain found where f: "check_found_group b by_row nums line = Some found"
    by (auto simp: found_line_def s bind_eq_Some_conv)
  show ?thesis
  proof (cases found)
    case False
    with assms f show ?thesis by (simp add: found_line_def s)
  next
    case True
    define body where "body = (\<lambda>i (b, changed). do {
               first \<leftarrow> at nums 0;
               a \<leftarrow> (case line_cell by_row line i of (r, c) \<Rightarrow> IsAllowed b r c first);
               if a then do {
                 (b', ch) \<leftarrow> (case line_cell by_row line i of (r, c) \<Rightarrow> DisallowOthers b r c nums);
                 Some (b', changed \<or> ch)
               } else Some (b, changed)
             })"
    from assms(1) f True have run: "for_loop (upto_excl (Size b)) body s = Some t"
      by (simp add: found_line_def s body_def)
    show ?thesis
    proof (rule for_loop_rule[OF run, where I = "tracks b0"])
      show "tracks b0 s" by (rule assms(2))
    next
      fix i u v
      assume u: "tracks b0 u" and st: "body i u = Some v"
      obtain ub uc where uu: "u = (ub, uc)" by (cases u)
      obtain r c where rc: "line_cell by_row line i = (r, c)" by (cases "line_cell by_row line i")
      from st obtain a where a: "IsAllowed ub r c (the (at nums 0)) = Some a"
        by (auto simp: body_def uu rc bind_eq_Some_conv)
      show "tracks b0 v"
      proof (cases a)
        case False
        with st a u show ?thesis by (auto simp: body_def uu rc bind_eq_Some_conv)
      next
        case True
        with st a obtain vb ch' where d: "DisallowOthers ub r c nums = Some (vb, ch')"
          and v: "v = (vb, uc \<or> ch')"
          by (auto simp: body_def uu rc bind_eq_Some_conv)
        from u have "tracks b0 (ub, uc)" by (simp add: uu)
        from tracks_compose[OF this DisallowOthers_tracks[OF d], of "uc \<or> ch'"] v
        show ?thesis by simp
      qed
    qed
  qed
qed

lemma TrimFoundGroups_tracks:
  assumes "TrimFoundGroups b n = Some (b', ch)"
  shows "tracks b (b', ch)"
proof -
  from assms obtain numbers where run: "for_loop numbers
       (\<lambda>nums s. do {
          s1 \<leftarrow> for_loop (upto_excl (Size b)) (found_line True nums) s;
          for_loop (upto_excl (Size b)) (found_line False nums) s1
        }) (b, False) = Some (b', ch)"
    by (auto simp: TrimFoundGroups_def bind_eq_Some_conv)
  have sweep: "tracks b v"
    if "for_loop (upto_excl (Size b)) (found_line by_row nums) u = Some v" "tracks b u"
    for by_row nums u v
    by (rule for_loop_rule[OF that(1), where I = "tracks b"])
       (use that(2) found_line_tracks in blast)+
  show ?thesis
  proof (rule for_loop_rule[OF run, where I = "tracks b"])
    show "tracks b (b, False)" by (rule tracks_init)
  next
    fix nums u v
    assume u: "tracks b u" and
      "do { s1 \<leftarrow> for_loop (upto_excl (Size b)) (found_line True nums) u;
            for_loop (upto_excl (Size b)) (found_line False nums) s1 } = Some v"
    then obtain s1 where 1: "for_loop (upto_excl (Size b)) (found_line True nums) u = Some s1"
      and 2: "for_loop (upto_excl (Size b)) (found_line False nums) s1 = Some v"
      by (auto simp: bind_eq_Some_conv)
    from sweep[OF 2 sweep[OF 1 u]] show "tracks b v" .
  qed
qed


subsection \<open>Permutation lists narrowed from the candidates\<close>

text \<open>\<open>perms_only b' b\<close>: \<open>b'\<close> is \<open>b\<close> with some candidate-permutation lists replaced by
  subsequences of them, and nothing else changed.\<close>

definition perms_only :: "Board \<Rightarrow> Board \<Rightarrow> bool" where
  "perms_only b' b \<longleftrightarrow>
     b' = b\<lparr>RowPerms := RowPerms b', ColPerms := ColPerms b'\<rparr> \<and>
     list_all2 (rel_option subseq) (RowPerms b') (RowPerms b) \<and>
     list_all2 (rel_option subseq) (ColPerms b') (ColPerms b)"

definition ptracks :: "Board \<Rightarrow> Board \<times> bool \<Rightarrow> bool" where
  "ptracks b0 s \<longleftrightarrow> perms_only (fst s) b0 \<and> (snd s \<longleftrightarrow> fst s \<noteq> b0)"

lemma perms_only_refl: "perms_only b b"
  by (simp add: perms_only_def list_all2_refl option.rel_refl)

lemma perms_only_trans:
  assumes "perms_only c b" and "perms_only b a"
  shows "perms_only c a"
proof -
  have 2: "list_all2 (rel_option subseq) (RowPerms c) (RowPerms a)"
    by (rule list_all2_transI[of "rel_option subseq" _ "RowPerms b", OF subseq_rel_trans])
       (use assms in \<open>simp_all add: perms_only_def\<close>)
  have 3: "list_all2 (rel_option subseq) (ColPerms c) (ColPerms a)"
    by (rule list_all2_transI[of "rel_option subseq" _ "ColPerms b", OF subseq_rel_trans])
       (use assms in \<open>simp_all add: perms_only_def\<close>)
  have "c = b\<lparr>RowPerms := RowPerms c, ColPerms := ColPerms c\<rparr>"
    "b = a\<lparr>RowPerms := RowPerms b, ColPerms := ColPerms b\<rparr>"
    using assms by (simp_all add: perms_only_def)
  then have "c = (a\<lparr>RowPerms := RowPerms b, ColPerms := ColPerms b\<rparr>)\<lparr>RowPerms := RowPerms c, ColPerms := ColPerms c\<rparr>"
    by metis
  then have "c = a\<lparr>RowPerms := RowPerms c, ColPerms := ColPerms c\<rparr>" by simp
  with 2 3 show ?thesis by (simp add: perms_only_def)
qed

lemma perms_only_fields:
  assumes "perms_only b' b"
  shows "Grid b' = Grid b" "NumEmpty b' = NumEmpty b" "Size b' = Size b"
    "Observers b' = Observers b" "ObsSorted b' = ObsSorted b" "Perms b' = Perms b"
    "Allowed b' = Allowed b"
proof -
  from assms have e: "b' = b\<lparr>RowPerms := RowPerms b', ColPerms := ColPerms b'\<rparr>"
    by (simp add: perms_only_def)
  show "Grid b' = Grid b" by (subst e) simp
  show "NumEmpty b' = NumEmpty b" by (subst e) simp
  show "Size b' = Size b" by (subst e) simp
  show "Observers b' = Observers b" by (subst e) simp
  show "ObsSorted b' = ObsSorted b" by (subst e) simp
  show "Perms b' = Perms b" by (subst e) simp
  show "Allowed b' = Allowed b" by (subst e) simp
qed

lemma perms_only_shrinks: "perms_only b' b \<Longrightarrow> shrinks b' b"
  using perms_only_fields(7)[of b' b]
  by (simp add: shrinks_def perms_only_def list_all2_refl)

lemma perms_only_frame: "perms_only b' b \<Longrightarrow> same_frame b' b"
  using perms_only_fields[of b' b] by (simp add: same_frame_def)

lemma rel_subseq_eq_or_less: "rel_option subseq x y \<Longrightarrow> x = y \<or> perms_len x < perms_len y"
proof (cases x; cases y)
  fix xs ys assume "rel_option subseq x y" "x = Some xs" "y = Some ys"
  then have s: "subseq xs ys" by simp
  then have "length xs \<le> length ys" by (rule list_emb_length)
  moreover have "xs = ys" if "length xs = length ys"
    using s that by (rule subseq_same_length)
  ultimately show ?thesis using \<open>x = Some xs\<close> \<open>y = Some ys\<close>
    by (auto simp: perms_len_def)
qed auto

lemma perms_only_eq_or_less:
  assumes "perms_only b' b"
  shows "b' = b \<or> total_perms b' < total_perms b"
proof -
  have r: "RowPerms b' = RowPerms b \<or>
           sum_list (map perms_len (RowPerms b')) < sum_list (map perms_len (RowPerms b))"
    by (rule list_all2_eq_or_less[of "rel_option subseq"])
       (use assms rel_subseq_eq_or_less in \<open>simp_all add: perms_only_def\<close>)
  have c: "ColPerms b' = ColPerms b \<or>
           sum_list (map perms_len (ColPerms b')) < sum_list (map perms_len (ColPerms b))"
    by (rule list_all2_eq_or_less[of "rel_option subseq"])
       (use assms rel_subseq_eq_or_less in \<open>simp_all add: perms_only_def\<close>)
  have rl: "sum_list (map perms_len (RowPerms b')) \<le> sum_list (map perms_len (RowPerms b))"
    using r by auto
  have cl: "sum_list (map perms_len (ColPerms b')) \<le> sum_list (map perms_len (ColPerms b))"
    using c by auto
  have "b' = b" if "RowPerms b' = RowPerms b" "ColPerms b' = ColPerms b"
  proof -
    from assms have "b' = b\<lparr>RowPerms := RowPerms b', ColPerms := ColPerms b'\<rparr>"
      by (simp add: perms_only_def)
    then have "b' = b\<lparr>RowPerms := RowPerms b, ColPerms := ColPerms b\<rparr>" by (simp only: that)
    then show ?thesis by simp
  qed
  with r c rl cl show ?thesis by (auto simp: total_perms_def)
qed

lemma ptracks_init: "ptracks b (b, False)"
  by (simp add: ptracks_def perms_only_refl)

lemma ptracks_step:
  assumes "ptracks b0 (b1, ch1)" and "perms_only b2 b1" and "ch2 \<longleftrightarrow> ch1 \<or> b2 \<noteq> b1"
  shows "ptracks b0 (b2, ch2)"
proof -
  from assms(1) have a: "perms_only b1 b0" and f: "ch1 \<longleftrightarrow> b1 \<noteq> b0"
    by (simp_all add: ptracks_def)
  have ao: "perms_only b2 b0" using assms(2) a by (rule perms_only_trans)
  have "b2 \<noteq> b0" if "b2 \<noteq> b1"
  proof -
    from perms_only_eq_or_less[OF assms(2)] that
    have "total_perms b2 < total_perms b1" by simp
    also have "\<dots> \<le> total_perms b0"
      using a by (intro shrinks_total_perms perms_only_shrinks)
    finally show ?thesis by auto
  qed
  with f assms(3) ao show ?thesis by (auto simp: ptracks_def)
qed

lemma new_perms_subseq: "new_perms b by_row line ps = Some qs \<Longrightarrow> subseq qs ps"
proof (induction ps arbitrary: qs)
  case Nil
  then show ?case by simp
next
  case (Cons pi ps)
  from Cons.prems obtain ok rest where r: "new_perms b by_row line ps = Some rest"
    and q: "qs = (if ok then pi # rest else rest)"
    by (auto simp: bind_eq_Some_conv)
  from Cons.IH[OF r] q show ?case by auto
qed

lemma trim_row_perms_ptracks:
  assumes "trim_row_perms ri s = Some t" and "ptracks b0 s"
  shows "ptracks b0 t"
proof -
  obtain u ch where s: "s = (u, ch)" by (cases s)
  from assms(1) obtain rp where rp: "at (RowPerms u) ri = Some rp"
    by (auto simp: trim_row_perms_def s bind_eq_Some_conv)
  show ?thesis
  proof (cases rp)
    case None
    with assms rp show ?thesis by (simp add: trim_row_perms_def s)
  next
    case (Some perms)
    with assms(1) rp obtain newPerms where np: "new_perms u True ri perms = Some newPerms"
      by (auto simp: trim_row_perms_def s bind_eq_Some_conv)
    show ?thesis
    proof (cases "length perms = length newPerms")
      case True
      with assms rp Some np show ?thesis by (simp add: trim_row_perms_def s)
    next
      case False
      from rp have rng: "0 \<le> ri" "nat ri < length (RowPerms u)" "RowPerms u ! nat ri = rp"
        by (auto simp: at_nat split: if_splits)
      define v where "v = u\<lparr>RowPerms := (RowPerms u)[nat ri := Some newPerms]\<rparr>"
      have t: "t = (v, True)"
        using assms(1) rp Some np False rng by (simp add: trim_row_perms_def s put_nat v_def)
      have "list_all2 (rel_option subseq) ((RowPerms u)[nat ri := Some newPerms]) (RowPerms u)"
        by (rule list_all2_update_left)
           (use rng Some new_perms_subseq[OF np] in \<open>simp_all add: list_all2_refl option.rel_refl\<close>)
      then have po: "perms_only v u"
        by (simp add: perms_only_def v_def list_all2_refl option.rel_refl)
      have "RowPerms v ! nat ri \<noteq> RowPerms u ! nat ri"
        using rng Some False by (auto simp: v_def)
      then have ne: "v \<noteq> u" by auto
      from assms(2) have "ptracks b0 (u, ch)" by (simp add: s)
      from ptracks_step[OF this po, of True] ne t show ?thesis by simp
    qed
  qed
qed

lemma trim_col_perms_ptracks:
  assumes "trim_col_perms ci s = Some t" and "ptracks b0 s"
  shows "ptracks b0 t"
proof -
  obtain u ch where s: "s = (u, ch)" by (cases s)
  from assms(1) obtain cp where cp: "at (ColPerms u) ci = Some cp"
    by (auto simp: trim_col_perms_def s bind_eq_Some_conv)
  show ?thesis
  proof (cases cp)
    case None
    with assms cp show ?thesis by (simp add: trim_col_perms_def s)
  next
    case (Some perms)
    with assms(1) cp obtain newPerms where np: "new_perms u False ci perms = Some newPerms"
      by (auto simp: trim_col_perms_def s bind_eq_Some_conv)
    show ?thesis
    proof (cases "length perms = length newPerms")
      case True
      with assms cp Some np show ?thesis by (simp add: trim_col_perms_def s)
    next
      case False
      from cp have rng: "0 \<le> ci" "nat ci < length (ColPerms u)" "ColPerms u ! nat ci = cp"
        by (auto simp: at_nat split: if_splits)
      define v where "v = u\<lparr>ColPerms := (ColPerms u)[nat ci := Some newPerms]\<rparr>"
      have t: "t = (v, True)"
        using assms(1) cp Some np False rng by (simp add: trim_col_perms_def s put_nat v_def)
      have "list_all2 (rel_option subseq) ((ColPerms u)[nat ci := Some newPerms]) (ColPerms u)"
        by (rule list_all2_update_left)
           (use rng Some new_perms_subseq[OF np] in \<open>simp_all add: list_all2_refl option.rel_refl\<close>)
      then have po: "perms_only v u"
        by (simp add: perms_only_def v_def list_all2_refl option.rel_refl)
      have "ColPerms v ! nat ci \<noteq> ColPerms u ! nat ci"
        using rng Some False by (auto simp: v_def)
      then have ne: "v \<noteq> u" by auto
      from assms(2) have "ptracks b0 (u, ch)" by (simp add: s)
      from ptracks_step[OF this po, of True] ne t show ?thesis by simp
    qed
  qed
qed

lemma TrimPermsFromAllowed_ptracks:
  assumes "TrimPermsFromAllowed b = Some (b', ch)"
  shows "ptracks b (b', ch)"
proof -
  from assms obtain s where
    1: "for_loop (upto_excl (int (length (RowPerms b)))) trim_row_perms (b, False) = Some s"
    and 2: "for_loop (upto_excl (int (length (ColPerms b)))) trim_col_perms s = Some (b', ch)"
    by (auto simp: TrimPermsFromAllowed_def bind_eq_Some_conv)
  have "ptracks b s"
    by (rule for_loop_rule[OF 1, where I = "ptracks b"])
       (use ptracks_init trim_row_perms_ptracks in blast)+
  then show ?thesis
    by (intro for_loop_rule[OF 2, where I = "ptracks b"])
       (use trim_col_perms_ptracks in blast)+
qed

subsection \<open>Mark\<close>

lemma Set_fields:
  assumes "Set b ri ci val = Some (b1, ch)"
  shows "Allowed b1 = Allowed b" "RowPerms b1 = RowPerms b" "ColPerms b1 = ColPerms b"
    "Size b1 = Size b" "Perms b1 = Perms b" "Observers b1 = Observers b"
    "ObsSorted b1 = ObsSorted b" "map length (Grid b1) = map length (Grid b)"
proof -
  show "Allowed b1 = Allowed b" "RowPerms b1 = RowPerms b" "ColPerms b1 = ColPerms b"
    "Size b1 = Size b" "Perms b1 = Perms b" "Observers b1 = Observers b"
    "ObsSorted b1 = ObsSorted b"
    using assms by (cases rule: Set_cases; simp)+
  show "map length (Grid b1) = map length (Grid b)"
  proof (use assms in \<open>cases rule: Set_cases\<close>)
    case same
    then show ?thesis by simp
  next
    case (written cur row)
    from written(4) have "nat ri < length (Grid b)" "row = Grid b ! nat ri"
      by (auto simp: at_nat split: if_splits)
    then show ?thesis
      by (simp add: written(7) map_update list_update_same_conv)
  qed
qed

lemma Set_shrinks:
  assumes "Set b ri ci val = Some (b1, ch)"
  shows "shrinks b1 b" and "same_frame b1 b"
  using Set_fields[OF assms]
  by (simp_all add: shrinks_def same_frame_def list_all2_refl option.rel_refl)

lemma Set_allowed_at:
  "Set b ri ci val = Some (b1, ch) \<Longrightarrow> allowed_at b1 r c = allowed_at b r c"
  by (simp add: allowed_at_def Set_fields(1))

lemma delete_member:
  assumes "IsAllowed u r c val = Some True" and "delete_allowed u r c val = Some v"
  shows "allowed_only v u" and "total_allowed v < total_allowed u"
    and "\<And>r' c'. (r', c') \<noteq> (r, c) \<Longrightarrow> allowed_at v r' c' = allowed_at u r' c'"
proof -
  from assms(1) obtain S where S: "allowed_at u r c = Some S" and m: "val |\<in>| S"
    by (auto simp: IsAllowed_def bind_eq_Some_conv)
  from assms(2) delete_allowed_eq[OF S, of val]
  have v: "v = set_cell u r c (S |-| {|val|})" by simp
  show ao: "allowed_only v u"
    unfolding v by (rule allowed_only_set_cell[OF S]) auto
  have "v \<noteq> u"
  proof
    assume "v = u"
    then have "set_cell u r c (S |-| {|val|}) = set_cell u r c S"
      by (simp add: v[symmetric] set_cell_same[OF S])
    from set_cell_inj[OF S this] m show False by auto
  qed
  with allowed_only_eq_or_less[OF ao] show "total_allowed v < total_allowed u" by simp
  show "\<And>r' c'. (r', c') \<noteq> (r, c) \<Longrightarrow> allowed_at v r' c' = allowed_at u r' c'"
    unfolding v using allowed_at_set_cell[OF S] by auto
qed

text \<open>The state of the neighbour loop of \<open>Mark\<close>: candidates only shrink, the flag is up
  only if one was removed, and the marked cell itself is untouched.\<close>

definition nb_inv :: "Board \<Rightarrow> int \<Rightarrow> int \<Rightarrow> Board \<times> bool \<Rightarrow> bool" where
  "nb_inv b1 ri ci s \<longleftrightarrow>
     allowed_only (fst s) b1 \<and>
     (snd s \<longrightarrow> total_allowed (fst s) < total_allowed b1) \<and>
     allowed_at (fst s) ri ci = allowed_at b1 ri ci"

lemma nb_inv_delete:
  assumes "nb_inv b1 ri ci (u, f)" and "IsAllowed u r c val = Some True"
    and "delete_allowed u r c val = Some v" and "(r, c) \<noteq> (ri, ci)"
  shows "nb_inv b1 ri ci (v, True)"
proof -
  from assms(1) have a: "allowed_only u b1" "allowed_at u ri ci = allowed_at b1 ri ci"
    by (simp_all add: nb_inv_def)
  note d = delete_member[OF assms(2,3)]
  have 1: "allowed_only v b1" using d(1) a(1) by (rule allowed_only_trans)
  have "total_allowed u \<le> total_allowed b1"
    using a(1) by (intro shrinks_total_allowed allowed_only_shrinks)
  with d(2) have 2: "total_allowed v < total_allowed b1" by simp
  have 3: "allowed_at v ri ci = allowed_at b1 ri ci"
    using d(3)[of ri ci] assms(4) a(2) by auto
  from 1 2 3 show ?thesis by (simp add: nb_inv_def)
qed

lemma mark_neighbours_inv:
  assumes "mark_neighbours ri ci val i s = Some t" and "nb_inv b1 ri ci s"
  shows "nb_inv b1 ri ci t"
proof -
  obtain u f where s: "s = (u, f)" by (cases s)
  from assms(1) obtain a1 where a1: "(if i \<noteq> ri then IsAllowed u i ci val else Some False) = Some a1"
    by (auto simp: mark_neighbours_def s bind_eq_Some_conv)
  define m where "m = (if a1 then do { b' \<leftarrow> delete_allowed u i ci val; Some (b', True) }
         else Some (u, f))"
  from assms(1) a1 obtain u2 f2 where m: "m = Some (u2, f2)"
    by (auto simp: mark_neighbours_def s bind_eq_Some_conv m_def)
  have mid: "nb_inv b1 ri ci (u2, f2)"
  proof (cases a1)
    case False
    with m assms(2) show ?thesis by (simp add: m_def s)
  next
    case True
    with a1 have ne: "i \<noteq> ri" and ia: "IsAllowed u i ci val = Some True"
      by (auto split: if_splits)
    from m True have d: "delete_allowed u i ci val = Some u2" and "f2"
      by (auto simp: m_def bind_eq_Some_conv)
    from nb_inv_delete[OF _ ia d] assms(2) ne \<open>f2\<close> show ?thesis by (simp add: s)
  qed
  from assms(1) a1 m obtain a2 where
    a2: "(if i \<noteq> ci then IsAllowed u2 ri i val else Some False) = Some a2"
    and t: "(if a2 then do { b' \<leftarrow> delete_allowed u2 ri i val; Some (b', True) }
      else Some (u2, f2)) = Some t"
    by (auto simp: mark_neighbours_def s bind_eq_Some_conv m_def)
  show ?thesis
  proof (cases a2)
    case False
    with t mid show ?thesis by simp
  next
    case True
    with a2 have ne: "i \<noteq> ci" and ia: "IsAllowed u2 ri i val = Some True"
      by (auto split: if_splits)
    from t True obtain v where d: "delete_allowed u2 ri i val = Some v" and tv: "t = (v, True)"
      by (auto simp: bind_eq_Some_conv)
    from nb_inv_delete[OF mid ia d] ne tv show ?thesis by simp
  qed
qed

lemma own_cell_loop:
  assumes "allowed_at b r c = Some S"
  shows "for_loop ks (\<lambda>i b. if i \<noteq> val then delete_allowed b r c i else Some b) (set_cell b r c T) =
           Some (set_cell b r c (T |-| fset_of_list (filter (\<lambda>i. i \<noteq> val) ks)))"
proof (induction ks arbitrary: T)
  case Nil
  then show ?case by simp
next
  case (Cons k ks)
  have a: "allowed_at (set_cell b r c T) r c = Some T"
    using allowed_at_set_cell[OF assms] by simp
  show ?case
  proof (cases "k = val")
    case True
    with Cons.IH[of T] show ?thesis by simp
  next
    case False
    have e: "T |-| {|k|} |-| fset_of_list (filter (\<lambda>i. i \<noteq> val) ks) =
             T |-| fset_of_list (filter (\<lambda>i. i \<noteq> val) (k # ks))"
      using False by auto
    have "for_loop (k # ks) (\<lambda>i b. if i \<noteq> val then delete_allowed b r c i else Some b) (set_cell b r c T) =
          for_loop ks (\<lambda>i b. if i \<noteq> val then delete_allowed b r c i else Some b) (set_cell b r c (T |-| {|k|}))"
      using False by (simp add: delete_allowed_eq[OF a] set_cell_twice[OF assms])
    also have "\<dots> = Some (set_cell b r c (T |-| {|k|} |-| fset_of_list (filter (\<lambda>i. i \<noteq> val) ks)))"
      by (rule Cons.IH)
    finally show ?thesis by (simp only: e)
  qed
qed

lemma delete_allowed_None:
  assumes "allowed_at b r c = None"
  shows "delete_allowed b r c v = None"
proof (cases "at (Allowed b) r")
  case None
  then show ?thesis by (simp add: delete_allowed_def)
next
  case (Some row)
  with assms have "at row c = None" by (simp add: allowed_at_def)
  with Some show ?thesis by (simp add: delete_allowed_def)
qed

lemma own_cell_loop_None:
  assumes "allowed_at b r c = None"
    and "for_loop ks (\<lambda>i b. if i \<noteq> val then delete_allowed b r c i else Some b) b = Some b'"
  shows "b' = b"
  using assms(2)
proof (induction ks)
  case Nil
  then show ?case by simp
next
  case (Cons k ks)
  have "delete_allowed b r c k = None"
    using assms(1) by (rule delete_allowed_None)
  with Cons show ?case by (cases "k = val") simp_all
qed


lemma Mark_unchanged:
  assumes "Mark b ri ci val = Some (b', False, nu)"
  shows "b' = b" and "\<not> nu"
proof -
  from assms obtain b1 ch where S: "Set b ri ci val = Some (b1, ch)"
    by (auto simp: Mark_def bind_eq_Some_conv)
  have "\<not> ch"
  proof
    assume ch
    with assms S show False by (auto simp: Mark_def bind_eq_Some_conv)
  qed
  with assms S have "b' = b1" "\<not> nu" by (auto simp: Mark_def)
  moreover from S \<open>\<not> ch\<close> have "b1 = b" by (cases rule: Set_cases) simp_all
  ultimately show "b' = b" "\<not> nu" by simp_all
qed

lemma Mark_changed:
  assumes "Mark b ri ci val = Some (b', True, nu)"
  obtains b1 where "Set b ri ci val = Some (b1, True)" and "allowed_only b' b1"
    and "nu \<longrightarrow> total_allowed b' < total_allowed b1"
    and "\<And>S. allowed_at b ri ci = Some S \<Longrightarrow>
           allowed_at b' ri ci = Some (ffilter (\<lambda>k. k = val \<or> k < 1 \<or> Size b < k) S)"
proof -
  from assms obtain b1 ch where S: "Set b ri ci val = Some (b1, ch)"
    by (auto simp: Mark_def bind_eq_Some_conv)
  have ch: ch
  proof (rule ccontr)
    assume "\<not> ch"
    with assms S show False by (auto simp: Mark_def)
  qed
  from assms S ch obtain b2 nu2 where
    l1: "for_loop (upto_excl (Size b1)) (\<lambda>i. mark_neighbours ri ci val i) (b1, False) = Some (b2, nu2)"
    and l2: "for_loop [1 .. Size b2] (\<lambda>i b. if i \<noteq> val then delete_allowed b ri ci i else Some b) b2 = Some b'"
    and nu: "nu = nu2"
    by (auto simp: Mark_def bind_eq_Some_conv)
  have inv: "nb_inv b1 ri ci (b2, nu2)"
  proof (rule for_loop_rule[OF l1, where I = "nb_inv b1 ri ci"])
    show "nb_inv b1 ri ci (b1, False)" by (simp add: nb_inv_def allowed_only_refl)
  next
    fix x u v
    assume "nb_inv b1 ri ci u" "mark_neighbours ri ci val x u = Some v"
    then show "nb_inv b1 ri ci v" using mark_neighbours_inv by blast
  qed
  then have ao2: "allowed_only b2 b1" and lt: "nu2 \<longrightarrow> total_allowed b2 < total_allowed b1"
    and same: "allowed_at b2 ri ci = allowed_at b1 ri ci"
    by (simp_all add: nb_inv_def)
  have sz: "Size b2 = Size b" using allowed_only_fields(3)[OF ao2] Set_fields(4)[OF S] by simp
  have own: "allowed_only b' b2 \<and>
     (\<forall>S. allowed_at b2 ri ci = Some S \<longrightarrow>
        allowed_at b' ri ci = Some (ffilter (\<lambda>k. k = val \<or> k < 1 \<or> Size b < k) S))"
  proof (cases "allowed_at b2 ri ci")
    case None
    from own_cell_loop_None[OF None l2] None show ?thesis by (simp add: allowed_only_refl)
  next
    case (Some S2)
    define T where "T = S2 |-| fset_of_list (filter (\<lambda>i. i \<noteq> val) [1 .. Size b2])"
    from own_cell_loop[OF Some, of "[1 .. Size b2]" val S2] l2
    have b': "b' = set_cell b2 ri ci T" by (simp add: set_cell_same[OF Some] T_def)
    have T: "T = ffilter (\<lambda>k. k = val \<or> k < 1 \<or> Size b < k) S2"
      by (auto simp: T_def sz fset_of_list_elem)
    have "allowed_only b' b2"
      unfolding b' by (rule allowed_only_set_cell[OF Some]) (auto simp: T)
    moreover have "allowed_at b' ri ci = Some T"
      unfolding b' using allowed_at_set_cell[OF Some] by simp
    ultimately show ?thesis using Some T by simp
  qed
  show thesis
  proof (rule that[of b1])
    show "Set b ri ci val = Some (b1, True)" using S ch by simp
    show "allowed_only b' b1" using own ao2 by (blast intro: allowed_only_trans)
    have "total_allowed b' \<le> total_allowed b2"
      using own by (intro shrinks_total_allowed allowed_only_shrinks) simp
    with lt nu show "nu \<longrightarrow> total_allowed b' < total_allowed b1" by auto
    fix S0 assume "allowed_at b ri ci = Some S0"
    then have "allowed_at b2 ri ci = Some S0"
      using same Set_allowed_at[OF S] by simp
    with own show "allowed_at b' ri ci = Some (ffilter (\<lambda>k. k = val \<or> k < 1 \<or> Size b < k) S0)"
      by simp
  qed
qed

text \<open>What \<open>Mark\<close> and \<open>MarkMandatory\<close> may change: the grid and its counter, and candidate
  sets, which only shrink.\<close>

definition mark_rel :: "Board \<Rightarrow> Board \<Rightarrow> bool" where
  "mark_rel b' b \<longleftrightarrow>
     shrinks b' b \<and> same_frame b' b \<and> RowPerms b' = RowPerms b \<and> ColPerms b' = ColPerms b"

lemma mark_rel_refl: "mark_rel b b"
  by (simp add: mark_rel_def shrinks_refl same_frame_refl)

lemma mark_rel_trans: "mark_rel c b \<Longrightarrow> mark_rel b a \<Longrightarrow> mark_rel c a"
  unfolding mark_rel_def by (metis shrinks_trans same_frame_trans)

lemma Mark_rel:
  assumes "Mark b ri ci val = Some (b', ch, nu)"
  shows "mark_rel b' b"
proof (cases ch)
  case False
  with assms Mark_unchanged(1)[of b ri ci val b' nu] show ?thesis by (simp add: mark_rel_refl)
next
  case True
  with assms obtain b1 where S: "Set b ri ci val = Some (b1, True)" and ao: "allowed_only b' b1"
    by (auto elim: Mark_changed)
  have "shrinks b' b" using allowed_only_shrinks[OF ao] Set_shrinks(1)[OF S] by (rule shrinks_trans)
  moreover have "same_frame b' b"
    using allowed_only_frame[OF ao] Set_shrinks(2)[OF S] by (rule same_frame_trans)
  moreover have "RowPerms b' = RowPerms b" "ColPerms b' = ColPerms b"
    using allowed_only_fields(7,8)[OF ao] Set_fields(2,3)[OF S] by simp_all
  ultimately show ?thesis by (simp add: mark_rel_def)
qed


subsection \<open>MarkMandatory\<close>

lemma zeros_update_less:
  "i < length xs \<Longrightarrow> xs ! i = 0 \<Longrightarrow> v \<noteq> (0 :: int) \<Longrightarrow>
   length (filter (\<lambda>x. x = 0) (xs[i := v])) < length (filter (\<lambda>x. x = 0) xs)"
proof (induction xs arbitrary: i)
  case Nil
  then show ?case by simp
next
  case (Cons a xs)
  then show ?case by (cases i) auto
qed

lemma Set_empties:
  assumes "Set b ri ci val = Some (b1, True)" and "Get b ri ci = Some 0"
  shows "empties b1 < empties b"
  using assms(1)
proof (cases rule: Set_cases)
  case same
  then show ?thesis by simp
next
  case (written cur row)
  from written(1) assms(2) have cur: "cur = 0" by simp
  with written(2) have val: "val \<noteq> 0" by simp
  from written(4) have r: "nat ri < length (Grid b)" "row = Grid b ! nat ri"
    by (auto simp: at_nat split: if_splits)
  from written(1,4) cur have z: "row ! nat ci = 0"
    by (auto simp: Get_def at_nat split: if_splits)
  have c: "nat ci < length row" using written(5,6) by auto
  have "length (filter (\<lambda>x. x = 0) (row[nat ci := val])) < length (filter (\<lambda>x. x = 0) row)"
    using c z val by (rule zeros_update_less)
  then have "sum_list (map (\<lambda>row. length (filter (\<lambda>v. v = 0) row)) ((Grid b)[nat ri := row[nat ci := val]]))
           < sum_list (map (\<lambda>row. length (filter (\<lambda>v. v = 0) row)) (Grid b))"
    using r by (intro sum_list_update_less) simp_all
  then show ?thesis by (simp add: empties_def written(7))
qed

text \<open>The state of the pass of \<open>MarkMandatory\<close> over the cells, against the board it
  started from.\<close>

definition mm_inv :: "Board \<Rightarrow> Board \<times> bool \<times> bool \<Rightarrow> bool" where
  "mm_inv b0 s \<longleftrightarrow>
     (case s of (u, changed, redo) \<Rightarrow>
        mark_rel u b0 \<and> empties u \<le> empties b0 \<and>
        (changed \<longrightarrow> empties u < empties b0) \<and>
        (redo \<longrightarrow> total_allowed u < total_allowed b0) \<and>
        (\<not> changed \<longrightarrow> u = b0 \<and> \<not> redo))"

lemma mm_inv_init: "mm_inv b (b, False, False)"
  by (simp add: mm_inv_def mark_rel_refl)

lemma mark_cell_inv:
  assumes "mark_cell ri ci s = Some t" and "mm_inv b0 s"
  shows "mm_inv b0 t"
proof -
  obtain u changed redo where s: "s = (u, changed, redo)" by (cases s)
  from assms(1) obtain allowed where al: "allowed_at u ri ci = Some allowed"
    by (auto simp: mark_cell_def s bind_eq_Some_conv)
  show ?thesis
  proof (cases "fcard allowed \<noteq> 1")
    case True
    with assms al show ?thesis by (simp add: mark_cell_def s)
  next
    case one: False
    with assms(1) al obtain g where g: "Get u ri ci = Some g"
      by (auto simp: mark_cell_def s bind_eq_Some_conv)
    show ?thesis
    proof (cases "g \<noteq> EMPTY")
      case True
      with assms al one g show ?thesis by (simp add: mark_cell_def s)
    next
      case False
      then have g0: "Get u ri ci = Some 0" using g by (simp add: EMPTY_def)
      define k where "k = (case sorted_list_of_fset allowed of [] \<Rightarrow> 0 | key # _ \<Rightarrow> key)"
      from assms(1) al one g False obtain v ch nch where
        m: "Mark u ri ci k = Some (v, ch, nch)" and t: "t = (v, changed \<or> ch, redo \<or> nch)"
        by (auto simp: mark_cell_def s bind_eq_Some_conv Let_def k_def)
      from assms(2) have inv: "mark_rel u b0" "empties u \<le> empties b0"
        "changed \<longrightarrow> empties u < empties b0" "redo \<longrightarrow> total_allowed u < total_allowed b0"
        "\<not> changed \<longrightarrow> u = b0 \<and> \<not> redo"
        by (simp_all add: mm_inv_def s)
      show ?thesis
      proof (cases ch)
        case False
        with m Mark_unchanged[of u ri ci k v nch] have "v = u" "\<not> nch" by simp_all
        with t False assms(2) show ?thesis by (simp add: s)
      next
        case True
        with m obtain b1 where S: "Set u ri ci k = Some (b1, True)" and ao: "allowed_only v b1"
          and lt: "nch \<longrightarrow> total_allowed v < total_allowed b1"
          by (auto elim: Mark_changed)
        have e1: "empties b1 < empties u" using S g0 by (rule Set_empties)
        have e2: "empties v = empties b1"
          using allowed_only_fields(1)[OF ao] by (simp add: empties_def)
        have t1: "total_allowed b1 = total_allowed u"
          using Set_fields(1)[OF S] by (simp add: total_allowed_def)
        have t2: "total_allowed v \<le> total_allowed b1"
          using ao by (intro shrinks_total_allowed allowed_only_shrinks)
        have t3: "total_allowed u \<le> total_allowed b0"
          using inv(1) by (intro shrinks_total_allowed) (simp add: mark_rel_def)
        have mr: "mark_rel v b0"
          using Mark_rel[OF m] inv(1) by (rule mark_rel_trans)
        from mr e1 e2 t1 t2 t3 lt inv True show ?thesis
          by (auto simp: mm_inv_def t)
      qed
    qed
  qed
qed

lemma mark_pass_inv:
  assumes "mark_pass b = Some s"
  shows "mm_inv b s"
proof (rule for_loop_rule[OF assms[unfolded mark_pass_def], where I = "mm_inv b"])
  show "mm_inv b (b, False, False)" by (rule mm_inv_init)
next
  fix ri u v
  assume u: "mm_inv b u" and r: "mark_row ri u = Some v"
  from r obtain row :: "int fset list" where
    l: "for_loop (upto_excl (int (length row))) (mark_cell ri) u = Some v"
    by (auto simp: mark_row_def bind_eq_Some_conv)
  show "mm_inv b v"
    by (rule for_loop_rule[OF l, where I = "mm_inv b"]) (use u mark_cell_inv in blast)+
qed

function MarkMandatory :: "Board \<Rightarrow> (Board \<times> bool) option" where
  "MarkMandatory b =
     (case mark_pass b of
        None \<Rightarrow> None
      | Some (b1, changed, redo) \<Rightarrow>
          if redo then
            (case MarkMandatory b1 of None \<Rightarrow> None | Some (b2, _) \<Rightarrow> Some (b2, changed))
          else Some (b1, changed))"
  by pat_completeness auto
termination
proof (relation "measure total_allowed")
  show "wf (measure total_allowed)" by simp
next
  fix b x2 x y x2a xa ya
  assume "mark_pass b = Some x2" "(x, y) = x2" "(xa, ya) = y" "ya"
  then have "mark_pass b = Some (x, xa, True)" by auto
  from mark_pass_inv[OF this] show "(x, b) \<in> measure total_allowed"
    by (simp add: mm_inv_def)
qed

declare MarkMandatory.simps [simp del]


lemma MarkMandatory_Some:
  "MarkMandatory b = Some (b', changed) \<Longrightarrow>
   mark_rel b' b \<and> empties b' \<le> empties b \<and> (changed \<longrightarrow> empties b' < empties b) \<and>
   (\<not> changed \<longrightarrow> b' = b)"
proof (induction b arbitrary: b' changed rule: MarkMandatory.induct)
  case (1 b)
  from "1.prems" obtain b1 c1 redo where p: "mark_pass b = Some (b1, c1, redo)"
    by (subst (asm) MarkMandatory.simps) (auto split: option.splits)
  from mark_pass_inv[OF p] have inv: "mark_rel b1 b" "empties b1 \<le> empties b"
    "c1 \<longrightarrow> empties b1 < empties b" "\<not> c1 \<longrightarrow> b1 = b \<and> \<not> redo"
    by (simp_all add: mm_inv_def)
  show ?case
  proof (cases redo)
    case False
    with "1.prems" p have "b' = b1" "changed = c1"
      by (subst (asm) MarkMandatory.simps; simp)+
    with inv show ?thesis by simp
  next
    case True
    with "1.prems" p obtain c2 where r: "MarkMandatory b1 = Some (b', c2)" and c: "changed = c1"
      by (subst (asm) MarkMandatory.simps) (auto split: option.splits)
    from "1.IH"[OF p refl refl True r]
    have ih: "mark_rel b' b1" "empties b' \<le> empties b1" by simp_all
    from inv True have c1 by auto
    with ih inv c show ?thesis by (auto intro: mark_rel_trans)
  qed
qed

section \<open>The solve driver\<close>

text \<open>One round of the loop of \<open>AutoSolve\<close>: the board it leaves and \<open>changed\<close>.\<close>

definition solve_round :: "Board \<Rightarrow> (Board \<times> bool) option" where
  "solve_round b = do {
     (b1, mm) \<leftarrow> MarkMandatory b;
     (b2, tafp) \<leftarrow> TrimAllowedFromPerms b1;
     (b3, tpfa) \<leftarrow> TrimPermsFromAllowed b2;
     (b4, changed) \<leftarrow>
        (if \<not> (mm \<or> tafp \<or> tpfa)
         then for_until [2 .. Size b3 - 2] (\<lambda>n b. TrimNakedSets b n) b3
         else Some (b3, True));
     if \<not> changed
     then for_until [2 .. Size b4 - 2] (\<lambda>n b. TrimFoundGroups b n) b4
     else Some (b4, True)
   }"

text \<open>The measure that every round with a change lowers: candidates, candidate
  permutations and empty cells, all counted.\<close>

definition work_left :: "Board \<Rightarrow> nat" where
  "work_left b = total_allowed b + total_perms b + empties b"

text \<open>\<open>progress b' b ch\<close>: \<open>b'\<close> comes from \<open>b\<close> by removals only; with the flag down nothing
  changed, and with the flag up the measure dropped.\<close>

definition progress :: "Board \<Rightarrow> Board \<Rightarrow> bool \<Rightarrow> bool" where
  "progress b' b ch \<longleftrightarrow>
     shrinks b' b \<and> same_frame b' b \<and> work_left b' \<le> work_left b \<and>
     (ch \<longrightarrow> work_left b' < work_left b) \<and> (\<not> ch \<longrightarrow> b' = b)"

lemma progress_refl: "progress b b False"
  by (simp add: progress_def shrinks_refl same_frame_refl)

lemma progress_trans:
  "progress b1 b c1 \<Longrightarrow> progress b2 b1 c2 \<Longrightarrow> progress b2 b (c1 \<or> c2)"
  unfolding progress_def
  by (auto intro: shrinks_trans same_frame_trans)

lemma tracks_progress:
  assumes "tracks b (b', ch)"
  shows "progress b' b ch"
proof -
  from assms have ao: "allowed_only b' b" and f: "ch \<longleftrightarrow> b' \<noteq> b" by (simp_all add: tracks_def)
  have e: "empties b' = empties b" "total_perms b' = total_perms b"
    using allowed_only_fields[OF ao] by (simp_all add: empties_def total_perms_def)
  have le: "total_allowed b' \<le> total_allowed b"
    using ao by (intro shrinks_total_allowed allowed_only_shrinks)
  from allowed_only_eq_or_less[OF ao] f e le allowed_only_shrinks[OF ao] allowed_only_frame[OF ao]
  show ?thesis by (auto simp: progress_def work_left_def)
qed

lemma ptracks_progress:
  assumes "ptracks b (b', ch)"
  shows "progress b' b ch"
proof -
  from assms have po: "perms_only b' b" and f: "ch \<longleftrightarrow> b' \<noteq> b" by (simp_all add: ptracks_def)
  have e: "empties b' = empties b" "total_allowed b' = total_allowed b"
    using perms_only_fields[OF po] by (simp_all add: empties_def total_allowed_def)
  have le: "total_perms b' \<le> total_perms b"
    using po by (intro shrinks_total_perms perms_only_shrinks)
  from perms_only_eq_or_less[OF po] f e le perms_only_shrinks[OF po] perms_only_frame[OF po]
  show ?thesis by (auto simp: progress_def work_left_def)
qed

lemma MarkMandatory_progress:
  assumes "MarkMandatory b = Some (b', ch)"
  shows "progress b' b ch"
proof -
  from MarkMandatory_Some[OF assms] have mr: "mark_rel b' b" and e: "empties b' \<le> empties b"
    "ch \<longrightarrow> empties b' < empties b" "\<not> ch \<longrightarrow> b' = b"
    by simp_all
  from mr have s: "shrinks b' b" "same_frame b' b" "RowPerms b' = RowPerms b" "ColPerms b' = ColPerms b"
    by (simp_all add: mark_rel_def)
  have "total_perms b' = total_perms b" using s(3,4) by (simp add: total_perms_def)
  with shrinks_total_allowed[OF s(1)] e s show ?thesis
    by (auto simp: progress_def work_left_def)
qed

lemma until_progress:
  assumes "for_until ns op b = Some (b', ch)"
    and "\<And>n u v f. op n u = Some (v, f) \<Longrightarrow> progress v u f"
  shows "progress b' b ch"
proof -
  have "if ch then progress b' b True else b' = b"
  proof (rule for_until_rule[OF assms(1), where I = "\<lambda>u. u = b" and Q = "\<lambda>v. progress v b True"])
    show "b = b" by simp
  next
    fix x u v assume "u = b" "op x u = Some (v, False)"
    with assms(2)[of x u v False] show "v = b" by (simp add: progress_def)
  next
    fix x u v assume "u = b" "op x u = Some (v, True)"
    with assms(2)[of x u v True] show "progress v b True" by simp
  qed
  then show ?thesis by (cases ch) (simp_all add: progress_refl)
qed

lemma solve_round_progress:
  assumes "solve_round b = Some (b', ch)"
  shows "progress b' b ch"
proof -
  from assms obtain b1 mm b2 tafp b3 tpfa b4 c4 where
    1: "MarkMandatory b = Some (b1, mm)"
    and 2: "TrimAllowedFromPerms b1 = Some (b2, tafp)"
    and 3: "TrimPermsFromAllowed b2 = Some (b3, tpfa)"
    and 4: "(if \<not> (mm \<or> tafp \<or> tpfa)
         then for_until [2 .. Size b3 - 2] (\<lambda>n b. TrimNakedSets b n) b3
         else Some (b3, True)) = Some (b4, c4)"
    and 5: "(if \<not> c4
         then for_until [2 .. Size b4 - 2] (\<lambda>n b. TrimFoundGroups b n) b4
         else Some (b4, True)) = Some (b', ch)"
    by (auto simp: solve_round_def bind_eq_Some_conv)
  have p1: "progress b1 b mm" using 1 by (rule MarkMandatory_progress)
  have p2: "progress b2 b1 tafp"
    using TrimAllowedFromPerms_spec(1)[OF 2] by (rule tracks_progress)
  have p3: "progress b3 b2 tpfa"
    using TrimPermsFromAllowed_ptracks[OF 3] by (rule ptracks_progress)
  have p123: "progress b3 b (mm \<or> tafp \<or> tpfa)"
    using progress_trans[OF progress_trans[OF p1 p2] p3] by (simp add: disj_assoc)
  have p4: "progress b4 b c4"
  proof (cases "mm \<or> tafp \<or> tpfa")
    case True
    with 4 p123 show ?thesis by auto
  next
    case False
    with 4 have "for_until [2 .. Size b3 - 2] (\<lambda>n b. TrimNakedSets b n) b3 = Some (b4, c4)"
      by simp
    then have "progress b4 b3 c4"
      by (rule until_progress) (blast intro: tracks_progress TrimNakedSets_tracks)
    from progress_trans[OF p123 this] False show ?thesis by simp
  qed
  show ?thesis
  proof (cases c4)
    case True
    with 5 p4 show ?thesis by auto
  next
    case False
    with 5 have "for_until [2 .. Size b4 - 2] (\<lambda>n b. TrimFoundGroups b n) b4 = Some (b', ch)"
      by simp
    then have "progress b' b4 ch"
      by (rule until_progress) (blast intro: tracks_progress TrimFoundGroups_tracks)
    from progress_trans[OF p4 this] False show ?thesis by simp
  qed
qed

text \<open>The loop of \<open>AutoSolve\<close>, entered with \<open>changed\<close> true.\<close>

function autosolve_loop :: "Board \<Rightarrow> Board option" where
  "autosolve_loop b =
     (case Solved b of
        None \<Rightarrow> None
      | Some v \<Rightarrow>
          if v = Solved_ok then Some b
          else (case solve_round b of
                  None \<Rightarrow> None
                | Some (b', changed) \<Rightarrow> if changed then autosolve_loop b' else Some b'))"
  by pat_completeness auto
termination
proof (relation "measure work_left")
  show "wf (measure work_left)" by simp
next
  fix b v x2 x y
  assume "solve_round b = Some x2" "(x, y) = x2" "y"
  then have "solve_round b = Some (x, True)" by auto
  from solve_round_progress[OF this] show "(x, b) \<in> measure work_left"
    by (simp add: progress_def)
qed

declare autosolve_loop.simps [simp del]

text \<open>\<open>AutoSolve\<close> returns the board it leaves and the error of its final \<open>Solved\<close>.\<close>

definition AutoSolve :: "Board \<Rightarrow> (Board \<times> verdict) option" where
  "AutoSolve b = do { b' \<leftarrow> autosolve_loop b; v \<leftarrow> Solved b'; Some (b', v) }"

section \<open>The constructor\<close>

definition NumSet :: "int \<Rightarrow> int fset" where
  "NumSet n = fset_of_list [1 .. n]"

definition NewAllowed :: "int \<Rightarrow> int fset list list" where
  "NewAllowed n = replicate (nat n) (replicate (nat n) (NumSet n))"

text \<open>\<open>AddObserver\<close>; \<open>None\<close> is its panic on an occupied slot (or an index out of
  range).\<close>

definition AddObserver :: "Board \<Rightarrow> Observer \<Rightarrow> Board option" where
  "AddObserver b ob =
     (if Count ob = 0 then Some b
      else
        let ind0 = (if Type ob = OBS_ROW then Index ob * 2 else Size b * 2 + (Index ob * 2));
            ind = (if Direction ob = OBS_BWD then ind0 + 1 else ind0)
        in do {
          cur \<leftarrow> at (ObsSorted b) ind;
          if cur \<noteq> None then None
          else do {
            sorted \<leftarrow> put (ObsSorted b) ind (Some ob);
            Some (b\<lparr>Observers := Observers b @ [ob], ObsSorted := sorted\<rparr>)
          }
        })"

definition PermsForObs :: "Board \<Rightarrow> Observer option \<Rightarrow> Observer option \<Rightarrow> int list option" where
  "PermsForObs b fwd bwd =
     (if fwd = None \<and> bwd = None then None
      else Some (filter (\<lambda>i. PermFitsObs (Perms b ! nat i) fwd bwd)
                   (upto_excl (int (length (Perms b))))))"

definition PopulateRowColPerms :: "Board \<Rightarrow> Board option" where
  "PopulateRowColPerms b = do {
     (b1, pi1) \<leftarrow> for_loop (upto_excl (Size b))
        (\<lambda>ri (b, pi). do {
           fwd \<leftarrow> at (ObsSorted b) pi;
           bwd \<leftarrow> at (ObsSorted b) (pi + 1);
           rps \<leftarrow> put (RowPerms b) ri (PermsForObs b fwd bwd);
           Some (b\<lparr>RowPerms := rps\<rparr>, pi + 2)
         }) (b, 0);
     (b2, pi2) \<leftarrow> for_loop (upto_excl (Size b1))
        (\<lambda>ci (b, pi). do {
           fwd \<leftarrow> at (ObsSorted b) pi;
           bwd \<leftarrow> at (ObsSorted b) (pi + 1);
           cps \<leftarrow> put (ColPerms b) ci (PermsForObs b fwd bwd);
           Some (b\<lparr>ColPerms := cps\<rparr>, pi + 2)
         }) (b1, pi1);
     Some b2
   }"

text \<open>A line of the input: its characters in order, each with the number of bytes of its
  encoding, since \<open>range\<close> over a string gives each character with its byte offset.\<close>

type_synonym line = "(int \<times> int) list"

fun with_offsets :: "int \<Rightarrow> line \<Rightarrow> (int \<times> int) list" where
  "with_offsets off [] = []"
| "with_offsets off ((ch, w) # rest) = (off, ch) # with_offsets (off + w) rest"

text \<open>A line of one-byte characters.\<close>

definition ascii :: "int list \<Rightarrow> line" where
  "ascii chs = map (\<lambda>ch. (ch, 1)) chs"

text \<open>The first loop of \<open>BoardFromString\<close> over the lines: every character, through
  \<open>ChToInt\<close>, into \<open>inputs\<close>.\<close>

definition fill_inputs :: "line list \<Rightarrow> int list list \<Rightarrow> int list list option" where
  "fill_inputs lines inputs =
     for_loop (enumerate 0 lines)
       (\<lambda>(ri, row). for_loop (with_offsets 0 row)
          (\<lambda>(ci, ch) inputs. do {
             r \<leftarrow> at inputs (int ri);
             r' \<leftarrow> put r ci (ChToInt ch);
             put inputs (int ri) r'
           }))
       inputs"

text \<open>The body of the second loop, for the cell \<open>(ri, ci)\<close> of \<open>inputs\<close>: a clue on the
  border, a given inside.\<close>

definition place_cell :: "int \<Rightarrow> int \<Rightarrow> int \<Rightarrow> Board \<Rightarrow> Board option" where
  "place_cell ri ci cell b =
     (if ri = 0 \<or> ri = Size b + 1 then
        (if ci = 0 \<or> ci = Size b + 1 then Some b
         else AddObserver b
                \<lparr>Type = OBS_COL, Index = ci - 1,
                 Direction = (if ri = Size b + 1 then OBS_BWD else OBS_FWD), Count = cell\<rparr>)
      else if ci = 0 \<or> ci = Size b + 1 then
        AddObserver b
          \<lparr>Type = OBS_ROW, Index = ri - 1,
           Direction = (if ci = Size b + 1 then OBS_BWD else OBS_FWD), Count = cell\<rparr>
      else do { (b', ch, nu) \<leftarrow> Mark b (ri - 1) (ci - 1) cell; Some b' })"

text \<open>
  \<open>BoardFromString\<close>, from the non-empty trimmed lines of the input on (the splitting and
  trimming of the string are library calls and stay outside). \<open>make\<close> panics on the
  negative size that fewer than two lines give; its upper limit would take an input of
  more than \<open>2^43\<close> lines to reach and is left out here.
\<close>

definition BoardFromLines :: "line list \<Rightarrow> Board option" where
  "BoardFromLines lines =
     (let size = int (length lines) - 2 in
      if size < 0 then None
      else do {
        let b0 = \<lparr>Grid = replicate (nat size) (replicate (nat size) 0),
                  Allowed = NewAllowed size,
                  NumEmpty = wrap64 (size * size), Size = size,
                  Observers = [], ObsSorted = replicate (nat (size * 4)) None,
                  Perms = [],
                  RowPerms = replicate (nat size) None, ColPerms = replicate (nat size) None\<rparr>;
        inputs \<leftarrow> fill_inputs lines (replicate (nat (size + 2)) (replicate (nat (size + 2)) 0));
        b1 \<leftarrow> for_loop (enumerate 0 inputs)
                (\<lambda>(ri, row). for_loop (enumerate 0 row)
                   (\<lambda>(ci, cell). place_cell (int ri) (int ci) cell))
                b0;
        perms \<leftarrow> PermuteN (Size b1);
        b2 \<leftarrow> PopulateRowColPerms (b1\<lparr>Perms := perms\<rparr>);
        (b3, changed) \<leftarrow> TrimAllowedFromPerms b2;
        Some b3
      })"

text \<open>The 2-by-2 puzzle whose first row has the clue 2 on its left and the given 2 in its
  first cell: the clue wants the row to be 1, 2.\<close>

definition lines_contradiction :: "line list" where
  "lines_contradiction =
     map ascii [[32, 32, 32, 32], [50, 50, 32, 32], [32, 32, 32, 32], [32, 32, 32, 32]]"



section \<open>Well-formed boards\<close>

text \<open>The shape that the constructor gives a board and that every operation keeps: square
  grid and candidate table of the board's size, one permutation list per line, indices
  into \<open>Perms\<close> in range, permutations of the board's width, observers on lines of the
  board.\<close>

definition wf_board :: "Board \<Rightarrow> bool" where
  "wf_board b \<longleftrightarrow>
     0 \<le> Size b \<and>
     length (Grid b) = nat (Size b) \<and> (\<forall>row \<in> set (Grid b). length row = nat (Size b)) \<and>
     length (Allowed b) = nat (Size b) \<and> (\<forall>row \<in> set (Allowed b). length row = nat (Size b)) \<and>
     length (RowPerms b) = nat (Size b) \<and> length (ColPerms b) = nat (Size b) \<and>
     (\<forall>ps. Some ps \<in> set (RowPerms b) \<union> set (ColPerms b) \<longrightarrow>
        (\<forall>pi \<in> set ps. 0 \<le> pi \<and> nat pi < length (Perms b))) \<and>
     (\<forall>p \<in> set (Perms b). length p = nat (Size b)) \<and>
     (\<forall>ob \<in> set (Observers b).
        (Type ob = OBS_ROW \<or> Type ob = OBS_COL) \<and> 0 \<le> Index ob \<and> Index ob < Size b)"

lemma wf_allowed_at:
  assumes "wf_board b" and "0 \<le> r" and "r < Size b" and "0 \<le> c" and "c < Size b"
  shows "\<exists>S. allowed_at b r c = Some S"
proof -
  from assms have r: "nat r < length (Allowed b)" by (simp add: wf_board_def)
  then have "Allowed b ! nat r \<in> set (Allowed b)" by simp
  with assms have "nat c < length (Allowed b ! nat r)" by (simp add: wf_board_def)
  with r assms(2,4) show ?thesis by (simp add: allowed_at_Some_iff)
qed

lemma wf_Get:
  assumes "wf_board b" and "0 \<le> r" and "r < Size b" and "0 \<le> c" and "c < Size b"
  shows "\<exists>g. Get b r c = Some g"
proof -
  from assms have r: "nat r < length (Grid b)" by (simp add: wf_board_def)
  then have "Grid b ! nat r \<in> set (Grid b)" by simp
  with assms have "nat c < length (Grid b ! nat r)" by (simp add: wf_board_def)
  with r assms(2,4) show ?thesis by (simp add: Get_def at_nat)
qed

lemma wf_IsAllowed:
  assumes "wf_board b" and "0 \<le> r" and "r < Size b" and "0 \<le> c" and "c < Size b"
  shows "\<exists>a. IsAllowed b r c v = Some a"
  using wf_allowed_at[OF assms] by (auto simp: IsAllowed_def)

lemma wf_preserved:
  assumes "wf_board b" and "shrinks b' b" and "same_frame b' b"
  shows "wf_board b'"
proof -
  define n where "n = nat (Size b)"
  from assms(3) have f: "Size b' = Size b" "Perms b' = Perms b" "Observers b' = Observers b"
    "map length (Grid b') = map length (Grid b)"
    by (simp_all add: same_frame_def)
  from assms(2) have s: "list_all2 (list_all2 (|\<subseteq>|)) (Allowed b') (Allowed b)"
    "list_all2 (rel_option subseq) (RowPerms b') (RowPerms b)"
    "list_all2 (rel_option subseq) (ColPerms b') (ColPerms b)"
    by (simp_all add: shrinks_def)
  have "length (map length (Grid b')) = length (map length (Grid b))" by (simp only: f(4))
  then have "length (Grid b') = length (Grid b)" by simp
  with assms(1) have g1: "length (Grid b') = n" by (simp add: wf_board_def n_def)
  have g2: "\<forall>row \<in> set (Grid b'). length row = n"
  proof
    fix row assume "row \<in> set (Grid b')"
    then have "length row \<in> set (map length (Grid b'))" by simp
    then have "length row \<in> set (map length (Grid b))" by (simp only: f(4))
    with assms(1) show "length row = n" by (auto simp: wf_board_def n_def)
  qed
  have a1: "length (Allowed b') = n"
    using list_all2_lengthD[OF s(1)] assms(1) by (simp add: wf_board_def n_def)
  have a2: "\<forall>row \<in> set (Allowed b'). length row = n"
  proof
    fix row assume "row \<in> set (Allowed b')"
    then obtain i where i: "i < length (Allowed b')" "row = Allowed b' ! i"
      by (auto simp: in_set_conv_nth)
    with s(1) have "list_all2 (|\<subseteq>|) row (Allowed b ! i)" "i < length (Allowed b)"
      by (simp_all add: list_all2_conv_all_nth)
    then have "length row = length (Allowed b ! i)" "Allowed b ! i \<in> set (Allowed b)"
      by (simp_all add: list_all2_lengthD)
    with assms(1) show "length row = n" by (simp add: wf_board_def n_def)
  qed
  have p1: "length (RowPerms b') = n" "length (ColPerms b') = n"
    using list_all2_lengthD[OF s(2)] list_all2_lengthD[OF s(3)] assms(1)
    by (simp_all add: wf_board_def n_def)
  have sub: "\<exists>qs. Some qs \<in> set ys \<and> set ps \<subseteq> set qs"
    if "list_all2 (rel_option subseq) xs ys" "Some ps \<in> set xs" for xs ys and ps :: "int list"
  proof -
    from that(2) obtain i where i: "i < length xs" "xs ! i = Some ps"
      by (auto simp: in_set_conv_nth)
    with that(1) have "rel_option subseq (Some ps) (ys ! i)" "i < length ys"
      by (auto simp: list_all2_conv_all_nth)
    then obtain qs where "ys ! i = Some qs" "subseq ps qs"
      by (cases "ys ! i") auto
    moreover from this(2) have "set ps \<subseteq> set qs" by (auto elim: list_emb_set)
    ultimately show ?thesis using \<open>i < length ys\<close> by (metis nth_mem)
  qed
  have p2: "\<forall>ps. Some ps \<in> set (RowPerms b') \<union> set (ColPerms b') \<longrightarrow>
        (\<forall>pi \<in> set ps. 0 \<le> pi \<and> nat pi < length (Perms b'))"
  proof (intro allI impI ballI)
    fix ps pi assume ps: "Some ps \<in> set (RowPerms b') \<union> set (ColPerms b')" and pi: "pi \<in> set ps"
    from ps sub[OF s(2)] sub[OF s(3)] obtain qs where
      "Some qs \<in> set (RowPerms b) \<union> set (ColPerms b)" "set ps \<subseteq> set qs"
      by blast
    with pi assms(1) show "0 \<le> pi \<and> nat pi < length (Perms b')"
      unfolding wf_board_def f(2) by blast
  qed
  from assms(1) g1 g2 a1 a2 p1 p2 show ?thesis
    unfolding wf_board_def f n_def[symmetric] by simp
qed


lemma wf_allowed_only: "wf_board b \<Longrightarrow> allowed_only b' b \<Longrightarrow> wf_board b' \<and> Size b' = Size b"
  using wf_preserved[OF _ allowed_only_shrinks allowed_only_frame, of b b']
  by (simp add: allowed_only_fields(3))

lemma wf_mark_rel: "wf_board b \<Longrightarrow> mark_rel b' b \<Longrightarrow> wf_board b' \<and> Size b' = Size b"
  using wf_preserved[of b b'] by (simp add: mark_rel_def same_frame_def)

lemma wf_progress: "wf_board b \<Longrightarrow> progress b' b ch \<Longrightarrow> wf_board b' \<and> Size b' = Size b"
  using wf_preserved[of b b'] by (simp add: progress_def same_frame_def)

subsection \<open>No operation panics on a well-formed board\<close>

lemma ex_bool [simp]: "\<exists>x :: bool. x" "\<exists>x :: bool. \<not> x"
  by auto

lemma Set_total:
  assumes "Get b ri ci = Some g"
  shows "\<exists>b1 ch. Set b ri ci val = Some (b1, ch)"
proof -
  from assms obtain row where row: "at (Grid b) ri = Some row" "at row ci = Some g"
    by (auto simp: Get_def bind_eq_Some_conv)
  from put_total[OF row(2)] obtain row' where r': "put row ci val = Some row'" by blast
  from put_total[OF row(1)] obtain g' where g': "put (Grid b) ri row' = Some g'" by blast
  show ?thesis
    using assms row r' g' by (auto simp: Set_def Let_def)
qed

lemma delete_total:
  assumes "wf_board u" and "0 \<le> r" and "r < Size u" and "0 \<le> c" and "c < Size u"
  shows "\<exists>v. delete_allowed u r c k = Some v \<and> wf_board v \<and> Size v = Size u"
proof -
  from wf_allowed_at[OF assms] obtain S where S: "allowed_at u r c = Some S" by blast
  have "allowed_only (set_cell u r c (S |-| {|k|})) u"
    by (rule allowed_only_set_cell[OF S]) auto
  from wf_allowed_only[OF assms(1) this] delete_allowed_eq[OF S, of k] show ?thesis by simp
qed

lemma mark_neighbours_total:
  assumes "wf_board u" and "0 \<le> ri" and "ri < Size u" and "0 \<le> ci" and "ci < Size u"
    and "0 \<le> i" and "i < Size u"
  shows "\<exists>t. mark_neighbours ri ci val i (u, f) = Some t \<and> wf_board (fst t) \<and> Size (fst t) = Size u"
proof -
  obtain a1 where a1: "(if i \<noteq> ri then IsAllowed u i ci val else Some False) = Some a1"
    using wf_IsAllowed[OF assms(1,6,7,4,5), of val] by (cases "i = ri") auto
  obtain u2 f2 where s2:
      "(if a1 then do { b' \<leftarrow> delete_allowed u i ci val; Some (b', True) } else Some (u, f))
         = Some (u2, f2)"
    and w2: "wf_board u2" "Size u2 = Size u"
    using delete_total[OF assms(1,6,7,4,5), of val] assms(1) by (cases a1) auto
  from w2 assms have rng: "ri < Size u2" "i < Size u2" by simp_all
  obtain a2 where a2: "(if i \<noteq> ci then IsAllowed u2 ri i val else Some False) = Some a2"
    using wf_IsAllowed[OF w2(1) assms(2) rng(1) assms(6) rng(2), of val] by (cases "i = ci") auto
  obtain t where s3:
      "(if a2 then do { b' \<leftarrow> delete_allowed u2 ri i val; Some (b', True) } else Some (u2, f2))
         = Some t"
    and w3: "wf_board (fst t)" "Size (fst t) = Size u"
    using delete_total[OF w2(1) assms(2) rng(1) assms(6) rng(2), of val] w2 by (cases a2) auto
  have "mark_neighbours ri ci val i (u, f) = Some t"
    unfolding mark_neighbours_def by (simp add: a1 s2 a2 s3)
  with w3 show ?thesis by simp
qed

lemma Mark_total:
  assumes "wf_board b" and "0 \<le> ri" and "ri < Size b" and "0 \<le> ci" and "ci < Size b"
  shows "\<exists>res. Mark b ri ci val = Some res"
proof -
  from wf_Get[OF assms] obtain g where "Get b ri ci = Some g" by blast
  from Set_total[OF this] obtain b1 ch where s: "Set b ri ci val = Some (b1, ch)" by blast
  show ?thesis
  proof (cases ch)
    case False
    with s show ?thesis by (auto simp: Mark_def)
  next
    case True
    from wf_preserved[OF assms(1) Set_shrinks[OF s]] Set_fields(4)[OF s]
    have w1: "wf_board b1" "Size b1 = Size b" by simp_all
    have "\<exists>t. for_loop (upto_excl (Size b1)) (\<lambda>i. mark_neighbours ri ci val i) (b1, False) = Some t
            \<and> (wf_board (fst t) \<and> Size (fst t) = Size b)"
    proof (rule for_loop_total)
      show "wf_board (fst (b1, False)) \<and> Size (fst (b1, False)) = Size b" using w1 by simp
    next
      fix x and u :: "Board \<times> bool"
      assume x: "x \<in> set (upto_excl (Size b1))" and u: "wf_board (fst u) \<and> Size (fst u) = Size b"
      from x w1 have "0 \<le> x" "x < Size b" by (simp_all add: set_upto_excl)
      with mark_neighbours_total[of "fst u" ri ci x val "snd u"] u assms
      show "\<exists>v. mark_neighbours ri ci val x u = Some v \<and> (wf_board (fst v) \<and> Size (fst v) = Size b)"
        by simp
    qed
    then obtain b2 nu where l1: "for_loop (upto_excl (Size b1)) (\<lambda>i. mark_neighbours ri ci val i) (b1, False) = Some (b2, nu)"
      and w2: "wf_board b2" "Size b2 = Size b"
      by auto
    have "\<exists>t. for_loop [1 .. Size b2] (\<lambda>i b. if i \<noteq> val then delete_allowed b ri ci i else Some b) b2 = Some t
            \<and> (wf_board t \<and> Size t = Size b)"
    proof (rule for_loop_total)
      show "wf_board b2 \<and> Size b2 = Size b" using w2 by simp
    next
      fix x u
      assume u: "wf_board u \<and> Size u = Size b"
      with delete_total[of u ri ci x] assms
      show "\<exists>v. (if x \<noteq> val then delete_allowed u ri ci x else Some u) = Some v \<and> (wf_board v \<and> Size v = Size b)"
        by (cases "x = val") auto
    qed
    then obtain b3 where l2: "for_loop [1 .. Size b2] (\<lambda>i b. if i \<noteq> val then delete_allowed b ri ci i else Some b) b2 = Some b3"
      by auto
    from s True l1 l2 show ?thesis by (auto simp: Mark_def)
  qed
qed

lemma mark_cell_total:
  assumes "wf_board (fst s)" and "0 \<le> ri" and "ri < Size (fst s)" and "0 \<le> ci" and "ci < Size (fst s)"
  shows "\<exists>t. mark_cell ri ci s = Some t \<and> wf_board (fst t) \<and> Size (fst t) = Size (fst s)"
proof -
  obtain u changed redo where sv: "s = (u, changed, redo)" by (cases s) auto
  from assms sv have w: "wf_board u" "ri < Size u" "ci < Size u" by simp_all
  from wf_allowed_at[OF w(1) assms(2) w(2) assms(4) w(3)] obtain S where S: "allowed_at u ri ci = Some S" by blast
  from wf_Get[OF w(1) assms(2) w(2) assms(4) w(3)] obtain g where g: "Get u ri ci = Some g" by blast
  show ?thesis
  proof (cases "fcard S \<noteq> 1 \<or> g \<noteq> EMPTY")
    case True
    with S g sv w show ?thesis by (auto simp: mark_cell_def)
  next
    case False
    define k where "k = (case sorted_list_of_fset S of [] \<Rightarrow> 0 | key # _ \<Rightarrow> key)"
    from Mark_total[OF w(1) assms(2) w(2) assms(4) w(3), of k]
    obtain b' ch nch where m: "Mark u ri ci k = Some (b', ch, nch)" by (metis prod_cases3)
    from wf_mark_rel[OF w(1) Mark_rel[OF m]] have "wf_board b'" "Size b' = Size u" by simp_all
    moreover have "mark_cell ri ci s = Some (b', changed \<or> ch, redo \<or> nch)"
      using False S g m by (simp add: mark_cell_def sv k_def)
    ultimately show ?thesis using sv by simp
  qed
qed

lemma mark_pass_total:
  assumes "wf_board b"
  shows "\<exists>s. mark_pass b = Some s"
proof -
  have "\<exists>t. for_loop (upto_excl (int (length (Allowed b)))) mark_row (b, False, False) = Some t
          \<and> (wf_board (fst t) \<and> Size (fst t) = Size b)"
  proof (rule for_loop_total)
    show "wf_board (fst (b, False, False)) \<and> Size (fst (b, False, False)) = Size b"
      using assms by simp
  next
    fix ri and s :: "Board \<times> bool \<times> bool"
    assume ri: "ri \<in> set (upto_excl (int (length (Allowed b))))"
      and s: "wf_board (fst s) \<and> Size (fst s) = Size b"
    from ri assms have r: "0 \<le> ri" "ri < Size b" by (simp_all add: set_upto_excl wf_board_def)
    with s have n: "nat ri < length (Allowed (fst s))" by (simp add: wf_board_def)
    then have "Allowed (fst s) ! nat ri \<in> set (Allowed (fst s))" by simp
    with s have len: "length (Allowed (fst s) ! nat ri) = nat (Size b)" by (simp add: wf_board_def)
    have row: "at (Allowed (fst s)) ri = Some (Allowed (fst s) ! nat ri)"
      using r n by (simp add: at_nat)
    have "\<exists>t. for_loop (upto_excl (int (length (Allowed (fst s) ! nat ri)))) (mark_cell ri) s = Some t
            \<and> (wf_board (fst t) \<and> Size (fst t) = Size b)"
    proof (rule for_loop_total)
      show "wf_board (fst s) \<and> Size (fst s) = Size b" by (rule s)
    next
      fix ci and u :: "Board \<times> bool \<times> bool"
      assume ci: "ci \<in> set (upto_excl (int (length (Allowed (fst s) ! nat ri))))"
        and u: "wf_board (fst u) \<and> Size (fst u) = Size b"
      from ci len r have "0 \<le> ci" "ci < Size b" by (simp_all add: set_upto_excl)
      with mark_cell_total[of u ri ci] u r
      show "\<exists>v. mark_cell ri ci u = Some v \<and> (wf_board (fst v) \<and> Size (fst v) = Size b)" by simp
    qed
    with row show "\<exists>t. mark_row ri s = Some t \<and> (wf_board (fst t) \<and> Size (fst t) = Size b)"
      by (simp add: mark_row_def)
  qed
  then show ?thesis by (auto simp: mark_pass_def)
qed

lemma MarkMandatory_total: "wf_board b \<Longrightarrow> \<exists>res. MarkMandatory b = Some res"
proof (induction b rule: MarkMandatory.induct)
  case (1 b)
  from mark_pass_total[OF "1.prems"] obtain b1 c1 redo where p: "mark_pass b = Some (b1, c1, redo)"
    by (metis prod_cases3)
  show ?case
  proof (cases redo)
    case False
    with p show ?thesis by (subst MarkMandatory.simps) auto
  next
    case True
    from mark_pass_inv[OF p] have "mark_rel b1 b" by (simp add: mm_inv_def)
    from wf_mark_rel[OF "1.prems" this] have "wf_board b1" by simp
    from "1.IH"[OF p refl refl True this] obtain b2 c2 where "MarkMandatory b1 = Some (b2, c2)"
      by auto
    with p True show ?thesis by (subst MarkMandatory.simps) auto
  qed
qed


lemma wf_perm_at:
  assumes "wf_board b" and "0 \<le> pi" and "nat pi < length (Perms b)" and "0 \<le> pos" and "pos < Size b"
  shows "\<exists>perm v. at (Perms b) pi = Some perm \<and> at perm pos = Some v"
proof -
  from assms(3) have "Perms b ! nat pi \<in> set (Perms b)" by simp
  with assms(1) have "length (Perms b ! nat pi) = nat (Size b)" by (simp add: wf_board_def)
  with assms show ?thesis by (simp add: at_nat)
qed

lemma wf_line_perms:
  assumes "wf_board b" and "0 \<le> r" and "r < Size b"
  shows "\<exists>rp. at (RowPerms b) r = Some rp \<and>
           (\<forall>ps. rp = Some ps \<longrightarrow> (\<forall>pi \<in> set ps. 0 \<le> pi \<and> nat pi < length (Perms b)))"
    and "\<exists>cp. at (ColPerms b) r = Some cp \<and>
           (\<forall>ps. cp = Some ps \<longrightarrow> (\<forall>pi \<in> set ps. 0 \<le> pi \<and> nat pi < length (Perms b)))"
proof -
  from assms have n: "nat r < length (RowPerms b)" "nat r < length (ColPerms b)"
    by (simp_all add: wf_board_def)
  then have "RowPerms b ! nat r \<in> set (RowPerms b)" "ColPerms b ! nat r \<in> set (ColPerms b)"
    by simp_all
  moreover from assms(1) have
    "\<forall>ps. Some ps \<in> set (RowPerms b) \<union> set (ColPerms b) \<longrightarrow>
        (\<forall>pi \<in> set ps. 0 \<le> pi \<and> nat pi < length (Perms b))"
    by (simp add: wf_board_def)
  ultimately have
    "\<forall>ps. RowPerms b ! nat r = Some ps \<longrightarrow> (\<forall>pi \<in> set ps. 0 \<le> pi \<and> nat pi < length (Perms b))"
    "\<forall>ps. ColPerms b ! nat r = Some ps \<longrightarrow> (\<forall>pi \<in> set ps. 0 \<le> pi \<and> nat pi < length (Perms b))"
    by (metis UnI1, metis UnI2)
  with n assms(2) show
    "\<exists>rp. at (RowPerms b) r = Some rp \<and>
           (\<forall>ps. rp = Some ps \<longrightarrow> (\<forall>pi \<in> set ps. 0 \<le> pi \<and> nat pi < length (Perms b)))"
    "\<exists>cp. at (ColPerms b) r = Some cp \<and>
           (\<forall>ps. cp = Some ps \<longrightarrow> (\<forall>pi \<in> set ps. 0 \<le> pi \<and> nat pi < length (Perms b)))"
    by (simp_all add: at_nat)
qed

lemma supports_total:
  assumes "wf_board b" and "0 \<le> pos" and "pos < Size b"
  shows "(\<forall>pi \<in> set perms. 0 \<le> pi \<and> nat pi < length (Perms b)) \<Longrightarrow>
         \<exists>x. supports b perms pos n = Some x"
proof (induction perms)
  case Nil
  then show ?case by simp
next
  case (Cons pi perms)
  from Cons.prems have "0 \<le> pi" "nat pi < length (Perms b)" by simp_all
  from wf_perm_at[OF assms(1) this assms(2,3)] obtain perm v where
    "at (Perms b) pi = Some perm" "at perm pos = Some v" by blast
  moreover from Cons have "\<exists>x. supports b perms pos n = Some x" by simp
  ultimately show ?case by auto
qed

lemma line_supports_total:
  assumes "wf_board b" and "0 \<le> pos" and "pos < Size b"
    and "\<forall>ps. l = Some ps \<longrightarrow> (\<forall>pi \<in> set ps. 0 \<le> pi \<and> nat pi < length (Perms b))"
  shows "\<exists>x. (case l of None \<Rightarrow> Some True | Some perms \<Rightarrow> supports b perms pos n) = Some x"
proof (cases l)
  case None
  then show ?thesis by simp
next
  case (Some ps)
  with assms(4) supports_total[OF assms(1-3), of ps n] show ?thesis by simp
qed

lemma unsupported_total:
  assumes "wf_board b" and "0 \<le> r" and "r < Size b" and "0 \<le> c" and "c < Size b"
  shows "unsupported b r c n \<noteq> None"
proof -
  from wf_line_perms(1)[OF assms(1-3)] obtain rp where rp: "at (RowPerms b) r = Some rp"
    "\<forall>ps. rp = Some ps \<longrightarrow> (\<forall>pi \<in> set ps. 0 \<le> pi \<and> nat pi < length (Perms b))" by blast
  from wf_line_perms(2)[OF assms(1,4,5)] obtain cp where cp: "at (ColPerms b) c = Some cp"
    "\<forall>ps. cp = Some ps \<longrightarrow> (\<forall>pi \<in> set ps. 0 \<le> pi \<and> nat pi < length (Perms b))" by blast
  from line_supports_total[OF assms(1,4,5) rp(2), of n] obtain x where
    x: "(case rp of None \<Rightarrow> Some True | Some perms \<Rightarrow> supports b perms c n) = Some x" by blast
  from line_supports_total[OF assms(1,2,3) cp(2), of n] obtain y where
    y: "(case cp of None \<Rightarrow> Some True | Some perms \<Rightarrow> supports b perms r n) = Some y" by blast
  show ?thesis
    unfolding unsupported_def by (simp add: rp(1) cp(1) x y)
qed

lemma trim_cell_total:
  assumes "wf_board (fst s)" and "0 \<le> r" and "r < Size (fst s)" and "0 \<le> c" and "c < Size (fst s)"
  shows "\<exists>t. trim_cell r c s = Some t"
proof -
  obtain u ch where s: "s = (u, ch)" by (cases s) auto
  from assms s have w: "wf_board u" "r < Size u" "c < Size u" by simp_all
  from wf_allowed_at[OF w(1) assms(2) w(2) assms(4) w(3)] obtain S where S: "allowed_at u r c = Some S" by blast
  have "\<forall>k \<in> fset S. unsupported u r c k \<noteq> None"
    using unsupported_total[OF w(1) assms(2) w(2) assms(4) w(3)] by blast
  with trim_cell_eq[OF S, of ch] show ?thesis by (simp add: s)
qed

lemma TrimAllowedFromPerms_total:
  assumes "wf_board b"
  shows "\<exists>res. TrimAllowedFromPerms b = Some res"
proof -
  have "\<exists>t. for_loop (upto_excl (Size b)) (\<lambda>ri. for_loop (upto_excl (Size b)) (trim_cell ri)) (b, False) = Some t
          \<and> trim_inv b t"
  proof (rule for_loop_total)
    show "trim_inv b (b, False)" by (rule trim_inv_init)
  next
    fix ri and s :: "Board \<times> bool"
    assume ri: "ri \<in> set (upto_excl (Size b))" and s: "trim_inv b s"
    show "\<exists>t. for_loop (upto_excl (Size b)) (trim_cell ri) s = Some t \<and> trim_inv b t"
    proof (rule for_loop_total)
      show "trim_inv b s" by (rule s)
    next
      fix ci and u :: "Board \<times> bool"
      assume ci: "ci \<in> set (upto_excl (Size b))" and u: "trim_inv b u"
      from u have "allowed_only (fst u) b" by (simp add: trim_inv_def tracks_def)
      from wf_allowed_only[OF assms this] have w: "wf_board (fst u)" "Size (fst u) = Size b"
        by simp_all
      from ri ci w trim_cell_total[of u ri ci] obtain v where v: "trim_cell ri ci u = Some v"
        by (auto simp: set_upto_excl)
      from trim_cell_step'(1)[OF v u] v show "\<exists>v. trim_cell ri ci u = Some v \<and> trim_inv b v"
        by simp
    qed
  qed
  then show ?thesis by (auto simp: TrimAllowedFromPerms_def)
qed

lemma perm_ok_total:
  assumes "wf_board b" and "0 \<le> line" and "line < Size b"
    and "0 \<le> pi" and "nat pi < length (Perms b)"
  shows "set js \<subseteq> {0 ..< Size b} \<Longrightarrow> \<exists>x. perm_ok b by_row line pi js = Some x"
proof (induction js)
  case Nil
  then show ?case by simp
next
  case (Cons i js)
  from Cons.prems have i: "0 \<le> i" "i < Size b" by simp_all
  from wf_perm_at[OF assms(1,4,5) i] obtain perm v where
    p: "at (Perms b) pi = Some perm" "at perm i = Some v" by blast
  obtain r c where rc: "line_cell by_row line i = (r, c)" by (cases "line_cell by_row line i") auto
  with i assms(2,3) have "0 \<le> r" "r < Size b" "0 \<le> c" "c < Size b"
    by (auto simp: line_cell_def split: if_splits)
  from wf_IsAllowed[OF assms(1) this, of v] obtain a where a: "IsAllowed b r c v = Some a" by blast
  from Cons obtain x where "perm_ok b by_row line pi js = Some x" by auto
  with p rc a show ?case by auto
qed

lemma new_perms_total:
  assumes "wf_board b" and "0 \<le> line" and "line < Size b"
  shows "(\<forall>pi \<in> set ps. 0 \<le> pi \<and> nat pi < length (Perms b)) \<Longrightarrow>
         \<exists>qs. new_perms b by_row line ps = Some qs"
proof (induction ps)
  case Nil
  then show ?case by simp
next
  case (Cons pi ps)
  from Cons.prems have "0 \<le> pi" "nat pi < length (Perms b)" by simp_all
  from perm_ok_total[OF assms this, of "upto_excl (Size b)" by_row]
  obtain ok where "perm_ok b by_row line pi (upto_excl (Size b)) = Some ok"
    by (auto simp: set_upto_excl)
  moreover from Cons obtain rest where "new_perms b by_row line ps = Some rest" by auto
  ultimately show ?case by simp
qed

lemma trim_row_perms_total:
  assumes "wf_board (fst s)" and "0 \<le> ri" and "ri < Size (fst s)"
  shows "\<exists>t. trim_row_perms ri s = Some t"
proof -
  obtain u ch where s: "s = (u, ch)" by (cases s) auto
  from assms s have w: "wf_board u" "ri < Size u" by simp_all
  from wf_line_perms(1)[OF w(1) assms(2) w(2)] obtain rp where rp: "at (RowPerms u) ri = Some rp"
    "\<forall>ps. rp = Some ps \<longrightarrow> (\<forall>pi \<in> set ps. 0 \<le> pi \<and> nat pi < length (Perms u))" by blast
  show ?thesis
  proof (cases rp)
    case None
    with rp show ?thesis by (simp add: trim_row_perms_def s)
  next
    case (Some perms)
    with rp(2) new_perms_total[OF w(1) assms(2) w(2), of perms True]
    obtain newPerms where n: "new_perms u True ri perms = Some newPerms" by auto
    from put_total[OF rp(1), of "Some newPerms"] obtain rps where
      "put (RowPerms u) ri (Some newPerms) = Some rps" by blast
    with rp(1) Some n show ?thesis by (simp add: trim_row_perms_def s)
  qed
qed

lemma trim_col_perms_total:
  assumes "wf_board (fst s)" and "0 \<le> ci" and "ci < Size (fst s)"
  shows "\<exists>t. trim_col_perms ci s = Some t"
proof -
  obtain u ch where s: "s = (u, ch)" by (cases s) auto
  from assms s have w: "wf_board u" "ci < Size u" by simp_all
  from wf_line_perms(2)[OF w(1) assms(2) w(2)] obtain cp where cp: "at (ColPerms u) ci = Some cp"
    "\<forall>ps. cp = Some ps \<longrightarrow> (\<forall>pi \<in> set ps. 0 \<le> pi \<and> nat pi < length (Perms u))" by blast
  show ?thesis
  proof (cases cp)
    case None
    with cp show ?thesis by (simp add: trim_col_perms_def s)
  next
    case (Some perms)
    with cp(2) new_perms_total[OF w(1) assms(2) w(2), of perms False]
    obtain newPerms where n: "new_perms u False ci perms = Some newPerms" by auto
    from put_total[OF cp(1), of "Some newPerms"] obtain cps where
      "put (ColPerms u) ci (Some newPerms) = Some cps" by blast
    with cp(1) Some n show ?thesis by (simp add: trim_col_perms_def s)
  qed
qed

lemma wf_perms_only: "wf_board b \<Longrightarrow> perms_only b' b \<Longrightarrow> wf_board b' \<and> Size b' = Size b"
  using wf_preserved[OF _ perms_only_shrinks perms_only_frame, of b b']
  by (simp add: perms_only_fields(3))

lemma TrimPermsFromAllowed_total:
  assumes "wf_board b"
  shows "\<exists>res. TrimPermsFromAllowed b = Some res"
proof -
  from assms have len: "int (length (RowPerms b)) = Size b" "int (length (ColPerms b)) = Size b"
    by (simp_all add: wf_board_def)
  have "\<exists>t. for_loop (upto_excl (Size b)) trim_row_perms (b, False) = Some t \<and> ptracks b t"
  proof (rule for_loop_total)
    show "ptracks b (b, False)" by (rule ptracks_init)
  next
    fix ri and s :: "Board \<times> bool"
    assume ri: "ri \<in> set (upto_excl (Size b))" and s: "ptracks b s"
    from s have "perms_only (fst s) b" by (simp add: ptracks_def)
    from wf_perms_only[OF assms this] have w: "wf_board (fst s)" "Size (fst s) = Size b"
      by simp_all
    from ri w trim_row_perms_total[of s ri] obtain t where t: "trim_row_perms ri s = Some t"
      by (auto simp: set_upto_excl)
    from trim_row_perms_ptracks[OF t s] t show "\<exists>t. trim_row_perms ri s = Some t \<and> ptracks b t"
      by simp
  qed
  then obtain s1 where s1: "for_loop (upto_excl (Size b)) trim_row_perms (b, False) = Some s1"
    "ptracks b s1" by blast
  have "\<exists>t. for_loop (upto_excl (Size b)) trim_col_perms s1 = Some t \<and> ptracks b t"
  proof (rule for_loop_total)
    show "ptracks b s1" by (rule s1(2))
  next
    fix ci and s :: "Board \<times> bool"
    assume ci: "ci \<in> set (upto_excl (Size b))" and s: "ptracks b s"
    from s have "perms_only (fst s) b" by (simp add: ptracks_def)
    from wf_perms_only[OF assms this] have w: "wf_board (fst s)" "Size (fst s) = Size b"
      by simp_all
    from ci w trim_col_perms_total[of s ci] obtain t where t: "trim_col_perms ci s = Some t"
      by (auto simp: set_upto_excl)
    from trim_col_perms_ptracks[OF t s] t show "\<exists>t. trim_col_perms ci s = Some t \<and> ptracks b t"
      by simp
  qed
  with s1(1) show ?thesis by (auto simp: TrimPermsFromAllowed_def len)
qed


lemma for_until_total_aux:
  "I s \<Longrightarrow> (\<forall>x \<in> set xs. \<forall>u. I u \<longrightarrow> (\<exists>v r. body x u = Some (v, r) \<and> I v)) \<Longrightarrow>
   \<exists>t r. for_until xs body s = Some (t, r) \<and> I t"
proof (induction xs arbitrary: s)
  case Nil
  then show ?case by simp
next
  case (Cons x xs)
  have "\<exists>v r. body x s = Some (v, r) \<and> I v"
    using Cons.prems(2)[rule_format, of x s] Cons.prems(1) by simp
  then obtain u r where u: "body x s = Some (u, r)" "I u" by (elim exE conjE)
  show ?case
  proof (cases r)
    case True
    with u show ?thesis by auto
  next
    case False
    have "\<forall>y \<in> set xs. \<forall>u. I u \<longrightarrow> (\<exists>v r. body y u = Some (v, r) \<and> I v)"
    proof (intro ballI allI impI)
      fix y v
      assume "y \<in> set xs" "I v"
      then show "\<exists>w r. body y v = Some (w, r) \<and> I w"
        using Cons.prems(2)[rule_format, of y v] by simp
    qed
    from Cons.IH[OF u(2) this] obtain t r' where "for_until xs body u = Some (t, r')" "I t"
      by (elim exE conjE)
    with u False show ?thesis by auto
  qed
qed

lemma for_until_total:
  assumes "I s"
    and "\<And>x u. x \<in> set xs \<Longrightarrow> I u \<Longrightarrow> \<exists>v r. body x u = Some (v, r) \<and> I v"
  shows "\<exists>t r. for_until xs body s = Some (t, r) \<and> I t"
proof (rule for_until_total_aux[of I s xs body])
  show "I s" by (rule assms(1))
  show "\<forall>x \<in> set xs. \<forall>u. I u \<longrightarrow> (\<exists>v r. body x u = Some (v, r) \<and> I v)"
    using assms(2) by (intro ballI allI impI)
qed

lemma line_cell_range:
  assumes "0 \<le> line" and "line < n" and "0 \<le> i" and "i < n" and "line_cell by_row line i = (r, c)"
  shows "0 \<le> r" "r < n" "0 \<le> c" "c < n"
  using assms by (auto simp: line_cell_def split: if_splits)

lemma wf_line_cell:
  assumes "wf_board b" and "0 \<le> line" and "line < Size b" and "0 \<le> i" and "i < Size b"
  shows "\<exists>S. (case line_cell by_row line i of (r, c) \<Rightarrow> allowed_at b r c) = Some S"
    and "\<exists>g. (case line_cell by_row line i of (r, c) \<Rightarrow> Get b r c) = Some g"
    and "\<exists>a. (case line_cell by_row line i of (r, c) \<Rightarrow> IsAllowed b r c v) = Some a"
proof -
  obtain r c where rc: "line_cell by_row line i = (r, c)" by (cases "line_cell by_row line i") auto
  note rng = line_cell_range[OF assms(2-5) rc]
  from wf_allowed_at[OF assms(1) rng] wf_Get[OF assms(1) rng] wf_IsAllowed[OF assms(1) rng, of v]
  show "\<exists>S. (case line_cell by_row line i of (r, c) \<Rightarrow> allowed_at b r c) = Some S"
    and "\<exists>g. (case line_cell by_row line i of (r, c) \<Rightarrow> Get b r c) = Some g"
    and "\<exists>a. (case line_cell by_row line i of (r, c) \<Rightarrow> IsAllowed b r c v) = Some a"
    by (simp_all add: rc)
qed

lemma naked_rest_total:
  assumes "wf_board b" and "0 \<le> line" and "line < Size b" and "0 \<le> first" and "first < Size b"
  shows "set rest \<subseteq> {0 ..< Size b} \<Longrightarrow> \<exists>x. naked_rest b by_row line first rest = Some x"
proof (induction rest)
  case Nil
  then show ?case by simp
next
  case (Cons idx rest)
  from Cons.prems have i: "0 \<le> idx" "idx < Size b" by simp_all
  from wf_line_cell(2)[OF assms(1-3) i, of by_row] obtain g where
    g: "(case line_cell by_row line idx of (r, c) \<Rightarrow> Get b r c) = Some g" by blast
  from wf_line_cell(1)[OF assms(1-3) i, of by_row] obtain a where
    a: "(case line_cell by_row line idx of (r, c) \<Rightarrow> allowed_at b r c) = Some a" by blast
  from wf_line_cell(1)[OF assms, of by_row] obtain a0 where
    a0: "(case line_cell by_row line first of (r, c) \<Rightarrow> allowed_at b r c) = Some a0" by blast
  from Cons obtain x where "naked_rest b by_row line first rest = Some x" by auto
  then show ?case by (simp add: g a a0)
qed

lemma check_naked_set_total:
  assumes "wf_board b" and "0 \<le> line" and "line < Size b" and "set idxs \<subseteq> {0 ..< Size b}"
  shows "\<exists>x. check_naked_set b by_row idxs line = Some x"
proof (cases idxs)
  case Nil
  then show ?thesis by (simp add: check_naked_set_def)
next
  case (Cons first rest)
  with assms(4) have f: "0 \<le> first" "first < Size b" and r: "set rest \<subseteq> {0 ..< Size b}"
    by simp_all
  from wf_line_cell(1)[OF assms(1-3) f, of by_row] obtain a0 where
    a0: "(case line_cell by_row line first of (r, c) \<Rightarrow> allowed_at b r c) = Some a0" by blast
  from naked_rest_total[OF assms(1-3) f r, of by_row] obtain x where
    "naked_rest b by_row line first rest = Some x" by blast
  then show ?thesis by (simp add: check_naked_set_def Cons a0)
qed

lemma naked_line_total:
  assumes "wf_board b" and "0 \<le> line" and "line < Size b" and "set idxs \<subseteq> {0 ..< Size b}"
  shows "\<exists>t r. naked_line by_row line idxs b = Some (t, r)"
proof -
  from check_naked_set_total[OF assms, of by_row] obtain found where
    f: "check_naked_set b by_row idxs line = Some found" by blast
  show ?thesis
  proof (cases found)
    case False
    with f show ?thesis by (simp add: naked_line_def)
  next
    case True
    with f have ne: "idxs \<noteq> []" by (auto simp: check_naked_set_def)
    then have first: "at idxs 0 = Some (hd idxs)" by (cases idxs) (simp_all add: at_def)
    from ne assms(4) have h: "0 \<le> hd idxs" "hd idxs < Size b" by (cases idxs; simp)+
    define body where "body = (\<lambda>i b.
            if SliceContains idxs i then Some (b, False)
            else do {
              first \<leftarrow> at idxs 0;
              toRemove \<leftarrow> (case line_cell by_row line first of (r, c) \<Rightarrow> allowed_at b r c);
              case line_cell by_row line i of (r, c) \<Rightarrow> DisallowAll b r c toRemove
            })"
    have "\<exists>t r. for_until (upto_excl (Size b)) body b = Some (t, r) \<and> (wf_board t \<and> Size t = Size b)"
    proof (rule for_until_total)
      show "wf_board b \<and> Size b = Size b" using assms(1) by simp
    next
      fix i u
      assume i: "i \<in> set (upto_excl (Size b))" and u: "wf_board u \<and> Size u = Size b"
      show "\<exists>v r. body i u = Some (v, r) \<and> (wf_board v \<and> Size v = Size b)"
      proof (cases "SliceContains idxs i")
        case True
        with u show ?thesis by (simp add: body_def)
      next
        case False
        from i have ir: "0 \<le> i" "i < Size b" by (simp_all add: set_upto_excl)
        from u assms(3) h ir have lt: "line < Size u" "hd idxs < Size u" "i < Size u" by simp_all
        from wf_line_cell(1)[OF conjunct1[OF u] assms(2) lt(1) h(1) lt(2), of by_row]
        obtain T where T: "(case line_cell by_row line (hd idxs) of (r, c) \<Rightarrow> allowed_at u r c) = Some T"
          by blast
        obtain r c where rc: "line_cell by_row line i = (r, c)" by (cases "line_cell by_row line i") auto
        note rng = line_cell_range[OF assms(2) lt(1) ir(1) lt(3) rc]
        from wf_allowed_at[OF conjunct1[OF u] rng] obtain S where S: "allowed_at u r c = Some S" by blast
        have "allowed_only (set_cell u r c (S |-| T)) u"
          by (rule allowed_only_set_cell[OF S]) auto
        from wf_allowed_only[OF conjunct1[OF u] this] u
        have "wf_board (set_cell u r c (S |-| T)) \<and> Size (set_cell u r c (S |-| T)) = Size b"
          by simp
        moreover have "body i u = Some (set_cell u r c (S |-| T), S |\<inter>| T \<noteq> {||})"
          using False first T rc DisallowAll_eq[OF S, of T] by (simp add: body_def)
        ultimately show ?thesis by blast
      qed
    qed
    with f True show ?thesis by (auto simp: naked_line_def body_def)
  qed
qed

lemma naked_sweep_total:
  assumes "wf_board b" and "\<forall>idxs \<in> set indices. set idxs \<subseteq> {0 ..< Size b}"
    and "set lines \<subseteq> {0 ..< Size b}"
  shows "\<exists>t r. for_until lines (\<lambda>line. for_until indices (naked_line by_row line)) b = Some (t, r)
           \<and> (wf_board t \<and> Size t = Size b)"
proof (rule for_until_total)
  show "wf_board b \<and> Size b = Size b" using assms(1) by simp
next
  fix line u
  assume line: "line \<in> set lines" and u: "wf_board u \<and> Size u = Size b"
  show "\<exists>v r. for_until indices (naked_line by_row line) u = Some (v, r) \<and> (wf_board v \<and> Size v = Size b)"
  proof (rule for_until_total)
    show "wf_board u \<and> Size u = Size b" by (rule u)
  next
    fix idxs w
    assume idxs: "idxs \<in> set indices" and w: "wf_board w \<and> Size w = Size b"
    from line assms(3) w have l: "0 \<le> line" "line < Size w" by auto
    from idxs assms(2) w have "set idxs \<subseteq> {0 ..< Size w}" by simp
    from naked_line_total[OF conjunct1[OF w] l this, of by_row] obtain v r where
      v: "naked_line by_row line idxs w = Some (v, r)" by blast
    from naked_line_Some[OF v] one_cell_removed_tracks(1)[of v w] have "allowed_only v w"
      by (cases r) (simp_all add: allowed_only_refl)
    from wf_allowed_only[OF conjunct1[OF w] this] w v
    show "\<exists>v r. naked_line by_row line idxs w = Some (v, r) \<and> (wf_board v \<and> Size v = Size b)"
      by simp
  qed
qed

lemma fact_15_bound: "k \<le> 15 \<Longrightarrow> (fact k :: nat) \<le> 1307674368000"
proof -
  assume "k \<le> 15"
  then have "(fact k :: nat) \<le> fact 15" by (rule fact_mono)
  also have "(fact 15 :: nat) = 1307674368000" by (simp add: fact_numeral)
  finally show ?thesis .
qed

lemma arrangements_15:
  assumes "0 \<le> k" and "k \<le> 15"
  shows "int (arrangements k r) * 24 \<le> maxAlloc"
proof -
  have "arrangements k r \<le> fact (nat k)"
    by (simp add: arrangements_def div_le_dividend)
  also have "\<dots> \<le> 1307674368000" using assms by (intro fact_15_bound) simp
  finally have "int (arrangements k r) \<le> 1307674368000" by linarith
  then show ?thesis by (simp add: maxAlloc_def)
qed

lemma Permute_indices:
  assumes "0 \<le> k" and "k \<le> 15" and "0 \<le> r" and "r \<le> k"
  shows "\<exists>out. Permute low (low + k - 1) r = Some out \<and>
           (\<forall>xs \<in> set out. length xs = nat r \<and> set xs \<subseteq> {low ..< low + k})"
proof -
  define av where "av = map (\<lambda>j. int j + low) [0 ..< nat k]"
  have "r * 8 \<le> maxAlloc" using assms by (simp add: maxAlloc_def)
  then have P: "Permute low (low + k - 1) r = Some (selections av (nat r))"
    using Permute_small[of r "low + k - 1" low] assms arrangements_15[of k r] by (simp add: av_def)
  have dav: "distinct av" by (simp add: av_def distinct_map inj_on_def)
  have sav: "set av \<subseteq> {low ..< low + k}" using assms by (auto simp: av_def)
  from selections_props[OF dav] sav
  have "\<forall>xs \<in> set (selections av (nat r)). length xs = nat r \<and> set xs \<subseteq> {low ..< low + k}"
    by blast
  with P show ?thesis by simp
qed

lemma TrimNakedSets_total:
  assumes "wf_board b" and "Size b \<le> 15" and "0 \<le> n" and "n \<le> Size b"
  shows "\<exists>res. TrimNakedSets b n = Some res"
proof -
  from assms(1) have sz: "0 \<le> Size b" by (simp add: wf_board_def)
  from Permute_indices[OF sz assms(2,3,4), of 0] obtain indices where
    P: "Permute 0 (Size b - 1) n = Some indices"
    and idx: "\<forall>idxs \<in> set indices. set idxs \<subseteq> {0 ..< Size b}"
    by auto
  from naked_sweep_total[OF assms(1) idx, of "upto_excl (Size b)" True]
  obtain b1 ret where s1: "for_until (upto_excl (Size b))
                    (\<lambda>ri. for_until indices (naked_line True ri)) b = Some (b1, ret)"
    and w1: "wf_board b1" "Size b1 = Size b"
    by (auto simp: set_upto_excl)
  from idx w1 have "\<forall>idxs \<in> set indices. set idxs \<subseteq> {0 ..< Size b1}" by simp
  from naked_sweep_total[OF w1(1) this, of "upto_excl (Size b1)" False]
  obtain b2 ret2 where "for_until (upto_excl (Size b1))
                    (\<lambda>ci. for_until indices (naked_line False ci)) b1 = Some (b2, ret2)"
    by (auto simp: set_upto_excl)
  with P s1 show ?thesis by (cases ret) (simp_all add: TrimNakedSets_def)
qed


lemma number_cells_total:
  assumes "wf_board b" and "0 \<le> line" and "line < Size b"
  shows "\<exists>cells. number_cells b by_row numbers line = Some cells \<and> length cells = length numbers"
  unfolding number_cells_def
proof (rule for_loop_total)
  show "length (replicate (length numbers) ({||} :: int fset)) = length numbers" by simp
next
  fix i and cells :: "int fset list"
  assume i: "i \<in> set (upto_excl (Size b))" and c: "length cells = length numbers"
  from i have ir: "0 \<le> i" "i < Size b" by (simp_all add: set_upto_excl)
  show "\<exists>v. for_loop (upto_excl (int (length numbers)))
          (\<lambda>nidx cells. do {
             num \<leftarrow> at numbers nidx;
             a \<leftarrow> (case line_cell by_row line i of (r, c) \<Rightarrow> IsAllowed b r c num);
             if a then do { cur \<leftarrow> at cells nidx; put cells nidx (finsert i cur) }
             else Some cells
           }) cells = Some v \<and> length v = length numbers"
  proof (rule for_loop_total)
    show "length cells = length numbers" by (rule c)
  next
    fix nidx and u :: "int fset list"
    assume n: "nidx \<in> set (upto_excl (int (length numbers)))" and u: "length u = length numbers"
    from n have nr: "0 \<le> nidx" "nat nidx < length numbers" by (auto simp: set_upto_excl)
    then have num: "at numbers nidx = Some (numbers ! nat nidx)" by (simp add: at_nat)
    from wf_line_cell(3)[OF assms ir, where by_row = by_row and v = "numbers ! nat nidx"] obtain a where
      a: "(case line_cell by_row line i of (r, c) \<Rightarrow> IsAllowed b r c (numbers ! nat nidx)) = Some a"
      by blast
    from nr u have cur: "at u nidx = Some (u ! nat nidx)" by (simp add: at_nat)
    from nr u have p: "put u nidx (finsert i (u ! nat nidx)) = Some (u[nat nidx := finsert i (u ! nat nidx)])"
      by (simp add: put_nat)
    show "\<exists>v. do {
             num \<leftarrow> at numbers nidx;
             a \<leftarrow> (case line_cell by_row line i of (r, c) \<Rightarrow> IsAllowed b r c num);
             if a then do { cur \<leftarrow> at u nidx; put u nidx (finsert i cur) }
             else Some u
           } = Some v \<and> length v = length numbers"
      using num a cur p u by (cases a) simp_all
  qed
qed

lemma check_found_group_total:
  assumes "wf_board b" and "0 \<le> line" and "line < Size b" and "numbers \<noteq> []"
  shows "\<exists>x. check_found_group b by_row numbers line = Some x"
proof -
  from number_cells_total[OF assms(1-3), of by_row numbers] obtain cells where
    c: "number_cells b by_row numbers line = Some cells" "length cells = length numbers" by blast
  with assms(4) have "at cells 0 = Some (cells ! 0)" by (simp add: at_nat)
  with c show ?thesis by (simp add: check_found_group_def)
qed

lemma found_line_total:
  assumes "wf_board (fst s)" and "0 \<le> line" and "line < Size (fst s)" and "nums \<noteq> []"
  shows "\<exists>t. found_line by_row nums line s = Some t"
proof -
  obtain b ch where s: "s = (b, ch)" by (cases s) auto
  from assms s have w: "wf_board b" "line < Size b" by simp_all
  from check_found_group_total[OF w(1) assms(2) w(2) assms(4), of by_row] obtain found where
    f: "check_found_group b by_row nums line = Some found" by blast
  from assms(4) have first: "at nums 0 = Some (hd nums)" by (cases nums) (simp_all add: at_def)
  show ?thesis
  proof (cases found)
    case False
    with f show ?thesis by (simp add: found_line_def s)
  next
    case True
    define body where "body = (\<lambda>i (b, changed). do {
               first \<leftarrow> at nums 0;
               a \<leftarrow> (case line_cell by_row line i of (r, c) \<Rightarrow> IsAllowed b r c first);
               if a then do {
                 (b', ch) \<leftarrow> (case line_cell by_row line i of (r, c) \<Rightarrow> DisallowOthers b r c nums);
                 Some (b', changed \<or> ch)
               } else Some (b, changed)
             })"
    have "\<exists>t. for_loop (upto_excl (Size b)) body (b, ch) = Some t
            \<and> (wf_board (fst t) \<and> Size (fst t) = Size b)"
    proof (rule for_loop_total)
      show "wf_board (fst (b, ch)) \<and> Size (fst (b, ch)) = Size b" using w by simp
    next
      fix i and u :: "Board \<times> bool"
      assume i: "i \<in> set (upto_excl (Size b))" and u: "wf_board (fst u) \<and> Size (fst u) = Size b"
      obtain ub uc where uu: "u = (ub, uc)" by (cases u) auto
      from u uu have wu: "wf_board ub" "Size ub = Size b" by simp_all
      from i wu w have rg: "0 \<le> i" "i < Size ub" "line < Size ub" by (simp_all add: set_upto_excl)
      obtain r c where rc: "line_cell by_row line i = (r, c)" by (cases "line_cell by_row line i") auto
      note rng = line_cell_range[OF assms(2) rg(3) rg(1,2) rc]
      from wf_allowed_at[OF wu(1) rng] obtain S where S: "allowed_at ub r c = Some S" by blast
      have a: "IsAllowed ub r c (hd nums) = Some (hd nums |\<in>| S)" by (rule IsAllowed_eq[OF S])
      have ao: "allowed_only (set_cell ub r c (ffilter (\<lambda>k. k \<in> set nums) S)) ub"
        by (rule allowed_only_set_cell[OF S]) auto
      from wf_allowed_only[OF wu(1) ao] wu
      have w': "wf_board (set_cell ub r c (ffilter (\<lambda>k. k \<in> set nums) S))" by simp
      show "\<exists>v. body i u = Some v \<and> (wf_board (fst v) \<and> Size (fst v) = Size b)"
        using first a rc DisallowOthers_eq[OF S, of nums] w' wu
        by (cases "hd nums |\<in>| S") (simp_all add: body_def uu)
    qed
    with f True show ?thesis by (auto simp: found_line_def s body_def)
  qed
qed

lemma found_sweep_total:
  assumes "wf_board b" and "tracks b s" and "nums \<noteq> []"
  shows "\<exists>t. for_loop (upto_excl (Size b)) (found_line by_row nums) s = Some t \<and> tracks b t"
proof (rule for_loop_total)
  show "tracks b s" by (rule assms(2))
next
  fix line and u :: "Board \<times> bool"
  assume line: "line \<in> set (upto_excl (Size b))" and u: "tracks b u"
  from u have "allowed_only (fst u) b" by (simp add: tracks_def)
  from wf_allowed_only[OF assms(1) this] have w: "wf_board (fst u)" "Size (fst u) = Size b"
    by simp_all
  from line w have "0 \<le> line" "line < Size (fst u)" by (simp_all add: set_upto_excl)
  from found_line_total[OF w(1) this assms(3), of by_row] obtain t where
    t: "found_line by_row nums line u = Some t" by blast
  from found_line_tracks[OF t u] t show "\<exists>v. found_line by_row nums line u = Some v \<and> tracks b v"
    by simp
qed

lemma TrimFoundGroups_total:
  assumes "wf_board b" and "Size b \<le> 15" and "1 \<le> n" and "n \<le> Size b"
  shows "\<exists>res. TrimFoundGroups b n = Some res"
proof -
  from assms(1) have sz: "0 \<le> Size b" by (simp add: wf_board_def)
  from assms(3) have "0 \<le> n" by simp
  from Permute_indices[OF sz assms(2) this assms(4), of 1] obtain numbers where
    P: "Permute 1 (Size b) n = Some numbers"
    and len: "\<forall>nums \<in> set numbers. length nums = nat n"
    by auto
  have "\<exists>t. for_loop numbers
       (\<lambda>nums s. do {
          s1 \<leftarrow> for_loop (upto_excl (Size b)) (found_line True nums) s;
          for_loop (upto_excl (Size b)) (found_line False nums) s1
        }) (b, False) = Some t \<and> tracks b t"
  proof (rule for_loop_total)
    show "tracks b (b, False)" by (rule tracks_init)
  next
    fix nums and s :: "Board \<times> bool"
    assume nums: "nums \<in> set numbers" and s: "tracks b s"
    from nums len assms(3) have ne: "nums \<noteq> []" by auto
    from found_sweep_total[OF assms(1) s ne, of True] obtain s1 where
      s1: "for_loop (upto_excl (Size b)) (found_line True nums) s = Some s1" "tracks b s1" by blast
    from found_sweep_total[OF assms(1) s1(2) ne, of False] obtain s2 where
      s2: "for_loop (upto_excl (Size b)) (found_line False nums) s1 = Some s2" "tracks b s2" by blast
    from s1 s2 show "\<exists>v. do {
          s1 \<leftarrow> for_loop (upto_excl (Size b)) (found_line True nums) s;
          for_loop (upto_excl (Size b)) (found_line False nums) s1
        } = Some v \<and> tracks b v" by simp
  qed
  with P show ?thesis by (auto simp: TrimFoundGroups_def)
qed

lemma ObserverSatisfied_total:
  assumes "wf_board b" and "ob \<in> set (Observers b)"
  shows "\<exists>r. ObserverSatisfied b ob = Some r"
proof -
  obtain rstart cstart dr dc where st: "obs_start b ob = (rstart, cstart, dr, dc)"
    by (cases "obs_start b ob") auto
  from assms have ob: "Type ob = OBS_ROW \<or> Type ob = OBS_COL" "0 \<le> Index ob" "Index ob < Size b"
    and sz: "0 \<le> Size b"
    by (simp_all add: wf_board_def)
  define q where "q = map (\<lambda>i. the (Get b (rstart + int i * dr) (cstart + int i * dc))) [0 ..< nat (Size b)]"
  have "\<exists>g. Get b (rstart + int i * dr) (cstart + int i * dc) = Some g" if "i < nat (Size b)" for i
  proof -
    from that have i: "0 \<le> int i" "int i < Size b" by simp_all
    have "0 \<le> rstart + int i * dr \<and> rstart + int i * dr < Size b \<and>
          0 \<le> cstart + int i * dc \<and> cstart + int i * dc < Size b"
      using st ob i by (auto simp: obs_start_def OBS_ROW_def OBS_COL_def split: if_splits)
    then show ?thesis using wf_Get[OF assms(1)] by blast
  qed
  then have g: "\<forall>i < length q. Get b (rstart + int i * dr) (cstart + int i * dc) = Some (q ! i)"
    by (auto simp: q_def)
  have "Size b = int (length q)" using sz by (simp add: q_def)
  from ObserverSatisfied_line[OF st this g] show ?thesis by simp
qed

lemma first_unsatisfied_total:
  assumes "wf_board b"
  shows "set obs \<subseteq> set (Observers b) \<Longrightarrow> \<exists>v. first_unsatisfied b obs = Some v"
proof (induction obs)
  case Nil
  then show ?case by simp
next
  case (Cons ob obs)
  from Cons.prems have "ob \<in> set (Observers b)" by simp
  from ObserverSatisfied_total[OF assms this] obtain ok where "ObserverSatisfied b ob = Some ok"
    by blast
  moreover from Cons obtain v where "first_unsatisfied b obs = Some v" by auto
  ultimately show ?case by simp
qed

lemma Solved_total: "wf_board b \<Longrightarrow> \<exists>v. Solved b = Some v"
  using first_unsatisfied_total[of b "Observers b"] by (simp add: Solved_def)


subsection \<open>The driver returns\<close>

lemma solve_round_total:
  assumes "wf_board b" and "Size b \<le> 15"
  shows "\<exists>res. solve_round b = Some res"
proof -
  from MarkMandatory_total[OF assms(1)] obtain b1 mm where 1: "MarkMandatory b = Some (b1, mm)"
    by auto
  from wf_progress[OF assms(1) MarkMandatory_progress[OF 1]]
  have w1: "wf_board b1" "Size b1 = Size b" by simp_all
  from TrimAllowedFromPerms_total[OF w1(1)] obtain b2 tafp where
    2: "TrimAllowedFromPerms b1 = Some (b2, tafp)" by auto
  from wf_progress[OF w1(1) tracks_progress[OF TrimAllowedFromPerms_spec(1)[OF 2]]] w1
  have w2: "wf_board b2" "Size b2 = Size b" by simp_all
  from TrimPermsFromAllowed_total[OF w2(1)] obtain b3 tpfa where
    3: "TrimPermsFromAllowed b2 = Some (b3, tpfa)" by auto
  from wf_progress[OF w2(1) ptracks_progress[OF TrimPermsFromAllowed_ptracks[OF 3]]] w2
  have w3: "wf_board b3" "Size b3 = Size b" by simp_all
  have "\<exists>t r. for_until [2 .. Size b3 - 2] (\<lambda>n b. TrimNakedSets b n) b3 = Some (t, r)
          \<and> (wf_board t \<and> Size t = Size b)"
  proof (rule for_until_total)
    show "wf_board b3 \<and> Size b3 = Size b" using w3 by simp
  next
    fix n u
    assume n: "n \<in> set [2 .. Size b3 - 2]" and u: "wf_board u \<and> Size u = Size b"
    from n w3 u have "0 \<le> n" "n \<le> Size u" by simp_all
    with TrimNakedSets_total[of u n] u assms(2) obtain v r where
      v: "TrimNakedSets u n = Some (v, r)" by auto
    from wf_progress[OF conjunct1[OF u] tracks_progress[OF TrimNakedSets_tracks[OF v]]] u v
    show "\<exists>v r. TrimNakedSets u n = Some (v, r) \<and> (wf_board v \<and> Size v = Size b)" by simp
  qed
  then obtain b4 c4 where
    4: "(if \<not> (mm \<or> tafp \<or> tpfa)
         then for_until [2 .. Size b3 - 2] (\<lambda>n b. TrimNakedSets b n) b3
         else Some (b3, True)) = Some (b4, c4)"
    and w4: "wf_board b4" "Size b4 = Size b"
    using w3 by (cases "mm \<or> tafp \<or> tpfa") auto
  have "\<exists>t r. for_until [2 .. Size b4 - 2] (\<lambda>n b. TrimFoundGroups b n) b4 = Some (t, r)
          \<and> (wf_board t \<and> Size t = Size b)"
  proof (rule for_until_total)
    show "wf_board b4 \<and> Size b4 = Size b" using w4 by simp
  next
    fix n u
    assume n: "n \<in> set [2 .. Size b4 - 2]" and u: "wf_board u \<and> Size u = Size b"
    from n w4 u have "1 \<le> n" "n \<le> Size u" by simp_all
    with TrimFoundGroups_total[of u n] u assms(2) obtain v r where
      v: "TrimFoundGroups u n = Some (v, r)" by auto
    from wf_progress[OF conjunct1[OF u] tracks_progress[OF TrimFoundGroups_tracks[OF v]]] u v
    show "\<exists>v r. TrimFoundGroups u n = Some (v, r) \<and> (wf_board v \<and> Size v = Size b)" by simp
  qed
  then obtain b5 c5 where
    5: "(if \<not> c4
         then for_until [2 .. Size b4 - 2] (\<lambda>n b. TrimFoundGroups b n) b4
         else Some (b4, True)) = Some (b5, c5)"
    by (cases c4) auto
  from 1 2 3 4 5 show ?thesis by (simp add: solve_round_def)
qed

text \<open>A board on which a full pass of every rule, at every subset size that the driver
  tries, changes nothing.\<close>

definition stalled :: "Board \<Rightarrow> bool" where
  "stalled b \<longleftrightarrow>
     MarkMandatory b = Some (b, False) \<and>
     TrimAllowedFromPerms b = Some (b, False) \<and>
     TrimPermsFromAllowed b = Some (b, False) \<and>
     list_all (\<lambda>n. TrimNakedSets b n = Some (b, False)) [2 .. Size b - 2] \<and>
     list_all (\<lambda>n. TrimFoundGroups b n = Some (b, False)) [2 .. Size b - 2]"

lemma for_until_False:
  assumes "\<And>x u v. body x u = Some (v, False) \<Longrightarrow> v = u"
  shows "for_until xs body s = Some (t, False) \<Longrightarrow> t = s \<and> list_all (\<lambda>x. body x s = Some (s, False)) xs"
proof (induction xs)
  case Nil
  then show ?case by simp
next
  case (Cons x xs)
  from Cons.prems obtain u where u: "body x s = Some (u, False)"
    and r: "for_until xs body u = Some (t, False)"
    by (auto split: option.splits bool.splits prod.splits)
  from assms[OF u] have "u = s" .
  with u r Cons.IH show ?case by simp
qed

lemma solve_round_stalled:
  assumes "solve_round b = Some (b', False)"
  shows "b' = b" and "stalled b"
proof -
  from assms obtain b1 mm b2 tafp b3 tpfa b4 c4 where
    1: "MarkMandatory b = Some (b1, mm)"
    and 2: "TrimAllowedFromPerms b1 = Some (b2, tafp)"
    and 3: "TrimPermsFromAllowed b2 = Some (b3, tpfa)"
    and 4: "(if \<not> (mm \<or> tafp \<or> tpfa)
         then for_until [2 .. Size b3 - 2] (\<lambda>n b. TrimNakedSets b n) b3
         else Some (b3, True)) = Some (b4, c4)"
    and 5: "(if \<not> c4
         then for_until [2 .. Size b4 - 2] (\<lambda>n b. TrimFoundGroups b n) b4
         else Some (b4, True)) = Some (b', False)"
    by (auto simp: solve_round_def bind_eq_Some_conv)
  from 5 have c4: "\<not> c4" by (cases c4) auto
  with 4 have no: "\<not> mm" "\<not> tafp" "\<not> tpfa" by (auto split: if_splits)
  from MarkMandatory_Some[OF 1] no have e1: "b1 = b" by simp
  from TrimAllowedFromPerms_spec(1)[OF 2] no have e2: "b2 = b1" by (simp add: tracks_def)
  from TrimPermsFromAllowed_ptracks[OF 3] no have e3: "b3 = b2" by (simp add: ptracks_def)
  from 4 no c4 have "for_until [2 .. Size b3 - 2] (\<lambda>n b. TrimNakedSets b n) b3 = Some (b4, False)"
    by simp
  from for_until_False[where body = "\<lambda>n b. TrimNakedSets b n", OF _ this]
  have n: "b4 = b3" "list_all (\<lambda>n. TrimNakedSets b3 n = Some (b3, False)) [2 .. Size b3 - 2]"
    using TrimNakedSets_tracks by (auto simp: tracks_def)
  from 5 c4 have "for_until [2 .. Size b4 - 2] (\<lambda>n b. TrimFoundGroups b n) b4 = Some (b', False)"
    by simp
  from for_until_False[where body = "\<lambda>n b. TrimFoundGroups b n", OF _ this]
  have f: "b' = b4" "list_all (\<lambda>n. TrimFoundGroups b4 n = Some (b4, False)) [2 .. Size b4 - 2]"
    using TrimFoundGroups_tracks by (auto simp: tracks_def)
  from e1 e2 e3 n f show "b' = b" by simp
  from 1 2 3 no e1 e2 e3 n f show "stalled b" by (simp add: stalled_def)
qed

lemma autosolve_loop_total:
  "wf_board b \<Longrightarrow> Size b \<le> 15 \<Longrightarrow>
   \<exists>b'. autosolve_loop b = Some b' \<and> wf_board b' \<and> (Solved b' = Some Solved_ok \<or> stalled b')"
proof (induction b rule: autosolve_loop.induct)
  case (1 b)
  from Solved_total[OF "1.prems"(1)] obtain v where v: "Solved b = Some v" by blast
  show ?case
  proof (cases "v = Solved_ok")
    case True
    with v "1.prems" show ?thesis by (subst autosolve_loop.simps) simp
  next
    case False
    from solve_round_total[OF "1.prems"] obtain b1 ch where r: "solve_round b = Some (b1, ch)"
      by auto
    show ?thesis
    proof (cases ch)
      case True
      from wf_progress[OF "1.prems"(1) solve_round_progress[OF r]] "1.prems"(2)
      have "wf_board b1" "Size b1 \<le> 15" by simp_all
      from "1.IH"[OF v False r refl True this] v False r True show ?thesis
        by (subst autosolve_loop.simps) simp
    next
      case False
      with r solve_round_stalled[of b b1] have "b1 = b" "stalled b" by simp_all
      with v \<open>v \<noteq> Solved_ok\<close> r False "1.prems" show ?thesis
        by (subst autosolve_loop.simps) simp
    qed
  qed
qed

lemma AutoSolve_total:
  assumes "wf_board b" and "Size b \<le> 15"
  shows "\<exists>b' v. AutoSolve b = Some (b', v) \<and> Solved b' = Some v \<and> (v = Solved_ok \<or> stalled b')"
proof -
  from autosolve_loop_total[OF assms] obtain b' where
    l: "autosolve_loop b = Some b'" "wf_board b'" "Solved b' = Some Solved_ok \<or> stalled b'"
    by blast
  from Solved_total[OF l(2)] obtain v where v: "Solved b' = Some v" by blast
  with l show ?thesis by (auto simp: AutoSolve_def)
qed


section \<open>Filled cells and their candidates\<close>

text \<open>Every candidate is a value of the board, and a filled cell has no candidate other than
  its value.\<close>

definition cell_inv :: "Board \<Rightarrow> bool" where
  "cell_inv b \<longleftrightarrow>
     (\<forall>r c S. allowed_at b r c = Some S \<longrightarrow>
        (\<forall>k. k |\<in>| S \<longrightarrow> 1 \<le> k \<and> k \<le> Size b) \<and>
        (\<forall>g. Get b r c = Some g \<longrightarrow> g \<noteq> EMPTY \<longrightarrow> S |\<subseteq>| {|g|}))"

lemma cell_inv_cong:
  "Grid b' = Grid b \<Longrightarrow> Allowed b' = Allowed b \<Longrightarrow> Size b' = Size b \<Longrightarrow> cell_inv b' = cell_inv b"
  by (simp add: cell_inv_def allowed_at_def Get_def)

lemma shrinks_allowed_at:
  assumes "shrinks b' b" and "allowed_at b' r c = Some S'"
  shows "\<exists>S. allowed_at b r c = Some S \<and> S' |\<subseteq>| S"
proof -
  from assms(1) have l: "list_all2 (list_all2 (|\<subseteq>|)) (Allowed b') (Allowed b)"
    by (simp add: shrinks_def)
  from assms(2) have r: "0 \<le> r" "nat r < length (Allowed b')" "0 \<le> c"
    "nat c < length (Allowed b' ! nat r)" "Allowed b' ! nat r ! nat c = S'"
    by (simp_all add: allowed_at_Some_iff)
  from l r(2) have row: "list_all2 (|\<subseteq>|) (Allowed b' ! nat r) (Allowed b ! nat r)"
    "nat r < length (Allowed b)"
    by (simp_all add: list_all2_conv_all_nth)
  from row(1) r(4) have "Allowed b' ! nat r ! nat c |\<subseteq>| Allowed b ! nat r ! nat c"
    "nat c < length (Allowed b ! nat r)"
    by (simp_all add: list_all2_conv_all_nth)
  with r row(2) show ?thesis by (simp add: allowed_at_Some_iff)
qed

lemma cell_inv_allowed_only:
  assumes "allowed_only b' b" and "cell_inv b"
  shows "cell_inv b'"
  unfolding cell_inv_def
proof (intro allI impI)
  fix r c S'
  assume a: "allowed_at b' r c = Some S'"
  from shrinks_allowed_at[OF allowed_only_shrinks[OF assms(1)] a] obtain S where
    S: "allowed_at b r c = Some S" "S' |\<subseteq>| S" by blast
  have g: "Get b' r c = Get b r c" "Size b' = Size b"
    using allowed_only_fields(1,3)[OF assms(1)] by (simp_all add: Get_def)
  from assms(2) S(1) have "\<forall>k. k |\<in>| S \<longrightarrow> 1 \<le> k \<and> k \<le> Size b"
    "\<forall>g. Get b r c = Some g \<longrightarrow> g \<noteq> EMPTY \<longrightarrow> S |\<subseteq>| {|g|}"
    by (simp_all add: cell_inv_def)
  with S(2) g show "(\<forall>k. k |\<in>| S' \<longrightarrow> 1 \<le> k \<and> k \<le> Size b') \<and>
        (\<forall>g. Get b' r c = Some g \<longrightarrow> g \<noteq> EMPTY \<longrightarrow> S' |\<subseteq>| {|g|})"
    by (metis fsubsetD order_trans)
qed

lemma cell_inv_perms_only: "perms_only b' b \<Longrightarrow> cell_inv b \<Longrightarrow> cell_inv b'"
  using cell_inv_cong[of b' b] perms_only_fields(1,3,7)[of b' b] by simp

lemma Set_Get:
  assumes "Set b ri ci val = Some (b1, True)"
  shows "Get b1 r c = (if r = ri \<and> c = ci then Some val else Get b r c)"
  using assms
proof (cases rule: Set_cases)
  case same
  then show ?thesis by simp
next
  case (written cur row)
  define row' where "row' = row[nat ci := val]"
  have p1: "put row ci val = Some row'"
    using written(5,6) by (simp add: put_def row'_def)
  have p2: "put (Grid b) ri row' = Some (Grid b1)"
    using written(4,7) by (simp add: put_def at_Some_iff row'_def)
  show ?thesis
  proof (cases "r = ri")
    case True
    show ?thesis
    proof (cases "c = ci")
      case True
      with \<open>r = ri\<close> at_put_same[OF p2] at_put_same[OF p1] show ?thesis by (simp add: Get_def)
    next
      case False
      with \<open>r = ri\<close> at_put_same[OF p2] at_put_other[OF p1 False] written(4)
      show ?thesis by (simp add: Get_def)
    qed
  next
    case False
    with at_put_other[OF p2 False] show ?thesis by (simp add: Get_def)
  qed
qed

lemma cell_inv_Mark:
  assumes "Mark b ri ci val = Some (b', ch, nu)" and "cell_inv b"
  shows "cell_inv b'"
proof (cases ch)
  case False
  with assms Mark_unchanged(1)[of b ri ci val b' nu] show ?thesis by simp
next
  case True
  with assms(1) have m: "Mark b ri ci val = Some (b', True, nu)" by simp
  show ?thesis
  proof (rule Mark_changed[OF m])
    fix b1
    assume s: "Set b ri ci val = Some (b1, True)" and ao: "allowed_only b' b1"
      and own: "\<And>S. allowed_at b ri ci = Some S \<Longrightarrow>
           allowed_at b' ri ci = Some (ffilter (\<lambda>k. k = val \<or> k < 1 \<or> Size b < k) S)"
    have sz: "Size b' = Size b"
      using allowed_only_fields(3)[OF ao] Set_fields(4)[OF s] by simp
    have g: "Get b' r c = (if r = ri \<and> c = ci then Some val else Get b r c)" for r c
      using allowed_only_fields(1)[OF ao] Set_Get[OF s, of r c] by (simp add: Get_def)
    show ?thesis
      unfolding cell_inv_def
    proof (intro allI impI)
      fix r c S'
      assume a: "allowed_at b' r c = Some S'"
      from shrinks_allowed_at[OF allowed_only_shrinks[OF ao] a] Set_allowed_at[OF s, of r c]
      obtain S where S: "allowed_at b r c = Some S" "S' |\<subseteq>| S" by auto
      from assms(2) S(1) have inv: "\<forall>k. k |\<in>| S \<longrightarrow> 1 \<le> k \<and> k \<le> Size b"
        "\<forall>g. Get b r c = Some g \<longrightarrow> g \<noteq> EMPTY \<longrightarrow> S |\<subseteq>| {|g|}"
        by (simp_all add: cell_inv_def)
      have rng: "\<forall>k. k |\<in>| S' \<longrightarrow> 1 \<le> k \<and> k \<le> Size b'"
        using inv(1) S(2) sz by auto
      have "S' |\<subseteq>| {|g'|}" if gg: "Get b' r c = Some g'" "g' \<noteq> EMPTY" for g'
      proof (cases "r = ri \<and> c = ci")
        case True
        with gg g[of r c] have v: "g' = val" by simp
        from True own[of S] S(1) a have "S' = ffilter (\<lambda>k. k = val \<or> k < 1 \<or> Size b < k) S"
          by simp
        with inv(1) v show ?thesis by auto
      next
        case False
        with gg g[of r c] have "Get b r c = Some g'" by simp
        with inv(2) gg(2) S(2) show ?thesis by auto
      qed
      with rng show "(\<forall>k. k |\<in>| S' \<longrightarrow> 1 \<le> k \<and> k \<le> Size b') \<and>
          (\<forall>g. Get b' r c = Some g \<longrightarrow> g \<noteq> EMPTY \<longrightarrow> S' |\<subseteq>| {|g|})"
        by blast
    qed
  qed
qed

lemma cell_inv_mark_cell:
  assumes "mark_cell ri ci s = Some t" and "cell_inv (fst s)"
  shows "cell_inv (fst t)"
proof -
  obtain u changed redo where s: "s = (u, changed, redo)" by (cases s) auto
  show ?thesis
  proof (cases "fst t = u")
    case True
    with assms(2) s show ?thesis by simp
  next
    case False
    with assms(1) obtain k b' ch nch where "Mark u ri ci k = Some (b', ch, nch)" "fst t = b'"
      by (auto simp: mark_cell_def s bind_eq_Some_conv Let_def split: if_splits)
    with cell_inv_Mark[of u ri ci k b' ch nch] assms(2) s show ?thesis by simp
  qed
qed

lemma cell_inv_mark_pass:
  assumes "mark_pass b = Some s" and "cell_inv b"
  shows "cell_inv (fst s)"
proof (rule for_loop_rule[OF assms(1)[unfolded mark_pass_def], where I = "\<lambda>s. cell_inv (fst s)"])
  show "cell_inv (fst (b, False, False))" using assms(2) by simp
next
  fix ri and u v :: "Board \<times> bool \<times> bool"
  assume u: "cell_inv (fst u)" and st: "mark_row ri u = Some v"
  from st obtain row :: "int fset list" where
    l: "for_loop (upto_excl (int (length row))) (mark_cell ri) u = Some v"
    by (auto simp: mark_row_def bind_eq_Some_conv)
  show "cell_inv (fst v)"
    by (rule for_loop_rule[OF l, where I = "\<lambda>s. cell_inv (fst s)"])
       (use u cell_inv_mark_cell in blast)+
qed

lemma cell_inv_MarkMandatory:
  "MarkMandatory b = Some (b', changed) \<Longrightarrow> cell_inv b \<Longrightarrow> cell_inv b'"
proof (induction b arbitrary: b' changed rule: MarkMandatory.induct)
  case (1 b)
  from "1.prems"(1) obtain b1 c1 redo where p: "mark_pass b = Some (b1, c1, redo)"
    by (subst (asm) MarkMandatory.simps) (auto split: option.splits)
  from cell_inv_mark_pass[OF p "1.prems"(2)] have i1: "cell_inv b1" by simp
  show ?case
  proof (cases redo)
    case False
    with "1.prems"(1) p have "b' = b1"
      by (subst (asm) MarkMandatory.simps) simp
    with i1 show ?thesis by simp
  next
    case True
    with "1.prems"(1) p obtain c2 where r: "MarkMandatory b1 = Some (b', c2)"
      by (subst (asm) MarkMandatory.simps) (auto split: option.splits)
    from "1.IH"[OF p refl refl True r i1] show ?thesis .
  qed
qed

lemma cell_inv_tracks: "tracks b (b', ch) \<Longrightarrow> cell_inv b \<Longrightarrow> cell_inv b'"
  using cell_inv_allowed_only[of b' b] by (simp add: tracks_def)

lemma cell_inv_until:
  assumes "for_until ns op b = Some (b', ch)" and "cell_inv b"
    and "\<And>n u v f. op n u = Some (v, f) \<Longrightarrow> cell_inv u \<Longrightarrow> cell_inv v"
  shows "cell_inv b'"
proof -
  have "if ch then cell_inv b' else cell_inv b'"
    by (rule for_until_rule[OF assms(1), where I = cell_inv and Q = cell_inv])
       (use assms(2,3) in blast)+
  then show ?thesis by simp
qed

lemma cell_inv_solve_round:
  assumes "solve_round b = Some (b', ch)" and "cell_inv b"
  shows "cell_inv b'"
proof -
  from assms(1) obtain b1 mm b2 tafp b3 tpfa b4 c4 where
    1: "MarkMandatory b = Some (b1, mm)"
    and 2: "TrimAllowedFromPerms b1 = Some (b2, tafp)"
    and 3: "TrimPermsFromAllowed b2 = Some (b3, tpfa)"
    and 4: "(if \<not> (mm \<or> tafp \<or> tpfa)
         then for_until [2 .. Size b3 - 2] (\<lambda>n b. TrimNakedSets b n) b3
         else Some (b3, True)) = Some (b4, c4)"
    and 5: "(if \<not> c4
         then for_until [2 .. Size b4 - 2] (\<lambda>n b. TrimFoundGroups b n) b4
         else Some (b4, True)) = Some (b', ch)"
    by (auto simp: solve_round_def bind_eq_Some_conv)
  from cell_inv_MarkMandatory[OF 1 assms(2)] have i1: "cell_inv b1" .
  from cell_inv_tracks[OF TrimAllowedFromPerms_spec(1)[OF 2] i1] have i2: "cell_inv b2" .
  from TrimPermsFromAllowed_ptracks[OF 3] have "perms_only b3 b2" by (simp add: ptracks_def)
  from cell_inv_perms_only[OF this i2] have i3: "cell_inv b3" .
  have i4: "cell_inv b4"
  proof (cases "mm \<or> tafp \<or> tpfa")
    case True
    with 4 i3 show ?thesis by auto
  next
    case False
    with 4 have "for_until [2 .. Size b3 - 2] (\<lambda>n b. TrimNakedSets b n) b3 = Some (b4, c4)"
      by simp
    then show ?thesis
      by (rule cell_inv_until[OF _ i3]) (blast intro: cell_inv_tracks TrimNakedSets_tracks)
  qed
  show ?thesis
  proof (cases c4)
    case True
    with 5 i4 show ?thesis by auto
  next
    case False
    with 5 have "for_until [2 .. Size b4 - 2] (\<lambda>n b. TrimFoundGroups b n) b4 = Some (b', ch)"
      by simp
    then show ?thesis
      by (rule cell_inv_until[OF _ i4]) (blast intro: cell_inv_tracks TrimFoundGroups_tracks)
  qed
qed

lemma cell_inv_autosolve_loop:
  "autosolve_loop b = Some b' \<Longrightarrow> cell_inv b \<Longrightarrow> cell_inv b'"
proof (induction b rule: autosolve_loop.induct)
  case (1 b)
  from "1.prems"(1) obtain v where v: "Solved b = Some v"
    by (subst (asm) autosolve_loop.simps) (auto split: option.splits)
  show ?case
  proof (cases "v = Solved_ok")
    case True
    with "1.prems" v show ?thesis by (subst (asm) autosolve_loop.simps) simp
  next
    case False
    with "1.prems"(1) v obtain b1 ch where r: "solve_round b = Some (b1, ch)"
      and e: "(if ch then autosolve_loop b1 else Some b1) = Some b'"
      by (subst (asm) autosolve_loop.simps) (auto split: option.splits)
    from cell_inv_solve_round[OF r "1.prems"(2)] have i1: "cell_inv b1" .
    show ?thesis
    proof (cases ch)
      case True
      with e have "autosolve_loop b1 = Some b'" by simp
      from "1.IH"[OF v False r refl True this i1] show ?thesis .
    next
      case False
      with e i1 show ?thesis by simp
    qed
  qed
qed

section \<open>The boards of the constructor\<close>

lemma AddObserver_cases:
  assumes "AddObserver b ob = Some b'"
  shows "b' = b \<or> (\<exists>sorted. b' = b\<lparr>Observers := Observers b @ [ob], ObsSorted := sorted\<rparr>)"
  using assms by (auto simp: AddObserver_def Let_def bind_eq_Some_conv split: if_splits)

text \<open>What holds of the board throughout the second loop of \<open>BoardFromString\<close>, on a
  puzzle of size \<open>n\<close>.\<close>

definition ctor_inv :: "int \<Rightarrow> Board \<Rightarrow> bool" where
  "ctor_inv n b \<longleftrightarrow>
     wf_board b \<and> cell_inv b \<and> Size b = n \<and> Perms b = [] \<and>
     list_all (\<lambda>l. l = None) (RowPerms b) \<and> list_all (\<lambda>l. l = None) (ColPerms b)"

lemma ctor_inv_AddObserver:
  assumes "ctor_inv n b" and "AddObserver b ob = Some b'"
    and "Type ob = OBS_ROW \<or> Type ob = OBS_COL" and "0 \<le> Index ob" and "Index ob < n"
  shows "ctor_inv n b'"
proof -
  from AddObserver_cases[OF assms(2)] show ?thesis
  proof
    assume "b' = b"
    with assms(1) show ?thesis by simp
  next
    assume "\<exists>sorted. b' = b\<lparr>Observers := Observers b @ [ob], ObsSorted := sorted\<rparr>"
    then obtain sorted where b': "b' = b\<lparr>Observers := Observers b @ [ob], ObsSorted := sorted\<rparr>"
      by blast
    from assms(1) have w: "wf_board b" and c: "cell_inv b" and n: "Size b = n"
      and rest: "Perms b = []" "list_all (\<lambda>l. l = None) (RowPerms b)"
        "list_all (\<lambda>l. l = None) (ColPerms b)"
      by (simp_all add: ctor_inv_def)
    have "wf_board b'"
      using w assms(3-5) n unfolding wf_board_def b' by auto
    moreover have "cell_inv b'"
      using cell_inv_cong[of b' b] c by (simp add: b')
    ultimately show ?thesis using n rest by (simp add: ctor_inv_def b')
  qed
qed

lemma ctor_inv_Mark:
  assumes "ctor_inv n b" and "Mark b r c v = Some (b', ch, nu)"
  shows "ctor_inv n b'"
proof -
  from Mark_rel[OF assms(2)] have m: "mark_rel b' b" .
  then have f: "Perms b' = Perms b" "RowPerms b' = RowPerms b" "ColPerms b' = ColPerms b"
    by (simp_all add: mark_rel_def same_frame_def)
  from assms(1) wf_mark_rel[OF _ m] cell_inv_Mark[OF assms(2)] f show ?thesis
    by (simp add: ctor_inv_def)
qed

lemma ctor_inv_place_cell:
  assumes "ctor_inv n b" and "place_cell ri ci cell b = Some b'"
    and "0 \<le> ri" and "ri \<le> n + 1" and "0 \<le> ci" and "ci \<le> n + 1"
  shows "ctor_inv n b'"
proof -
  from assms(1) have n: "Size b = n" by (simp add: ctor_inv_def)
  show ?thesis
  proof (cases "ri = 0 \<or> ri = n + 1")
    case True
    show ?thesis
    proof (cases "ci = 0 \<or> ci = n + 1")
      case True
      with \<open>ri = 0 \<or> ri = n + 1\<close> assms(1,2) n show ?thesis by (simp add: place_cell_def)
    next
      case False
      define ob where "ob = \<lparr>Type = OBS_COL, Index = ci - 1,
                 Direction = (if ri = n + 1 then OBS_BWD else OBS_FWD), Count = cell\<rparr>"
      from True False assms(2) n have "AddObserver b ob = Some b'"
        by (simp add: place_cell_def ob_def)
      then show ?thesis
        by (rule ctor_inv_AddObserver[OF assms(1)]) (use False assms(5,6) in \<open>simp_all add: ob_def\<close>)
    qed
  next
    case False
    show ?thesis
    proof (cases "ci = 0 \<or> ci = n + 1")
      case True
      define ob where "ob = \<lparr>Type = OBS_ROW, Index = ri - 1,
           Direction = (if ci = n + 1 then OBS_BWD else OBS_FWD), Count = cell\<rparr>"
      from True False assms(2) n have "AddObserver b ob = Some b'"
        by (simp add: place_cell_def ob_def)
      then show ?thesis
        by (rule ctor_inv_AddObserver[OF assms(1)]) (use False assms(3,4) in \<open>simp_all add: ob_def\<close>)
    next
      case c: False
      with False assms(2) n obtain ch nu where "Mark b (ri - 1) (ci - 1) cell = Some (b', ch, nu)"
        by (auto simp: place_cell_def bind_eq_Some_conv)
      then show ?thesis by (rule ctor_inv_Mark[OF assms(1)])
    qed
  qed
qed

lemma fill_inputs_shape:
  assumes "fill_inputs lines inputs0 = Some inputs"
  shows "map length inputs = map length inputs0"
proof (rule for_loop_rule[OF assms[unfolded fill_inputs_def],
        where I = "\<lambda>x. map length x = map length inputs0"])
  show "map length inputs0 = map length inputs0" by simp
next
  fix x :: "nat \<times> line" and u v :: "int list list"
  assume u: "map length u = map length inputs0"
    and st: "(case x of (ri, row) \<Rightarrow> for_loop (with_offsets 0 row)
          (\<lambda>(ci, ch) inputs. do {
             r \<leftarrow> at inputs (int ri);
             r' \<leftarrow> put r ci (ChToInt ch);
             put inputs (int ri) r'
           })) u = Some v"
  obtain ri row where x: "x = (ri, row)" by (cases x) auto
  from st have l: "for_loop (with_offsets 0 row)
          (\<lambda>(ci, ch) inputs. do {
             r \<leftarrow> at inputs (int ri);
             r' \<leftarrow> put r ci (ChToInt ch);
             put inputs (int ri) r'
           }) u = Some v"
    by (simp add: x)
  show "map length v = map length inputs0"
  proof (rule for_loop_rule[OF l, where I = "\<lambda>x. map length x = map length inputs0"])
    show "map length u = map length inputs0" by (rule u)
  next
    fix y :: "int \<times> int" and p q :: "int list list"
    assume p: "map length p = map length inputs0"
      and s: "(case y of (ci, ch) \<Rightarrow> \<lambda>inputs. do {
             r \<leftarrow> at inputs (int ri);
             r' \<leftarrow> put r ci (ChToInt ch);
             put inputs (int ri) r'
           }) p = Some q"
    obtain ci ch where y: "y = (ci, ch)" by (cases y) auto
    from s obtain r r' where "at p (int ri) = Some r" "put r ci (ChToInt ch) = Some r'"
      "put p (int ri) r' = Some q"
      by (auto simp: y bind_eq_Some_conv)
    then have "q = p[ri := r']" "length r' = length (p ! ri)" "ri < length p"
      by (auto simp: at_Some_iff put_Some_iff)
    then have "map length q = map length p"
      by (simp add: map_update list_update_same_conv)
    with p show "map length q = map length inputs0" by simp
  qed
qed

lemma wf_put_RowPerms:
  assumes "wf_board b" and "put (RowPerms b) ri l = Some rps"
    and "\<forall>ps. l = Some ps \<longrightarrow> (\<forall>pi \<in> set ps. 0 \<le> pi \<and> nat pi < length (Perms b))"
  shows "wf_board (b\<lparr>RowPerms := rps\<rparr>)"
proof -
  from assms(2) have r: "rps = (RowPerms b)[nat ri := l]" by (simp add: put_Some_iff)
  have len: "length rps = length (RowPerms b)" by (simp add: r)
  have sub: "set rps \<subseteq> insert l (set (RowPerms b))"
    unfolding r by (rule set_update_subset_insert)
  from assms(1) have old: "\<forall>ps. Some ps \<in> set (RowPerms b) \<union> set (ColPerms b) \<longrightarrow>
        (\<forall>pi \<in> set ps. 0 \<le> pi \<and> nat pi < length (Perms b))"
    by (simp add: wf_board_def)
  have valid: "\<forall>ps. Some ps \<in> set rps \<union> set (ColPerms b) \<longrightarrow>
        (\<forall>pi \<in> set ps. 0 \<le> pi \<and> nat pi < length (Perms b))"
  proof (intro allI impI)
    fix ps
    assume "Some ps \<in> set rps \<union> set (ColPerms b)"
    with sub have "l = Some ps \<or> Some ps \<in> set (RowPerms b) \<union> set (ColPerms b)" by auto
    with assms(3) old show "\<forall>pi \<in> set ps. 0 \<le> pi \<and> nat pi < length (Perms b)" by blast
  qed
  from assms(1) len valid show ?thesis
    unfolding wf_board_def by (simp add: Un_commute)
qed

lemma wf_put_ColPerms:
  assumes "wf_board b" and "put (ColPerms b) ci l = Some cps"
    and "\<forall>ps. l = Some ps \<longrightarrow> (\<forall>pi \<in> set ps. 0 \<le> pi \<and> nat pi < length (Perms b))"
  shows "wf_board (b\<lparr>ColPerms := cps\<rparr>)"
proof -
  from assms(2) have r: "cps = (ColPerms b)[nat ci := l]" by (simp add: put_Some_iff)
  have len: "length cps = length (ColPerms b)" by (simp add: r)
  have sub: "set cps \<subseteq> insert l (set (ColPerms b))"
    unfolding r by (rule set_update_subset_insert)
  from assms(1) have old: "\<forall>ps. Some ps \<in> set (RowPerms b) \<union> set (ColPerms b) \<longrightarrow>
        (\<forall>pi \<in> set ps. 0 \<le> pi \<and> nat pi < length (Perms b))"
    by (simp add: wf_board_def)
  have valid: "\<forall>ps. Some ps \<in> set cps \<union> set (RowPerms b) \<longrightarrow>
        (\<forall>pi \<in> set ps. 0 \<le> pi \<and> nat pi < length (Perms b))"
  proof (intro allI impI)
    fix ps
    assume "Some ps \<in> set cps \<union> set (RowPerms b)"
    with sub have "l = Some ps \<or> Some ps \<in> set (RowPerms b) \<union> set (ColPerms b)" by auto
    with assms(3) old show "\<forall>pi \<in> set ps. 0 \<le> pi \<and> nat pi < length (Perms b)" by blast
  qed
  from assms(1) len valid show ?thesis
    unfolding wf_board_def by (simp add: Un_commute)
qed

lemma PermsForObs_valid:
  "\<forall>ps. PermsForObs b fwd bwd = Some ps \<longrightarrow> (\<forall>pi \<in> set ps. 0 \<le> pi \<and> nat pi < length (Perms b))"
  by (auto simp: PermsForObs_def set_upto_excl)

text \<open>What \<open>PopulateRowColPerms\<close> keeps.\<close>

definition populate_inv :: "Board \<Rightarrow> Board \<times> int \<Rightarrow> bool" where
  "populate_inv b0 s \<longleftrightarrow>
     wf_board (fst s) \<and> Grid (fst s) = Grid b0 \<and> Allowed (fst s) = Allowed b0 \<and>
     Size (fst s) = Size b0 \<and> Perms (fst s) = Perms b0"

lemma PopulateRowColPerms_inv:
  assumes "PopulateRowColPerms b = Some b'" and "wf_board b"
  shows "wf_board b'" and "Grid b' = Grid b" and "Allowed b' = Allowed b" and "Size b' = Size b"
proof -
  from assms(1) obtain s1 s2 where
    1: "for_loop (upto_excl (Size b))
        (\<lambda>ri (b, pi). do {
           fwd \<leftarrow> at (ObsSorted b) pi;
           bwd \<leftarrow> at (ObsSorted b) (pi + 1);
           rps \<leftarrow> put (RowPerms b) ri (PermsForObs b fwd bwd);
           Some (b\<lparr>RowPerms := rps\<rparr>, pi + 2)
         }) (b, 0) = Some s1"
    and 2: "for_loop (upto_excl (Size (fst s1)))
        (\<lambda>ci (b, pi). do {
           fwd \<leftarrow> at (ObsSorted b) pi;
           bwd \<leftarrow> at (ObsSorted b) (pi + 1);
           cps \<leftarrow> put (ColPerms b) ci (PermsForObs b fwd bwd);
           Some (b\<lparr>ColPerms := cps\<rparr>, pi + 2)
         }) s1 = Some s2"
    and 3: "b' = fst s2"
    by (auto simp: PopulateRowColPerms_def bind_eq_Some_conv)
  have i1: "populate_inv b s1"
  proof (rule for_loop_rule[OF 1, where I = "populate_inv b"])
    show "populate_inv b (b, 0)" using assms(2) by (simp add: populate_inv_def)
  next
    fix ri and u v :: "Board \<times> int"
    assume u: "populate_inv b u"
      and st: "(case u of (b, pi) \<Rightarrow> do {
           fwd \<leftarrow> at (ObsSorted b) pi;
           bwd \<leftarrow> at (ObsSorted b) (pi + 1);
           rps \<leftarrow> put (RowPerms b) ri (PermsForObs b fwd bwd);
           Some (b\<lparr>RowPerms := rps\<rparr>, pi + 2)
         }) = Some v"
    obtain ub pi where uu: "u = (ub, pi)" by (cases u) auto
    from st obtain fwd bwd rps where p: "put (RowPerms ub) ri (PermsForObs ub fwd bwd) = Some rps"
      and v: "v = (ub\<lparr>RowPerms := rps\<rparr>, pi + 2)"
      by (auto simp: uu bind_eq_Some_conv)
    from u uu have "wf_board ub" by (simp add: populate_inv_def)
    from wf_put_RowPerms[OF this p PermsForObs_valid] u uu v
    show "populate_inv b v" by (simp add: populate_inv_def)
  qed
  have i2: "populate_inv b s2"
  proof (rule for_loop_rule[OF 2, where I = "populate_inv b"])
    show "populate_inv b s1" by (rule i1)
  next
    fix ci and u v :: "Board \<times> int"
    assume u: "populate_inv b u"
      and st: "(case u of (b, pi) \<Rightarrow> do {
           fwd \<leftarrow> at (ObsSorted b) pi;
           bwd \<leftarrow> at (ObsSorted b) (pi + 1);
           cps \<leftarrow> put (ColPerms b) ci (PermsForObs b fwd bwd);
           Some (b\<lparr>ColPerms := cps\<rparr>, pi + 2)
         }) = Some v"
    obtain ub pi where uu: "u = (ub, pi)" by (cases u) auto
    from st obtain fwd bwd cps where p: "put (ColPerms ub) ci (PermsForObs ub fwd bwd) = Some cps"
      and v: "v = (ub\<lparr>ColPerms := cps\<rparr>, pi + 2)"
      by (auto simp: uu bind_eq_Some_conv)
    from u uu have "wf_board ub" by (simp add: populate_inv_def)
    from wf_put_ColPerms[OF this p PermsForObs_valid] u uu v
    show "populate_inv b v" by (simp add: populate_inv_def)
  qed
  from i2 3 show "wf_board b'" and "Grid b' = Grid b" and "Allowed b' = Allowed b" and "Size b' = Size b"
    by (simp_all add: populate_inv_def)
qed

lemma PermuteN_lengths:
  assumes "PermuteN n = Some perms"
  shows "\<forall>p \<in> set perms. length p = nat n"
proof -
  define av where "av = map (\<lambda>j. int j + 1) [0 ..< nat n]"
  from assms have "perms = selections av (nat n)"
    by (simp add: PermuteN_def Permute_eq av_def split: if_splits)
  moreover have "distinct av" by (simp add: av_def distinct_map inj_on_def)
  ultimately show ?thesis using selections_props[of av _ "nat n"] by blast
qed

lemma ctor_inv_init:
  assumes "0 \<le> n"
  shows "ctor_inv n \<lparr>Grid = replicate (nat n) (replicate (nat n) 0),
                  Allowed = NewAllowed n,
                  NumEmpty = wrap64 (n * n), Size = n,
                  Observers = [], ObsSorted = replicate (nat (n * 4)) None,
                  Perms = [],
                  RowPerms = replicate (nat n) None, ColPerms = replicate (nat n) None\<rparr>"
    (is "ctor_inv n ?b")
proof -
  have w: "wf_board ?b"
    using assms by (simp add: wf_board_def NewAllowed_def)
  have "cell_inv ?b"
    unfolding cell_inv_def
  proof (intro allI impI conjI)
    fix r c S k
    assume "allowed_at ?b r c = Some S" "k |\<in>| S"
    then have "k |\<in>| NumSet n"
      by (auto simp: allowed_at_Some_iff NewAllowed_def)
    then show "1 \<le> k" "k \<le> Size ?b"
      by (simp_all add: NumSet_def fset_of_list.rep_eq)
  next
    fix r c S g
    assume "Get ?b r c = Some g" "g \<noteq> EMPTY"
    then show "S |\<subseteq>| {|g|}"
      by (auto simp: Get_def at_nat EMPTY_def bind_eq_Some_conv split: if_splits)
  qed
  with w show ?thesis by (simp add: ctor_inv_def list_all_iff)
qed

lemma BoardFromLines_inv:
  assumes "BoardFromLines lines = Some b"
  shows "wf_board b" and "cell_inv b" and "PermuteN (Size b) \<noteq> None"
proof -
  define n where "n = int (length lines) - 2"
  define b0 where "b0 = \<lparr>Grid = replicate (nat n) (replicate (nat n) 0),
                  Allowed = NewAllowed n,
                  NumEmpty = wrap64 (n * n), Size = n,
                  Observers = [], ObsSorted = replicate (nat (n * 4)) None,
                  Perms = [],
                  RowPerms = replicate (nat n) None, ColPerms = replicate (nat n) None\<rparr>"
  from assms have n0: "0 \<le> n"
    by (auto simp: BoardFromLines_def Let_def n_def split: if_splits)
  from assms n0 obtain inputs b1 perms b2 ch where
    fi: "fill_inputs lines (replicate (nat (n + 2)) (replicate (nat (n + 2)) 0)) = Some inputs"
    and pl: "for_loop (enumerate 0 inputs)
                (\<lambda>(ri, row). for_loop (enumerate 0 row)
                   (\<lambda>(ci, cell). place_cell (int ri) (int ci) cell)) b0 = Some b1"
    and pm: "PermuteN (Size b1) = Some perms"
    and po: "PopulateRowColPerms (b1\<lparr>Perms := perms\<rparr>) = Some b2"
    and tr: "TrimAllowedFromPerms b2 = Some (b, ch)"
    by (auto simp: BoardFromLines_def Let_def n_def[symmetric] b0_def[symmetric] bind_eq_Some_conv
             split: if_splits)
  from fill_inputs_shape[OF fi] have shape: "map length inputs = replicate (nat (n + 2)) (nat (n + 2))"
    by (simp add: map_replicate_const)
  then have len: "length inputs = nat (n + 2)"
    by (metis length_map length_replicate)
  have rows: "length row = nat (n + 2)" if "row \<in> set inputs" for row
  proof -
    from that have "length row \<in> set (map length inputs)" by simp
    then show ?thesis unfolding shape by simp
  qed
  have i1: "ctor_inv n b1"
  proof (rule for_loop_rule[OF pl, where I = "ctor_inv n"])
    show "ctor_inv n b0" unfolding b0_def by (rule ctor_inv_init[OF n0])
  next
    fix x :: "nat \<times> int list" and u v
    assume x: "x \<in> set (enumerate 0 inputs)" and u: "ctor_inv n u"
      and st: "(case x of (ri, row) \<Rightarrow> for_loop (enumerate 0 row)
                   (\<lambda>(ci, cell). place_cell (int ri) (int ci) cell)) u = Some v"
    obtain ri row where xx: "x = (ri, row)" by (cases x) auto
    from x xx have ri: "ri < length inputs" "row \<in> set inputs"
      by (auto simp: in_set_enumerate_eq)
    from st have l: "for_loop (enumerate 0 row) (\<lambda>(ci, cell). place_cell (int ri) (int ci) cell) u = Some v"
      by (simp add: xx)
    show "ctor_inv n v"
    proof (rule for_loop_rule[OF l, where I = "ctor_inv n"])
      show "ctor_inv n u" by (rule u)
    next
      fix y :: "nat \<times> int" and p q
      assume y: "y \<in> set (enumerate 0 row)" and p: "ctor_inv n p"
        and s: "(case y of (ci, cell) \<Rightarrow> place_cell (int ri) (int ci) cell) p = Some q"
      obtain ci cell where yy: "y = (ci, cell)" by (cases y) auto
      from y yy rows[OF ri(2)] have ci: "ci < nat (n + 2)" by (auto simp: in_set_enumerate_eq)
      from s have "place_cell (int ri) (int ci) cell p = Some q" by (simp add: yy)
      then show "ctor_inv n q"
        by (rule ctor_inv_place_cell[OF p]) (use ri(1) ci len in auto)
    qed
  qed
  then have w1: "wf_board b1" and c1: "cell_inv b1" and s1: "Size b1 = n" and p1: "Perms b1 = []"
    and np: "list_all (\<lambda>l. l = None) (RowPerms b1)" "list_all (\<lambda>l. l = None) (ColPerms b1)"
    by (simp_all add: ctor_inv_def)
  from PermuteN_lengths[OF pm] s1 have pl: "\<forall>p \<in> set perms. length p = nat (Size b1)" by simp
  have w1': "wf_board (b1\<lparr>Perms := perms\<rparr>)"
    using w1 np pl unfolding wf_board_def by (auto simp: list_all_iff)
  have c1': "cell_inv (b1\<lparr>Perms := perms\<rparr>)"
    using cell_inv_cong[of "b1\<lparr>Perms := perms\<rparr>" b1] c1 by simp
  from PopulateRowColPerms_inv[OF po w1'] have w2: "wf_board b2"
    and f2: "Grid b2 = Grid b1" "Allowed b2 = Allowed b1" "Size b2 = Size b1"
    by simp_all
  from cell_inv_cong[of b2 "b1\<lparr>Perms := perms\<rparr>"] f2 c1' have c2: "cell_inv b2" by simp
  from TrimAllowedFromPerms_spec(1)[OF tr] have t: "tracks b2 (b, ch)" .
  then have ao: "allowed_only b b2" by (simp add: tracks_def)
  from wf_allowed_only[OF w2 ao] show "wf_board b" by simp
  from cell_inv_tracks[OF t c2] show "cell_inv b" .
  from wf_allowed_only[OF w2 ao] f2 pm show "PermuteN (Size b) \<noteq> None" by simp
qed

section \<open>Sequences of solving operations\<close>

datatype op =
    Op_Mark int int int
  | Op_MarkMandatory
  | Op_TrimAllowedFromPerms
  | Op_TrimPermsFromAllowed
  | Op_TrimNakedSets int
  | Op_TrimFoundGroups int
  | Op_AutoSolve

text \<open>The board that an operation leaves; its results are dropped.\<close>

fun apply_op :: "op \<Rightarrow> Board \<Rightarrow> Board option" where
  "apply_op (Op_Mark ri ci val) b = map_option fst (Mark b ri ci val)"
| "apply_op Op_MarkMandatory b = map_option fst (MarkMandatory b)"
| "apply_op Op_TrimAllowedFromPerms b = map_option fst (TrimAllowedFromPerms b)"
| "apply_op Op_TrimPermsFromAllowed b = map_option fst (TrimPermsFromAllowed b)"
| "apply_op (Op_TrimNakedSets n) b = map_option fst (TrimNakedSets b n)"
| "apply_op (Op_TrimFoundGroups n) b = map_option fst (TrimFoundGroups b n)"
| "apply_op Op_AutoSolve b = map_option fst (AutoSolve b)"

definition run_ops :: "op list \<Rightarrow> Board \<Rightarrow> Board option" where
  "run_ops ops b = for_loop ops apply_op b"

lemma autosolve_loop_rel:
  "autosolve_loop b = Some b' \<Longrightarrow> shrinks b' b \<and> same_frame b' b"
proof (induction b rule: autosolve_loop.induct)
  case (1 b)
  from "1.prems" obtain v where v: "Solved b = Some v"
    by (subst (asm) autosolve_loop.simps) (auto split: option.splits)
  show ?case
  proof (cases "v = Solved_ok")
    case True
    with "1.prems" v have "b' = b" by (subst (asm) autosolve_loop.simps) simp
    then show ?thesis by (simp add: shrinks_refl same_frame_refl)
  next
    case False
    with "1.prems" v obtain b1 ch where r: "solve_round b = Some (b1, ch)"
      and e: "(if ch then autosolve_loop b1 else Some b1) = Some b'"
      by (subst (asm) autosolve_loop.simps) (auto split: option.splits)
    from solve_round_progress[OF r] have p: "shrinks b1 b" "same_frame b1 b"
      by (simp_all add: progress_def)
    show ?thesis
    proof (cases ch)
      case True
      with e have "autosolve_loop b1 = Some b'" by simp
      from "1.IH"[OF v False r refl True this] p show ?thesis
        by (blast intro: shrinks_trans same_frame_trans)
    next
      case False
      with e p show ?thesis by simp
    qed
  qed
qed

lemma apply_op_rel:
  assumes "apply_op op b = Some b'"
  shows "shrinks b' b \<and> same_frame b' b"
proof (cases op)
  case (Op_Mark ri ci val)
  with assms obtain ch nu where "Mark b ri ci val = Some (b', ch, nu)" by auto
  from Mark_rel[OF this] show ?thesis by (simp add: mark_rel_def)
next
  case Op_MarkMandatory
  with assms obtain ch where "MarkMandatory b = Some (b', ch)" by auto
  from MarkMandatory_progress[OF this] show ?thesis by (simp add: progress_def)
next
  case Op_TrimAllowedFromPerms
  with assms obtain ch where "TrimAllowedFromPerms b = Some (b', ch)" by auto
  from tracks_progress[OF TrimAllowedFromPerms_spec(1)[OF this]] show ?thesis
    by (simp add: progress_def)
next
  case Op_TrimPermsFromAllowed
  with assms obtain ch where "TrimPermsFromAllowed b = Some (b', ch)" by auto
  from ptracks_progress[OF TrimPermsFromAllowed_ptracks[OF this]] show ?thesis
    by (simp add: progress_def)
next
  case (Op_TrimNakedSets n)
  with assms obtain ch where "TrimNakedSets b n = Some (b', ch)" by auto
  from tracks_progress[OF TrimNakedSets_tracks[OF this]] show ?thesis
    by (simp add: progress_def)
next
  case (Op_TrimFoundGroups n)
  with assms obtain ch where "TrimFoundGroups b n = Some (b', ch)" by auto
  from tracks_progress[OF TrimFoundGroups_tracks[OF this]] show ?thesis
    by (simp add: progress_def)
next
  case Op_AutoSolve
  with assms have "autosolve_loop b = Some b'"
    by (auto simp: AutoSolve_def bind_eq_Some_conv)
  then show ?thesis by (rule autosolve_loop_rel)
qed

lemma run_ops_rel:
  assumes "run_ops ops b = Some b'"
  shows "shrinks b' b \<and> same_frame b' b"
proof (rule for_loop_rule[OF assms[unfolded run_ops_def], where I = "\<lambda>u. shrinks u b \<and> same_frame u b"])
  show "shrinks b b \<and> same_frame b b" by (simp add: shrinks_refl same_frame_refl)
next
  fix op u v
  assume "shrinks u b \<and> same_frame u b" "apply_op op u = Some v"
  with apply_op_rel[of op u v] show "shrinks v b \<and> same_frame v b"
    by (blast intro: shrinks_trans same_frame_trans)
qed

lemma rel_subseq_at:
  assumes "list_all2 (rel_option subseq) xs' xs" and "at xs' i = Some (Some ps')"
  shows "\<exists>ps. at xs i = Some (Some ps) \<and> subseq ps' ps"
proof -
  from assms(2) have i: "0 \<le> i" "nat i < length xs'" "xs' ! nat i = Some ps'"
    by (simp_all add: at_nat split: if_splits)
  with assms(1) have "rel_option subseq (Some ps') (xs ! nat i)" "nat i < length xs"
    by (auto simp: list_all2_conv_all_nth)
  then obtain ps where "xs ! nat i = Some ps" "subseq ps' ps"
    by (cases "xs ! nat i") auto
  with i \<open>nat i < length xs\<close> show ?thesis by (simp add: at_nat)
qed

definition board_two_clues_solved :: Board where
  "board_two_clues_solved = board_two_clues\<lparr>
     Grid := [[1, 2, 3], [3, 1, 2], [2, 3, 1]],
     Allowed := [[{|1|}, {|2|}, {|3|}], [{|3|}, {|1|}, {|2|}], [{|2|}, {|3|}, {|1|}]],
     NumEmpty := 0, ColPerms := [Some [1], None, None]\<rparr>"

text \<open>
  Claim C3. Across any sequence of calls of the solving operations (\<open>Mark\<close> with any
  arguments, \<open>MarkMandatory\<close>, \<open>TrimAllowedFromPerms\<close>, \<open>TrimPermsFromAllowed\<close>,
  \<open>TrimNakedSets\<close> and \<open>TrimFoundGroups\<close> at any subset size, and \<open>AutoSolve\<close>) that
  runs to its end, on any board: the candidate set of every cell afterwards is a subset of
  the one before, so no larger; the candidate-permutation list of every row and every
  column afterwards is a subsequence of the one before, so no longer; a nil list stays nil.
\<close>

theorem operations_only_remove:
  assumes "run_ops ops b = Some b'"
  shows "shrinks b' b \<and>
         (\<forall>r c S'. allowed_at b' r c = Some S' \<longrightarrow>
            (\<exists>S. allowed_at b r c = Some S \<and> S' |\<subseteq>| S \<and> fcard S' \<le> fcard S)) \<and>
         (\<forall>i ps'. at (RowPerms b') i = Some (Some ps') \<longrightarrow>
            (\<exists>ps. at (RowPerms b) i = Some (Some ps) \<and> subseq ps' ps \<and> length ps' \<le> length ps)) \<and>
         (\<forall>i ps'. at (ColPerms b') i = Some (Some ps') \<longrightarrow>
            (\<exists>ps. at (ColPerms b) i = Some (Some ps) \<and> subseq ps' ps \<and> length ps' \<le> length ps))"
proof -
  from run_ops_rel[OF assms] have s: "shrinks b' b" by simp
  then have l: "list_all2 (rel_option subseq) (RowPerms b') (RowPerms b)"
    "list_all2 (rel_option subseq) (ColPerms b') (ColPerms b)"
    by (simp_all add: shrinks_def)
  have a: "\<exists>S. allowed_at b r c = Some S \<and> S' |\<subseteq>| S \<and> fcard S' \<le> fcard S"
    if "allowed_at b' r c = Some S'" for r c S'
    using shrinks_allowed_at[OF s that] by (auto intro: fcard_mono)
  have r: "\<exists>ps. at (RowPerms b) i = Some (Some ps) \<and> subseq ps' ps \<and> length ps' \<le> length ps"
    if "at (RowPerms b') i = Some (Some ps')" for i ps'
    using rel_subseq_at[OF l(1) that] by (auto dest: list_emb_length)
  have c: "\<exists>ps. at (ColPerms b) i = Some (Some ps) \<and> subseq ps' ps \<and> length ps' \<le> length ps"
    if "at (ColPerms b') i = Some (Some ps')" for i ps'
    using rel_subseq_at[OF l(2) that] by (auto dest: list_emb_length)
  from s a r c show ?thesis by blast
qed

theorem operations_only_remove_witness:
  "run_ops [Op_TrimAllowedFromPerms, Op_MarkMandatory, Op_TrimPermsFromAllowed] board_two_clues
     = Some board_two_clues_solved \<and>
   shrinks board_two_clues_solved board_two_clues \<and>
   allowed_at board_two_clues 1 0 = Some {|1, 2, 3|} \<and>
   allowed_at board_two_clues_solved 1 0 = Some {|3|} \<and>
   at (ColPerms board_two_clues) 0 = Some (Some [1, 2, 3]) \<and>
   at (ColPerms board_two_clues_solved) 0 = Some (Some [1])"
proof -
  have h: "run_ops [Op_TrimAllowedFromPerms, Op_MarkMandatory, Op_TrimPermsFromAllowed] board_two_clues
     = Some board_two_clues_solved"
    by code_simp
  from operations_only_remove[OF h] have "shrinks board_two_clues_solved board_two_clues"
    by (rule conjunct1)
  moreover have "allowed_at board_two_clues 1 0 = Some {|1, 2, 3|}"
    "allowed_at board_two_clues_solved 1 0 = Some {|3|}"
    "at (ColPerms board_two_clues) 0 = Some (Some [1, 2, 3])"
    "at (ColPerms board_two_clues_solved) 0 = Some (Some [1])"
    by code_simp+
  ultimately show ?thesis using h by simp
qed

section \<open>Reachable boards\<close>

text \<open>The boards that the constructor returns, and those that a solving operation leaves when
  run on one of them.\<close>

inductive reachable :: "Board \<Rightarrow> bool" where
  reach_init: "BoardFromLines lines = Some b \<Longrightarrow> reachable b"
| reach_step: "reachable b \<Longrightarrow> apply_op op b = Some b' \<Longrightarrow> reachable b'"

lemma cell_inv_apply_op:
  assumes "apply_op op b = Some b'" and "cell_inv b"
  shows "cell_inv b'"
proof (cases op)
  case (Op_Mark ri ci val)
  with assms(1) obtain ch nu where "Mark b ri ci val = Some (b', ch, nu)" by auto
  from cell_inv_Mark[OF this assms(2)] show ?thesis .
next
  case Op_MarkMandatory
  with assms(1) obtain ch where "MarkMandatory b = Some (b', ch)" by auto
  from cell_inv_MarkMandatory[OF this assms(2)] show ?thesis .
next
  case Op_TrimAllowedFromPerms
  with assms(1) obtain ch where "TrimAllowedFromPerms b = Some (b', ch)" by auto
  from cell_inv_tracks[OF TrimAllowedFromPerms_spec(1)[OF this] assms(2)] show ?thesis .
next
  case Op_TrimPermsFromAllowed
  with assms(1) obtain ch where "TrimPermsFromAllowed b = Some (b', ch)" by auto
  from TrimPermsFromAllowed_ptracks[OF this] have "perms_only b' b" by (simp add: ptracks_def)
  from cell_inv_perms_only[OF this assms(2)] show ?thesis .
next
  case (Op_TrimNakedSets n)
  with assms(1) obtain ch where "TrimNakedSets b n = Some (b', ch)" by auto
  from cell_inv_tracks[OF TrimNakedSets_tracks[OF this] assms(2)] show ?thesis .
next
  case (Op_TrimFoundGroups n)
  with assms(1) obtain ch where "TrimFoundGroups b n = Some (b', ch)" by auto
  from cell_inv_tracks[OF TrimFoundGroups_tracks[OF this] assms(2)] show ?thesis .
next
  case Op_AutoSolve
  with assms(1) have "autosolve_loop b = Some b'"
    by (auto simp: AutoSolve_def bind_eq_Some_conv)
  from cell_inv_autosolve_loop[OF this assms(2)] show ?thesis .
qed

lemma reachable_cell_inv: "reachable b \<Longrightarrow> cell_inv b"
proof (induction rule: reachable.induct)
  case (reach_init lines b)
  then show ?case by (rule BoardFromLines_inv(2))
next
  case (reach_step b op b')
  from cell_inv_apply_op[OF reach_step.hyps(2) reach_step.IH] show ?case .
qed

definition board_contradiction :: Board where
  "board_contradiction = \<lparr>Grid = [[2, 0], [0, 0]],
     Allowed = [[{||}, {||}], [{|1|}, {|1, 2|}]],
     NumEmpty = 3, Size = 2,
     Observers = [\<lparr>Type = 0, Index = 0, Direction = 0, Count = 2\<rparr>],
     ObsSorted = [Some \<lparr>Type = 0, Index = 0, Direction = 0, Count = 2\<rparr>, None, None, None,
                  None, None, None, None],
     Perms = [[1, 2], [2, 1]], RowPerms = [Some [0], None], ColPerms = [None, None]\<rparr>"

text \<open>The 2-by-2 puzzle with the clue 2 above its first column, and the board that
  \<open>AutoSolve\<close> leaves of it.\<close>

definition lines_clue :: "line list" where
  "lines_clue = map ascii [[32, 50, 32, 32], [32, 32, 32, 32], [32, 32, 32, 32], [32, 32, 32, 32]]"

definition board_clue :: Board where
  "board_clue = \<lparr>Grid = [[0, 0], [0, 0]],
     Allowed = [[{|1|}, {|1, 2|}], [{|2|}, {|1, 2|}]],
     NumEmpty = 4, Size = 2,
     Observers = [\<lparr>Type = 1, Index = 0, Direction = 0, Count = 2\<rparr>],
     ObsSorted = [None, None, None, None,
                  Some \<lparr>Type = 1, Index = 0, Direction = 0, Count = 2\<rparr>, None, None, None],
     Perms = [[1, 2], [2, 1]], RowPerms = [None, None], ColPerms = [Some [0], None]\<rparr>"

definition board_clue_solved :: Board where
  "board_clue_solved = board_clue\<lparr>Grid := [[1, 2], [2, 1]],
     Allowed := [[{|1|}, {|2|}], [{|2|}, {|1|}]], NumEmpty := 0\<rparr>"

text \<open>
  Claim C5 as the spec has it fails at the constructor already. On the 2-by-2 puzzle with
  the clue 2 on the left of the first row and the given 2 in its first cell, the
  constructor marks the cell, so that its candidate set is \<open>{2}\<close>, and its closing
  \<open>TrimAllowedFromPerms\<close> then removes the 2, which the only permutation that fits the
  clue does not place there: the cell holds 2 and has no candidate.
\<close>

theorem filled_cell_counterexample:
  "BoardFromLines lines_contradiction = Some board_contradiction \<and>
   reachable board_contradiction \<and>
   Get board_contradiction 0 0 = Some 2 \<and>
   allowed_at board_contradiction 0 0 = Some {||} \<and>
   allowed_at board_contradiction 0 0 \<noteq> Some {|2|}"
proof -
  have c: "BoardFromLines lines_contradiction = Some board_contradiction"
    by code_simp
  from c have "reachable board_contradiction" by (rule reach_init)
  moreover have "Get board_contradiction 0 0 = Some 2"
    "allowed_at board_contradiction 0 0 = Some {||}"
    by (simp_all add: board_contradiction_def Get_def allowed_at_def at_def)
  moreover have "({||} :: int fset) \<noteq> {|2|}" by auto
  ultimately show ?thesis using c by simp
qed

text \<open>
  Claim C5, amended. In every board that the constructor returns, and in every board that
  any sequence of solving operations leaves of it (\<open>Mark\<close> with any arguments,
  \<open>MarkMandatory\<close>, \<open>TrimAllowedFromPerms\<close>, \<open>TrimPermsFromAllowed\<close>, \<open>TrimNakedSets\<close>
  and \<open>TrimFoundGroups\<close> at any subset size, \<open>AutoSolve\<close>), a non-empty grid cell has no
  candidate other than its own value: its candidate set is that singleton or empty.
\<close>

theorem filled_cell_candidates:
  assumes "reachable b" and "Get b r c = Some g" and "g \<noteq> EMPTY"
    and "allowed_at b r c = Some S"
  shows "S |\<subseteq>| {|g|}"
  using reachable_cell_inv[OF assms(1)] assms(2-4) by (simp add: cell_inv_def)

theorem filled_cell_candidates_witness:
  "reachable board_clue_solved \<and> Get board_clue_solved 0 0 = Some 1 \<and> 1 \<noteq> EMPTY \<and>
   allowed_at board_clue_solved 0 0 = Some {|1|} \<and> {|1|} |\<subseteq>| {|1 :: int|}"
proof -
  have "BoardFromLines lines_clue = Some board_clue" by code_simp
  then have "reachable board_clue" by (rule reach_init)
  moreover have "apply_op Op_AutoSolve board_clue = Some board_clue_solved" by code_simp
  ultimately have r: "reachable board_clue_solved" by (rule reach_step)
  have g: "Get board_clue_solved 0 0 = Some 1"
    and a: "allowed_at board_clue_solved 0 0 = Some {|1|}"
    by (simp_all add: board_clue_solved_def board_clue_def Get_def allowed_at_def at_def)
  have e: "1 \<noteq> EMPTY" by (simp add: EMPTY_def)
  from filled_cell_candidates[OF r g e a] r g e a show ?thesis by simp
qed

section \<open>One change or a full sweep\<close>









section \<open>The driver on the boards of the constructor\<close>

text \<open>The wrapped factorials from a given one on, step by step: none of them is a capacity
  that \<open>make\<close> accepts.\<close>

fun refused_from :: "nat \<Rightarrow> int \<Rightarrow> int \<Rightarrow> bool" where
  "refused_from 0 n f = True"
| "refused_from (Suc k) n f =
     (\<not> make_ok 24 (wrap64 f) \<and> refused_from k (n + 1) (wrap64 ((n + 1) * f)))"

lemma refused_from_sound:
  "refused_from k n (fact64 n) \<Longrightarrow> 2 \<le> n \<Longrightarrow> n \<le> m \<Longrightarrow> m < n + int k \<Longrightarrow>
   \<not> make_ok 24 (wrap64 (fact64 m))"
proof (induction k arbitrary: n)
  case 0
  then show ?case by simp
next
  case (Suc k)
  show ?case
  proof (cases "m = n")
    case True
    with Suc.prems(1) show ?thesis by simp
  next
    case False
    have "fact64 (n + 1) = wrap64 ((n + 1) * fact64 n)"
      using Suc.prems(2) by (subst fact64.simps) simp
    with Suc.prems(1) have "refused_from k (n + 1) (fact64 (n + 1))" by simp
    from Suc.IH[OF this] Suc.prems(2-4) False show ?thesis by simp
  qed
qed

lemma fact64_refused:
  assumes "16 \<le> m" and "m \<le> 65"
  shows "\<not> make_ok 24 (wrap64 (fact64 m))"
proof -
  have "refused_from 50 16 (fact64 16)" by code_simp
  from refused_from_sound[OF this, of m] assms show ?thesis by simp
qed

lemma PermuteN_size:
  assumes "PermuteN n = Some perms" and "n \<le> 65"
  shows "n \<le> 15"
proof (rule ccontr)
  assume "\<not> n \<le> 15"
  with assms(2) have "\<not> make_ok 24 (wrap64 (fact64 n))" by (intro fact64_refused) simp_all
  moreover have "fact64 0 = 1" by (subst fact64.simps) simp
  then have "fact64 n sdiv fact64 (n - n) = fact64 n" by (simp add: signed_divide_int_def sgn_mult_abs)
  ultimately have "Permute 1 n n = None" by (simp add: Permute_eq)
  with assms(1) show False by (simp add: PermuteN_def)
qed


text \<open>The 2-by-2 puzzle with no clue and no given, which has two solutions.\<close>

definition lines_open :: "line list" where
  "lines_open = map ascii [[32, 32, 32, 32], [32, 32, 32, 32], [32, 32, 32, 32], [32, 32, 32, 32]]"

definition board_open :: Board where
  "board_open = \<lparr>Grid = [[0, 0], [0, 0]],
     Allowed = [[{|1, 2|}, {|1, 2|}], [{|1, 2|}, {|1, 2|}]],
     NumEmpty = 4, Size = 2, Observers = [],
     ObsSorted = [None, None, None, None, None, None, None, None],
     Perms = [[1, 2], [2, 1]], RowPerms = [None, None], ColPerms = [None, None]\<rparr>"

text \<open>
  Claim C4. On every board that the constructor returns, \<open>AutoSolve\<close> returns: no panic,
  and no round without end, since \<open>autosolve_loop\<close> and \<open>MarkMandatory\<close> are total functions
  whose every recursive call lowers a measure. The board it leaves either passes \<open>Solved\<close>,
  or is stalled: \<open>MarkMandatory\<close>, \<open>TrimAllowedFromPerms\<close>, \<open>TrimPermsFromAllowed\<close>, and
  \<open>TrimNakedSets\<close> and \<open>TrimFoundGroups\<close> at every subset size from 2 to the size less 2,
  all return false on it and leave it as it is. The result that \<open>AutoSolve\<close> returns is that
  of \<open>Solved\<close> on this board. The bound on the size keeps to the puzzles for which the
  constructor returns in the code as well: with 16 to 65 rows \<open>make\<close> refuses the capacity
  of \<open>PermuteN\<close> (so no board is returned, in the model as in the code, and the bound
  could be 15), and from 66 rows on the wrapped factorial is 0, no capacity is asked for,
  and the code appends permutations until memory is exhausted, which the model leaves out.
\<close>

theorem AutoSolve_terminates:
  assumes "BoardFromLines lines = Some b" and "Size b \<le> 65"
  shows "\<exists>b' v. AutoSolve b = Some (b', v) \<and> Solved b' = Some v \<and> (v = Solved_ok \<or> stalled b')"
proof -
  from BoardFromLines_inv(3)[OF assms(1)] obtain perms where "PermuteN (Size b) = Some perms"
    by auto
  from PermuteN_size[OF this assms(2)] have "Size b \<le> 15" .
  from AutoSolve_total[OF BoardFromLines_inv(1)[OF assms(1)] this] show ?thesis .
qed

theorem AutoSolve_terminates_witness:
  "BoardFromLines lines_open = Some board_open \<and> Size board_open \<le> 65 \<and>
   AutoSolve board_open = Some (board_open, Incomplete 4) \<and> stalled board_open"
proof -
  have h: "BoardFromLines lines_open = Some board_open" by code_simp
  have s: "Size board_open \<le> 65" by (simp add: board_open_def)
  have e: "AutoSolve board_open = Some (board_open, Incomplete 4)" by code_simp
  from AutoSolve_terminates[OF h s] obtain b' v where
    "AutoSolve board_open = Some (b', v)" "v = Solved_ok \<or> stalled b'"
    by blast
  with e have "stalled board_open" by auto
  with h s e show ?thesis by simp
qed

end
